(* ===== verification/Prelude.thy ===== *)
theory Prelude
  imports Main "HOL-Library.Word" "HOL-Library.Signed_Division"
begin

text \<open>
  Shared vocabulary of the development: names for the machine types of the C code, the
  collections its automation is kept in, and the generic facts on lists that several components
  use.  Nothing here models code of the agent.
\<close>

section \<open>Machine types\<close>

type_synonym u8 = "8 word"
type_synonym u16 = "16 word"
type_synonym u32 = "32 word"
type_synonym u64 = "64 word"

text \<open>
  A C \<open>int\<close> that is only ever copied and compared is an \<open>int\<close>; where the code counts with it
  and the wrap-around matters it is an \<open>i32\<close>, read by \<open>sint\<close>.
\<close>

type_synonym i32 = "32 word"
type_synonym i16 = "16 word"
type_synonym bytes = "u8 list"

text \<open>\<open>src/agent/emtypes.h\<close>: \<open>uint32_t\<close>, \<open>unsigned int\<close> and \<open>int\<close>.\<close>

type_synonym seq_id_t = u32
type_synonym task_id_t = u32
type_synonym trig_id_t = i32

section \<open>Collections\<close>

named_theorems frame_simps \<open>what an operation leaves unchanged\<close>
named_theorems const_simps \<open>values of the enumerations and macros of the code\<close>

section \<open>The first element that satisfies a test\<close>

text \<open>
  The searches of the agent walk a list and stop at the first hit.  \<open>List.find\<close> is the lookup;
  \<open>delete_first\<close> unlinks the hit.
\<close>

fun delete_first :: "('a \<Rightarrow> bool) \<Rightarrow> 'a list \<Rightarrow> 'a list" where
  "delete_first P [] = []"
| "delete_first P (x # xs) = (if P x then xs else x # delete_first P xs)"

lemma delete_first_none: "(\<forall>x \<in> set xs. \<not> P x) \<Longrightarrow> delete_first P xs = xs"
  by (induction xs) auto

lemma delete_first_subset: "set (delete_first P xs) \<subseteq> set xs"
  by (induction xs) auto

lemma delete_first_split:
  "\<forall>x \<in> set xs. \<not> P x \<Longrightarrow> P y \<Longrightarrow> delete_first P (xs @ y # ys) = xs @ ys"
  by (induction xs) auto

lemma length_delete_first:
  "length (delete_first P xs) = (if \<exists>x \<in> set xs. P x then length xs - 1 else length xs)"
  by (induction xs) (auto simp: Suc_diff_Suc dest: length_pos_if_in_set)

lemma distinct_map_delete_first:
  "distinct (map f xs) \<Longrightarrow> distinct (map f (delete_first P xs))"
  by (induction xs) (auto dest: delete_first_subset [THEN subsetD])

text \<open>When the test reads a key that is distinct in the list, deletion is filtering.\<close>

lemma delete_first_key:
  assumes "distinct (map f xs)"
  shows "delete_first (\<lambda>x. f x = k) xs = filter (\<lambda>x. f x \<noteq> k) xs"
  using assms
proof (induction xs)
  case Nil
  then show ?case by simp
next
  case (Cons x xs)
  then show ?case
  proof (cases "f x = k")
    case True
    with Cons.prems have "\<forall>y \<in> set xs. f y \<noteq> k" by (auto simp: image_iff)
    with True show ?thesis by (simp add: filter_True)
  qed simp
qed

lemma find_SomeD: "List.find P xs = Some x \<Longrightarrow> P x \<and> x \<in> set xs"
  by (induction xs) (auto split: if_splits)

lemma find_None_iff_ball: "List.find P xs = None \<longleftrightarrow> (\<forall>x \<in> set xs. \<not> P x)"
  by (induction xs) auto

lemma find_key:
  assumes "distinct (map f xs)" and "x \<in> set xs"
  shows "List.find (\<lambda>y. f y = f x) xs = Some x"
  using assms by (induction xs) auto

text \<open>A list from which a hit is taken splits at the first hit.\<close>

lemma find_split:
  assumes "List.find P xs = Some x"
  obtains us vs where "xs = us @ x # vs" and "\<forall>u \<in> set us. \<not> P u" and "P x"
  using assms
proof (induction xs arbitrary: thesis)
  case Nil
  then show ?case by simp
next
  case (Cons y ys)
  show ?case
  proof (cases "P y")
    case True
    with Cons.prems show ?thesis by (intro Cons.prems(1) [of "[]" ys]) auto
  next
    case False
    with Cons.prems obtain us vs where "ys = us @ x # vs" "\<forall>u \<in> set us. \<not> P u" "P x"
      using Cons.IH by (metis find.simps(2))
    with False show ?thesis by (intro Cons.prems(1) [of "y # us" vs]) auto
  qed
qed

lemma sum_delete_first:
  assumes "List.find P xs = Some x"
  shows "(\<Sum>y\<leftarrow>delete_first P xs. f y) = (\<Sum>y\<leftarrow>xs. f y) - (f x :: 'b::ab_group_add)"
proof -
  obtain us vs where "xs = us @ x # vs" "\<forall>u \<in> set us. \<not> P u" "P x"
    using assms by (rule find_split)
  then show ?thesis by (simp add: delete_first_split)
qed

text \<open>Lookups after a deletion by key.\<close>

lemma find_delete_first_same:
  assumes "distinct (map f xs)"
  shows "List.find (\<lambda>x. f x = k) (delete_first (\<lambda>x. f x = k) xs) = None"
  by (auto simp: find_None_iff_ball delete_first_key [OF assms])

lemma find_delete_first_other:
  assumes "k \<noteq> j"
  shows "List.find (\<lambda>x. f x = k) (delete_first (\<lambda>x. f x = j) xs) = List.find (\<lambda>x. f x = k) xs"
  using assms by (induction xs) auto

section \<open>Words of 32 and 64 bits\<close>

lemma take_bit_sum: "take_bit 32 (x + y :: int) = take_bit 32 (take_bit 64 x + take_bit 64 y)"
  using take_bit_add [of 32 "take_bit 64 x" "take_bit 64 y"] take_bit_add [of 32 x y] by simp

lemma take_bit_difference:
  "take_bit 32 (x - y :: int) = take_bit 32 (take_bit 64 x - take_bit 64 y)"
  using take_bit_diff [of 32 "take_bit 64 x" "take_bit 64 y"] take_bit_diff [of 32 x y] by simp

text \<open>Truncation to 32 bits commutes with addition and subtraction, and undoes widening.\<close>

lemma ucast_down_add: "(ucast (x + y :: u64) :: u32) = ucast x + ucast y"
  by transfer (simp add: take_bit_sum [symmetric])

lemma ucast_down_diff: "(ucast (x - y :: u64) :: u32) = ucast x - ucast y"
  by transfer (simp add: take_bit_difference [symmetric])

lemma ucast_down_up: "(ucast (ucast (x :: u32) :: u64) :: u32) = x"
  by transfer simp

lemma unat_ucast_up: "unat (ucast (x :: u32) :: u64) = unat x"
  by transfer simp

lemma unat_u32_less: "unat (x :: u32) < 4294967296"
proof -
  have "unat x < 2 ^ LENGTH(32)" by (rule unsigned_less)
  then show ?thesis by simp
qed

lemma sint_small:
  assumes "unat (i :: i32) < 2 ^ 31"
  shows "sint i = int (unat i)"
proof -
  have u: "uint i = int (unat i)" by simp
  have "int (unat i) < int (2 ^ 31)" using assms by (simp only: of_nat_less_iff)
  moreover have "- (2 ^ 31) \<le> (0 :: int)" by simp
  moreover have "0 \<le> int (unat i)" by (rule of_nat_0_le_iff)
  ultimately have "- (2 ^ 31) \<le> int (unat i)" and "int (unat i) < 2 ^ 31"
    by (blast intro: order_trans, simp only: of_nat_power of_nat_numeral)
  then have "signed_take_bit 31 (int (unat i)) = int (unat i)"
    by (simp only: signed_take_bit_int_eq_self_iff conj_absorb simp_thms)
  then show ?thesis by (simp add: sint_uint)
qed

lemma sless_pos:
  assumes "unat (i :: i32) < 2 ^ 31"
  shows "0 <s i \<longleftrightarrow> 0 < unat i"
proof -
  have "0 <s i \<longleftrightarrow> 0 < int (unat i)" by (simp only: word_sless_alt sint_0 sint_small [OF assms])
  then show ?thesis by linarith
qed

end
