(* ===== verification/Emlist.thy ===== *)
theory Emlist
  imports Prelude
begin

text \<open>
  \<open>src/agent/emlist.h\<close>: the intrusive, circular, doubly linked lists every component keeps its
  elements in.  The store maps an address to the two pointers of the \<open>struct list_head\<close> there;
  every inline function is the sequence of pointer writes of the source, in its order, so that
  aliasing between the arguments (an empty list, a neighbour that is the head) is the model's
  too.  \<open>dlist h r xs\<close> says that the list headed at \<open>r\<close> holds exactly the entries \<open>xs\<close>.
\<close>

section \<open>The store\<close>

type_synonym addr = nat

record list_head =
  lnext :: addr
  lprev :: addr

type_synonym heap = "addr \<Rightarrow> list_head"

definition set_next :: "heap \<Rightarrow> addr \<Rightarrow> addr \<Rightarrow> heap" where
  "set_next h p v = h(p := (h p)\<lparr>lnext := v\<rparr>)"

definition set_prev :: "heap \<Rightarrow> addr \<Rightarrow> addr \<Rightarrow> heap" where
  "set_prev h p v = h(p := (h p)\<lparr>lprev := v\<rparr>)"

definition LIST_POISON1 :: addr where "LIST_POISON1 = 0x00100100"
definition LIST_POISON2 :: addr where "LIST_POISON2 = 0x00200200"

lemma lnext_set_next [simp]: "lnext (set_next h p v a) = (if a = p then v else lnext (h a))"
  and lprev_set_next [simp]: "lprev (set_next h p v a) = lprev (h a)"
  and lprev_set_prev [simp]: "lprev (set_prev h p v a) = (if a = p then v else lprev (h a))"
  and lnext_set_prev [simp]: "lnext (set_prev h p v a) = lnext (h a)"
  by (simp_all add: set_next_def set_prev_def)

lemma set_next_other [frame_simps]: "a \<noteq> p \<Longrightarrow> set_next h p v a = h a"
  and set_prev_other [frame_simps]: "a \<noteq> p \<Longrightarrow> set_prev h p v a = h a"
  by (simp_all add: set_next_def set_prev_def)

section \<open>Operations\<close>

definition INIT_LIST_HEAD :: "heap \<Rightarrow> addr \<Rightarrow> heap" where
  "INIT_LIST_HEAD h lst =
     (let h = set_next h lst lst
      in set_prev h lst lst)"

definition list_add_between :: "heap \<Rightarrow> addr \<Rightarrow> addr \<Rightarrow> addr \<Rightarrow> heap" where
  "list_add_between h new prev nxt =
     (let h = set_prev h nxt new;
          h = set_next h new nxt;
          h = set_prev h new prev
      in set_next h prev new)"

definition list_add :: "heap \<Rightarrow> addr \<Rightarrow> addr \<Rightarrow> heap" where
  "list_add h new head = list_add_between h new head (lnext (h head))"

definition list_add_tail :: "heap \<Rightarrow> addr \<Rightarrow> addr \<Rightarrow> heap" where
  "list_add_tail h new head = list_add_between h new (lprev (h head)) head"

definition list_del_between :: "heap \<Rightarrow> addr \<Rightarrow> addr \<Rightarrow> heap" where
  "list_del_between h prev nxt =
     (let h = set_prev h nxt prev
      in set_next h prev nxt)"

definition list_del_entry :: "heap \<Rightarrow> addr \<Rightarrow> heap" where
  "list_del_entry h entry = list_del_between h (lprev (h entry)) (lnext (h entry))"

definition list_del :: "heap \<Rightarrow> addr \<Rightarrow> heap" where
  "list_del h entry =
     (let h = list_del_between h (lprev (h entry)) (lnext (h entry));
          h = set_next h entry LIST_POISON1
      in set_prev h entry LIST_POISON2)"

definition list_replace :: "heap \<Rightarrow> addr \<Rightarrow> addr \<Rightarrow> heap" where
  "list_replace h old new =
     (let h = set_next h new (lnext (h old));
          h = set_prev h (lnext (h new)) new;
          h = set_prev h new (lprev (h old))
      in set_next h (lprev (h new)) new)"

definition list_replace_init :: "heap \<Rightarrow> addr \<Rightarrow> addr \<Rightarrow> heap" where
  "list_replace_init h old new = INIT_LIST_HEAD (list_replace h old new) old"

definition list_del_init :: "heap \<Rightarrow> addr \<Rightarrow> heap" where
  "list_del_init h entry = INIT_LIST_HEAD (list_del_entry h entry) entry"

definition list_move :: "heap \<Rightarrow> addr \<Rightarrow> addr \<Rightarrow> heap" where
  "list_move h entry head = list_add (list_del_entry h entry) entry head"

definition list_move_tail :: "heap \<Rightarrow> addr \<Rightarrow> addr \<Rightarrow> heap" where
  "list_move_tail h entry head = list_add_tail (list_del_entry h entry) entry head"

definition list_is_last :: "heap \<Rightarrow> addr \<Rightarrow> addr \<Rightarrow> bool" where
  "list_is_last h entry head \<longleftrightarrow> lnext (h entry) = head"

definition list_empty :: "heap \<Rightarrow> addr \<Rightarrow> bool" where
  "list_empty h head \<longleftrightarrow> lnext (h head) = head"

definition list_empty_careful :: "heap \<Rightarrow> addr \<Rightarrow> bool" where
  "list_empty_careful h head \<longleftrightarrow> (let nxt = lnext (h head) in nxt = head \<and> nxt = lprev (h head))"

definition list_rotate_left :: "heap \<Rightarrow> addr \<Rightarrow> heap" where
  "list_rotate_left h head =
     (if \<not> list_empty h head
      then let first = lnext (h head) in list_move_tail h first head
      else h)"

definition list_is_singular :: "heap \<Rightarrow> addr \<Rightarrow> bool" where
  "list_is_singular h head \<longleftrightarrow> \<not> list_empty h head \<and> lnext (h head) = lprev (h head)"

definition list_cut_position_between :: "heap \<Rightarrow> addr \<Rightarrow> addr \<Rightarrow> addr \<Rightarrow> heap" where
  "list_cut_position_between h lst head entry =
     (let new_first = lnext (h entry);
          h = set_next h lst (lnext (h head));
          h = set_prev h (lnext (h lst)) lst;
          h = set_prev h lst entry;
          h = set_next h entry lst;
          h = set_next h head new_first
      in set_prev h new_first head)"

definition list_cut_position :: "heap \<Rightarrow> addr \<Rightarrow> addr \<Rightarrow> addr \<Rightarrow> heap" where
  "list_cut_position h lst head entry =
     (if list_empty h head then h
      else if list_is_singular h head \<and> lnext (h head) \<noteq> entry \<and> head \<noteq> entry then h
      else if entry = head then INIT_LIST_HEAD h lst
      else list_cut_position_between h lst head entry)"

definition list_splice_between :: "heap \<Rightarrow> addr \<Rightarrow> addr \<Rightarrow> addr \<Rightarrow> heap" where
  "list_splice_between h lst prev nxt =
     (let first = lnext (h lst);
          last = lprev (h lst);
          h = set_prev h first prev;
          h = set_next h prev first;
          h = set_next h last nxt
      in set_prev h nxt last)"

definition list_splice :: "heap \<Rightarrow> addr \<Rightarrow> addr \<Rightarrow> heap" where
  "list_splice h lst head =
     (if \<not> list_empty h lst then list_splice_between h lst head (lnext (h head)) else h)"

definition list_splice_tail :: "heap \<Rightarrow> addr \<Rightarrow> addr \<Rightarrow> heap" where
  "list_splice_tail h lst head =
     (if \<not> list_empty h lst then list_splice_between h lst (lprev (h head)) head else h)"

definition list_splice_init :: "heap \<Rightarrow> addr \<Rightarrow> addr \<Rightarrow> heap" where
  "list_splice_init h lst head =
     (if \<not> list_empty h lst
      then INIT_LIST_HEAD (list_splice_between h lst head (lnext (h head))) lst else h)"

definition list_splice_tail_init :: "heap \<Rightarrow> addr \<Rightarrow> addr \<Rightarrow> heap" where
  "list_splice_tail_init h lst head =
     (if \<not> list_empty h lst
      then INIT_LIST_HEAD (list_splice_between h lst (lprev (h head)) head) lst else h)"

definition list_first_entry :: "heap \<Rightarrow> addr \<Rightarrow> addr" where
  "list_first_entry h head = lnext (h head)"

section \<open>What a well-formed list is\<close>

text \<open>
  \<open>links h (a # b # \<dots>)\<close>: each address points forward to the next one and is pointed back to by
  it.  A list is well formed when the cycle from the head through the entries and back is linked
  and no address occurs twice on it.
\<close>

fun links :: "heap \<Rightarrow> addr list \<Rightarrow> bool" where
  "links h (a # b # xs) \<longleftrightarrow> lnext (h a) = b \<and> lprev (h b) = a \<and> links h (b # xs)"
| "links h _ \<longleftrightarrow> True"

definition dlist :: "heap \<Rightarrow> addr \<Rightarrow> addr list \<Rightarrow> bool" where
  "dlist h r xs \<longleftrightarrow> distinct (r # xs) \<and> links h (r # xs @ [r])"

lemma links_append:
  "links h (xs @ a # ys) \<longleftrightarrow> links h (xs @ [a]) \<and> links h (a # ys)"
proof (induction xs)
  case Nil
  then show ?case by simp
next
  case (Cons x xs)
  then show ?case by (cases xs) auto
qed

lemma links_left: "links h (xs @ a # ys) \<Longrightarrow> links h (xs @ [a])"
  using links_append [of h xs a ys] by blast

lemma links_right: "links h (xs @ a # ys) \<Longrightarrow> links h (a # ys)"
  using links_append [of h xs a ys] by blast

lemma links_join: "links h (xs @ [a]) \<Longrightarrow> links h (a # ys) \<Longrightarrow> links h (xs @ a # ys)"
  using links_append [of h xs a ys] by blast

text \<open>A segment only reads the forward pointers of all but its last address, and the backward
  pointers of all but its first.\<close>

lemma links_cong:
  assumes "\<And>a. a \<in> set (butlast xs) \<Longrightarrow> lnext (h' a) = lnext (h a)"
    and "\<And>a. a \<in> set (tl xs) \<Longrightarrow> lprev (h' a) = lprev (h a)"
  shows "links h' xs = links h xs"
  using assms
proof (induction h xs rule: links.induct)
  case (1 h a b xs)
  then show ?case by (cases xs) auto
qed auto

lemma dlist_frame:
  assumes "\<And>a. a \<in> set (r # xs) \<Longrightarrow> h' a = h a"
  shows "dlist h' r xs = dlist h r xs"
proof -
  have "links h' (r # xs @ [r]) = links h (r # xs @ [r])"
    by (rule links_cong) (auto simp: assms butlast_append)
  then show ?thesis by (simp add: dlist_def)
qed

lemma dlist_first: "dlist h r xs \<Longrightarrow> lnext (h r) = hd (xs @ [r])"
  by (cases xs) (auto simp: dlist_def)

lemma dlist_last: "dlist h r xs \<Longrightarrow> lprev (h r) = last (r # xs)"
proof (cases xs rule: rev_cases)
  case Nil
  assume "dlist h r xs"
  with Nil show ?thesis by (simp add: dlist_def)
next
  case (snoc ys y)
  assume "dlist h r xs"
  with snoc have "links h ((r # ys) @ y # [r])" by (simp add: dlist_def)
  then have "links h (y # [r])" by (rule links_right)
  with snoc show ?thesis by simp
qed

text \<open>Both neighbours of an entry, wherever it stands.\<close>

lemma dlist_neighbours:
  assumes "dlist h r (xs @ e # ys)"
  shows "lprev (h e) = last (r # xs)" and "lnext (h e) = hd (ys @ [r])"
proof -
  have lk: "links h ((r # xs) @ e # ys @ [r])" using assms by (simp add: dlist_def)
  then have "links h (e # ys @ [r])" by (rule links_right)
  then show "lnext (h e) = hd (ys @ [r])" by (cases ys) auto
  from lk have l: "links h ((r # xs) @ [e])" by (rule links_left)
  obtain us u where us: "r # xs = us @ [u]" by (cases "r # xs" rule: rev_cases) auto
  with l have "links h (us @ u # [e])" by simp
  then have "links h (u # [e])" by (rule links_right)
  with us show "lprev (h e) = last (r # xs)" by simp
qed

lemma dlist_unique:
  assumes "dlist h r xs" and "dlist h r ys"
  shows "xs = ys"
proof -
  have gen: "links h (a # us @ [r]) \<Longrightarrow> links h (a # vs @ [r]) \<Longrightarrow>
      r \<notin> set us \<Longrightarrow> r \<notin> set vs \<Longrightarrow> us = vs" for a us vs
  proof (induction us arbitrary: a vs)
    case Nil
    then show ?case by (cases vs) auto
  next
    case (Cons u us)
    then show ?case by (cases vs) auto
  qed
  show ?thesis by (rule gen [of r]) (use assms in \<open>auto simp: dlist_def\<close>)
qed

section \<open>Each operation on well-formed lists\<close>

text \<open>
  The two pointer-level routines first.  A list is cut at a position into \<open>r # xs = us @ [p]\<close> and
  \<open>ys @ [r] = n # vs\<close>: \<open>p\<close> and \<open>n\<close> are the neighbours the routine is called with.
\<close>

lemma cut_ends:
  obtains us p n vs where "r # xs = us @ [p]" "last (r # xs) = p"
    "ys @ [r] = n # vs" "hd (ys @ [r]) = n"
proof -
  obtain us p where 1: "r # xs = us @ [p]" by (cases "r # xs" rule: rev_cases) auto
  obtain n vs where 2: "ys @ [r] = n # vs" by (cases ys) auto
  show thesis by (rule that [OF 1 _ 2]) (simp_all only: 1 2 last_snoc list.sel)
qed

lemma cut_facts:
  assumes "distinct (r # xs @ ys)" and "r # xs = us @ [p]" and "ys @ [r] = n # vs"
  shows "p \<notin> set us" and "n \<notin> set vs" and "p \<notin> set (butlast (n # vs))"
    and "n \<notin> set (tl (us @ [p]))" and "set us \<subseteq> set (r # xs)" and "set (n # vs) = set (r # ys)"
    and "p \<in> set (r # xs)"
proof -
  have d1: "distinct (us @ [p])" unfolding assms(2) [symmetric] using assms(1) by simp
  have d2: "distinct (n # vs)" unfolding assms(3) [symmetric] using assms(1) by simp
  show "p \<notin> set us" and "n \<notin> set vs" using d1 d2 by simp_all
  have ps: "set (r # xs) = set (us @ [p])" by (simp only: assms(2))
  show "set us \<subseteq> set (r # xs)" and "p \<in> set (r # xs)" using ps by auto
  show ns: "set (n # vs) = set (r # ys)"
    unfolding assms(3) [symmetric] by auto
  show "p \<notin> set (butlast (n # vs))"
    unfolding assms(3) [symmetric] using assms(1) \<open>p \<in> set (r # xs)\<close> by auto
  show "n \<notin> set (tl (us @ [p]))"
    unfolding assms(2) [symmetric] using assms(1) ns by auto
qed

lemma dlist_add_between:
  assumes d: "dlist h r (xs @ ys)" and new: "new \<notin> set (r # xs @ ys)"
  shows "dlist (list_add_between h new (last (r # xs)) (hd (ys @ [r]))) r (xs @ new # ys)"
proof -
  obtain us p n vs where c: "r # xs = us @ [p]" "last (r # xs) = p"
      "ys @ [r] = n # vs" "hd (ys @ [r]) = n" by (rule cut_ends)
  let ?h = "list_add_between h new p n"
  have dist: "distinct (r # xs @ ys)" using d by (simp add: dlist_def)
  note f = cut_facts [OF dist c(1) c(3)]
  have "links h ((r # xs) @ (ys @ [r]))" using d by (simp add: dlist_def)
  then have l: "links h (us @ p # n # vs)" unfolding c(1) c(3) by simp
  then have lu: "links h (us @ [p])" by (rule links_left)
  have lv: "links h (n # vs)" using links_right [OF l] by simp
  have out: "new \<notin> set (us @ [p])" "new \<notin> set (n # vs)"
    using new f(5,6,7) unfolding f(6) by auto
  have tails: "new \<notin> set (tl (us @ [p]))" "new \<notin> set (butlast (n # vs))"
    using out by (cases us; auto) (use out in \<open>blast dest: in_set_butlastD\<close>)
  have "links ?h (us @ [p]) = links h (us @ [p])"
    by (rule links_cong) (use f out tails in \<open>auto simp: list_add_between_def Let_def\<close>)
  moreover have "links ?h (n # vs) = links h (n # vs)"
    by (rule links_cong) (use f out tails in \<open>auto simp: list_add_between_def Let_def\<close>)
  ultimately have "links ?h (us @ [p])" and "links ?h (n # vs)" using lu lv by simp_all
  moreover have "links ?h (p # new # n # vs)"
    using \<open>links ?h (n # vs)\<close> out by (auto simp: list_add_between_def Let_def)
  ultimately have "links ?h (us @ p # new # n # vs)" by (blast intro: links_join)
  moreover have "us @ p # new # n # vs = r # xs @ new # ys @ [r]"
  proof -
    have "us @ p # new # n # vs = (us @ [p]) @ new # (n # vs)" by simp
    also have "\<dots> = (r # xs) @ new # (ys @ [r])" by (simp only: c)
    finally show ?thesis by simp
  qed
  ultimately have "links ?h (r # xs @ new # ys @ [r])" by simp
  then show ?thesis using dist new c(2,4) by (simp add: dlist_def)
qed

lemma dlist_del_between:
  assumes d: "dlist h r (xs @ e # ys)"
  shows "dlist (list_del_between h (last (r # xs)) (hd (ys @ [r]))) r (xs @ ys)"
proof -
  obtain us p n vs where c: "r # xs = us @ [p]" "last (r # xs) = p"
      "ys @ [r] = n # vs" "hd (ys @ [r]) = n" by (rule cut_ends)
  let ?h = "list_del_between h p n"
  have dist: "distinct (r # xs @ ys)" using d by (auto simp: dlist_def)
  note f = cut_facts [OF dist c(1) c(3)]
  have "links h ((r # xs) @ e # (ys @ [r]))" using d by (simp add: dlist_def)
  then have l: "links h (us @ p # e # n # vs)" unfolding c(1) c(3) by simp
  then have lu: "links h (us @ [p])" by (rule links_left)
  have lv: "links h (n # vs)" using links_right [OF l] by simp
  have "links ?h (us @ [p]) = links h (us @ [p])"
    by (rule links_cong) (use f in \<open>auto simp: list_del_between_def Let_def\<close>)
  moreover have "links ?h (n # vs) = links h (n # vs)"
    by (rule links_cong) (use f in \<open>auto simp: list_del_between_def Let_def\<close>)
  ultimately have "links ?h (us @ [p])" and "links ?h (n # vs)" using lu lv by simp_all
  moreover have "links ?h (p # n # vs)"
    using \<open>links ?h (n # vs)\<close> by (simp add: list_del_between_def Let_def)
  ultimately have "links ?h (us @ p # n # vs)" by (blast intro: links_join)
  moreover have "us @ p # n # vs = r # xs @ ys @ [r]"
  proof -
    have "us @ p # n # vs = (us @ [p]) @ (n # vs)" by simp
    also have "\<dots> = (r # xs) @ (ys @ [r])" by (simp only: c)
    finally show ?thesis by simp
  qed
  ultimately have "links ?h (r # xs @ ys @ [r])" by simp
  then show ?thesis using dist c(2,4) by (simp add: dlist_def)
qed

text \<open>What the two routines write: the neighbours, and the entry that is added.\<close>

lemma list_add_between_frame [frame_simps]:
  "a \<noteq> new \<Longrightarrow> a \<noteq> p \<Longrightarrow> a \<noteq> n \<Longrightarrow> list_add_between h new p n a = h a"
  by (simp add: list_add_between_def Let_def frame_simps)

lemma list_del_between_frame [frame_simps]:
  "a \<noteq> p \<Longrightarrow> a \<noteq> n \<Longrightarrow> list_del_between h p n a = h a"
  by (simp add: list_del_between_def Let_def frame_simps)

lemma INIT_LIST_HEAD_frame [frame_simps]: "a \<noteq> lst \<Longrightarrow> INIT_LIST_HEAD h lst a = h a"
  by (simp add: INIT_LIST_HEAD_def Let_def frame_simps)

lemma dlist_INIT: "dlist (INIT_LIST_HEAD h r) r []"
  by (simp add: dlist_def INIT_LIST_HEAD_def Let_def)

lemma dlist_INIT_other:
  "lst \<notin> set (r # xs) \<Longrightarrow> dlist h r xs \<Longrightarrow> dlist (INIT_LIST_HEAD h lst) r xs"
  by (subst dlist_frame) (auto intro!: INIT_LIST_HEAD_frame)

lemma dlist_list_add:
  "dlist h r xs \<Longrightarrow> new \<notin> set (r # xs) \<Longrightarrow> dlist (list_add h new r) r (new # xs)"
  using dlist_add_between [of h r "[]" xs new] by (simp add: list_add_def dlist_first)

lemma dlist_list_add_tail:
  "dlist h r xs \<Longrightarrow> new \<notin> set (r # xs) \<Longrightarrow> dlist (list_add_tail h new r) r (xs @ [new])"
  using dlist_add_between [of h r xs "[]" new] by (simp add: list_add_tail_def dlist_last)

lemma dlist_first_in: "dlist h r xs \<Longrightarrow> lnext (h r) \<in> set (r # xs)"
  by (cases xs) (auto simp: dlist_first)

lemma dlist_last_in: "dlist h r xs \<Longrightarrow> lprev (h r) \<in> set (r # xs)"
  by (cases xs rule: rev_cases) (auto simp: dlist_last)

lemma list_add_frame:
  "dlist h r xs \<Longrightarrow> a \<notin> set (new # r # xs) \<Longrightarrow> list_add h new r a = h a"
  using dlist_first_in [of h r xs] by (auto simp: list_add_def intro!: list_add_between_frame)

lemma list_add_tail_frame:
  "dlist h r xs \<Longrightarrow> a \<notin> set (new # r # xs) \<Longrightarrow> list_add_tail h new r a = h a"
  using dlist_last_in [of h r xs] by (auto simp: list_add_tail_def intro!: list_add_between_frame)

lemma dlist_del_entry:
  "dlist h r (xs @ e # ys) \<Longrightarrow> dlist (list_del_entry h e) r (xs @ ys)"
  using dlist_del_between [of h r xs e ys]
  by (simp add: list_del_entry_def dlist_neighbours)

lemma list_del_entry_frame:
  assumes "dlist h r (xs @ e # ys)" and "a \<notin> set (r # xs @ e # ys)"
  shows "list_del_entry h e a = h a"
proof -
  have "last (r # xs) \<in> set (r # xs)" by (rule last_in_set) simp
  moreover have "hd (ys @ [r]) \<in> set (ys @ [r])" by (rule hd_in_set) simp
  ultimately have "a \<noteq> last (r # xs)" and "a \<noteq> hd (ys @ [r])" using assms(2) by auto
  then show ?thesis
    using assms(1) by (simp add: list_del_entry_def dlist_neighbours frame_simps)
qed

lemma list_del_alt:
  "list_del h e = set_prev (set_next (list_del_entry h e) e LIST_POISON1) e LIST_POISON2"
  by (simp add: list_del_def list_del_entry_def Let_def)

lemma dlist_list_del:
  assumes "dlist h r (xs @ e # ys)"
  shows "dlist (list_del h e) r (xs @ ys)"
proof -
  have "list_del h e a = list_del_entry h e a" if "a \<in> set (r # xs @ ys)" for a
  proof -
    have "a \<noteq> e" using assms that by (auto simp: dlist_def)
    then show ?thesis by (simp add: list_del_alt frame_simps)
  qed
  then have "dlist (list_del h e) r (xs @ ys) = dlist (list_del_entry h e) r (xs @ ys)"
    by (rule dlist_frame)
  with dlist_del_entry [OF assms] show ?thesis by simp
qed

lemma list_del_frame:
  "dlist h r (xs @ e # ys) \<Longrightarrow> a \<notin> set (r # xs @ e # ys) \<Longrightarrow> list_del h e a = h a"
  by (simp add: list_del_alt frame_simps list_del_entry_frame)

text \<open>The tests.\<close>

lemma list_empty_iff: "dlist h r xs \<Longrightarrow> list_empty h r \<longleftrightarrow> xs = []"
  by (cases xs) (auto simp: list_empty_def dlist_first dlist_def)

lemma list_empty_careful_iff: "dlist h r xs \<Longrightarrow> list_empty_careful h r \<longleftrightarrow> xs = []"
  by (cases xs) (auto simp: list_empty_careful_def dlist_first dlist_last dlist_def)

lemma list_first_entry_hd: "dlist h r (x # xs) \<Longrightarrow> list_first_entry h r = x"
  by (simp add: list_first_entry_def dlist_first)

lemma list_is_last_iff:
  assumes "dlist h r (xs @ e # ys)"
  shows "list_is_last h e r \<longleftrightarrow> ys = []"
  using assms dlist_neighbours(2) [OF assms]
  by (cases ys) (auto simp: list_is_last_def dlist_def)

lemma list_is_singular_iff:
  assumes "dlist h r xs"
  shows "list_is_singular h r \<longleftrightarrow> length xs = 1"
proof (cases xs)
  case Nil
  with assms show ?thesis by (simp add: list_is_singular_def list_empty_iff)
next
  case (Cons y ys)
  have "y \<notin> set ys" using assms Cons by (simp add: dlist_def)
  then have y: "last (y # ys) = y \<longleftrightarrow> ys = []" using last_in_set [of ys] by auto
  have "lnext (h r) = y" and "lprev (h r) = last (y # ys)"
    using assms Cons by (simp_all add: dlist_first dlist_last)
  with assms Cons y show ?thesis
    by (auto simp: list_is_singular_def list_empty_iff)
qed

text \<open>Moves, within one list and between two.\<close>

lemma dlist_move_within:
  "dlist h r (xs @ e # ys) \<Longrightarrow> dlist (list_move h e r) r (e # xs @ ys)"
  unfolding list_move_def
  by (intro dlist_list_add dlist_del_entry) (auto simp: dlist_def)

lemma dlist_move_tail_within:
  assumes "dlist h r (xs @ e # ys)"
  shows "dlist (list_move_tail h e r) r (xs @ ys @ [e])"
proof -
  have "dlist (list_del_entry h e) r (xs @ ys)" using assms by (rule dlist_del_entry)
  moreover have "e \<notin> set (r # xs @ ys)" using assms by (auto simp: dlist_def)
  ultimately show ?thesis
    using dlist_list_add_tail [of _ r "xs @ ys" e] by (simp add: list_move_tail_def)
qed

lemma dlist_rotate_left:
  "dlist h r xs \<Longrightarrow> dlist (list_rotate_left h r) r (rotate1 xs)"
  using dlist_move_tail_within [of h r "[]"]
  by (cases xs) (auto simp: list_rotate_left_def list_empty_iff dlist_first Let_def)

text \<open>Two lists with no address in common: what is done to one leaves the other alone.\<close>

definition apart :: "'a \<Rightarrow> 'a list \<Rightarrow> 'a \<Rightarrow> 'a list \<Rightarrow> bool" where
  "apart r xs q ys \<longleftrightarrow> set (r # xs) \<inter> set (q # ys) = {}"

lemma apart_sym: "apart r xs q ys \<longleftrightarrow> apart q ys r xs"
  by (auto simp: apart_def)

lemma dlist_list_del_other:
  assumes "dlist h r (xs @ e # ys)" and "dlist h q zs" and "apart r (xs @ e # ys) q zs"
  shows "dlist (list_del h e) q zs"
proof -
  have "list_del h e a = h a" if "a \<in> set (q # zs)" for a
    using assms that by (intro list_del_frame) (auto simp: apart_def)
  with assms(2) dlist_frame [of q zs "list_del h e" h] show ?thesis by blast
qed

lemma dlist_del_entry_other:
  assumes "dlist h r (xs @ e # ys)" and "dlist h q zs" and "apart r (xs @ e # ys) q zs"
  shows "dlist (list_del_entry h e) q zs"
proof -
  have "list_del_entry h e a = h a" if "a \<in> set (q # zs)" for a
    using assms that by (intro list_del_entry_frame) (auto simp: apart_def)
  with assms(2) dlist_frame [of q zs "list_del_entry h e" h] show ?thesis by blast
qed

lemma dlist_list_add_other:
  assumes "dlist h r xs" and "dlist h q zs" and "apart r (new # xs) q zs"
  shows "dlist (list_add h new r) q zs"
proof -
  have "list_add h new r a = h a" if "a \<in> set (q # zs)" for a
    using assms that by (intro list_add_frame) (auto simp: apart_def)
  with assms(2) dlist_frame [of q zs "list_add h new r" h] show ?thesis by blast
qed

lemma dlist_move_across:
  assumes "dlist h r (xs @ e # ys)" and "dlist h q zs" and "apart r (xs @ e # ys) q zs"
  shows "dlist (list_move h e q) r (xs @ ys)" and "dlist (list_move h e q) q (e # zs)"
proof -
  have 1: "dlist (list_del_entry h e) r (xs @ ys)" using assms(1) by (rule dlist_del_entry)
  have 2: "dlist (list_del_entry h e) q zs" using assms by (rule dlist_del_entry_other)
  show "dlist (list_move h e q) q (e # zs)"
    unfolding list_move_def
    by (rule dlist_list_add [OF 2]) (use assms(3) in \<open>auto simp: apart_def\<close>)
  have "e \<notin> set (r # xs @ ys)" using assms(1) by (auto simp: dlist_def)
  then show "dlist (list_move h e q) r (xs @ ys)"
    unfolding list_move_def
    by (intro dlist_list_add_other [OF 2 1]) (use assms(3) in \<open>auto simp: apart_def\<close>)
qed

text \<open>Replacing an entry by one that is on no list.\<close>

lemma dlist_replace:
  assumes d: "dlist h r (xs @ old # ys)" and new: "new \<notin> set (r # xs @ old # ys)"
  shows "dlist (list_replace h old new) r (xs @ new # ys)"
proof -
  let ?p = "last (r # xs)" and ?n = "hd (ys @ [r])"
  have nb: "lprev (h old) = ?p" "lnext (h old) = ?n" using d by (rule dlist_neighbours)+
  have p: "?p \<in> set (r # xs)" by (rule last_in_set) simp
  have n: "?n \<in> set (ys @ [r])" by (rule hd_in_set) simp
  have old: "old \<notin> set (r # xs @ ys)" using d by (auto simp: dlist_def)
  have ne: "new \<noteq> ?p" "new \<noteq> ?n" "old \<noteq> ?p" "old \<noteq> ?n" "new \<noteq> old"
    using p n new old by auto
  have same: "list_replace h old new a
      = list_add_between (list_del_between h ?p ?n) new ?p ?n a" if "a \<noteq> old" for a
    using ne nb that
    by (auto simp: list_replace_def list_add_between_def list_del_between_def Let_def
        set_next_def set_prev_def)
  have "dlist (list_del_between h ?p ?n) r (xs @ ys)" using d by (rule dlist_del_between)
  then have "dlist (list_add_between (list_del_between h ?p ?n) new ?p ?n) r (xs @ new # ys)"
    by (rule dlist_add_between) (use new in auto)
  moreover have "list_replace h old new a
      = list_add_between (list_del_between h ?p ?n) new ?p ?n a" if "a \<in> set (r # xs @ new # ys)" for a
    using that old ne(5) by (intro same) auto
  ultimately show ?thesis using dlist_frame by blast
qed

text \<open>Joining two lists: the entries of the first go between two neighbours of the second.\<close>

lemma links_inner: "links h (us @ xs @ vs) \<Longrightarrow> links h xs"
proof (induction us)
  case Nil
  then show ?case
  proof (induction h xs rule: links.induct)
    case (1 h a b xs)
    then show ?case by simp
  qed auto
next
  case (Cons u us)
  then show ?case by (cases "us @ xs @ vs") auto
qed

lemma dlist_splice_between:
  assumes dx: "dlist h q xs" and dy: "dlist h r (as @ bs)" and ap: "apart q xs r (as @ bs)"
    and ne: "xs \<noteq> []"
  shows "dlist (list_splice_between h q (last (r # as)) (hd (bs @ [r]))) r (as @ xs @ bs)"
proof -
  obtain us p n vs where c: "r # as = us @ [p]" "last (r # as) = p"
      "bs @ [r] = n # vs" "hd (bs @ [r]) = n" by (rule cut_ends)
  let ?h = "list_splice_between h q p n"
  obtain x xs' where x: "xs = x # xs'" using ne by (cases xs) auto
  obtain zs z where z: "xs = zs @ [z]" using ne by (cases xs rule: rev_cases) auto
  have qn: "lnext (h q) = x" using dx x by (simp add: dlist_first)
  have qp: "lprev (h q) = z" using dx z dlist_last [OF dx] by simp
  have dist: "distinct (r # as @ bs)" using dy by (simp add: dlist_def)
  have dxs: "distinct xs" using dx by (simp add: dlist_def)
  note f = cut_facts [OF dist c(1) c(3)]
  have px: "p \<notin> set xs" and nx: "n \<notin> set xs"
    using ap f(6,7) by (auto simp: apart_def)
  have xy: "set xs \<inter> set (us @ [p]) = {}" "set xs \<inter> set (n # vs) = {}"
    using ap f(5,6,7) by (auto simp: apart_def)
  have sx: "x \<in> set xs" "x \<notin> set (tl xs)" using x dxs by simp_all
  have sz: "z \<in> set xs" "z \<notin> set (butlast xs)" using z dxs by simp_all
  have out: "x \<notin> set (us @ [p])" "z \<notin> set (us @ [p])" "x \<notin> set (n # vs)" "z \<notin> set (n # vs)"
    using xy sx(1) sz(1) by blast+
  have tails: "x \<notin> set (tl (us @ [p]))" "z \<notin> set (butlast (n # vs))"
    using out by (cases us; auto) (use out in \<open>blast dest: in_set_butlastD\<close>)
  have "links h ((r # as) @ (bs @ [r]))" using dy by (simp add: dlist_def)
  then have l: "links h (us @ p # n # vs)" unfolding c(1) c(3) by simp
  have "links ?h (us @ [p]) = links h (us @ [p])"
    by (rule links_cong) (use f out tails in \<open>auto simp: list_splice_between_def Let_def qn qp\<close>)
  then have lu: "links ?h (us @ [p])" using links_left [OF l] by simp
  have "links ?h (n # vs) = links h (n # vs)"
    by (rule links_cong) (use f out tails in \<open>auto simp: list_splice_between_def Let_def qn qp\<close>)
  then have lv: "links ?h (n # vs)" using links_right [OF l] by simp
  have "links h ([q] @ xs @ [q])" using dx by (simp add: dlist_def)
  then have "links h xs" by (rule links_inner)
  moreover have "links ?h xs = links h xs"
    by (rule links_cong) (use px nx sx sz in \<open>auto simp: list_splice_between_def Let_def qn qp
        dest: in_set_butlastD intro: list.set_sel(2)\<close>)
  ultimately have lx: "links ?h (zs @ [z])" using z by simp
  have "links ?h (z # n # vs)"
    using lv sx sz px out by (auto simp: list_splice_between_def Let_def qn qp)
  with lx have "links ?h (zs @ z # n # vs)" by (rule links_join)
  moreover have "zs @ z # n # vs = xs @ n # vs" using z by simp
  ultimately have "links ?h (x # xs' @ n # vs)" using x by simp
  moreover have "lnext (?h p) = x" and "lprev (?h x) = p"
    using sx(1) sz(1) nx px by (auto simp: list_splice_between_def Let_def qn qp)
  ultimately have "links ?h (p # x # xs' @ n # vs)" by simp
  with lu have "links ?h (us @ p # x # xs' @ n # vs)" by (rule links_join)
  moreover have "us @ p # x # xs' @ n # vs = (r # as) @ xs @ (bs @ [r])"
    unfolding c(1) c(3) x by simp
  ultimately have "links ?h (r # (as @ xs @ bs) @ [r])" by simp
  moreover have "distinct (r # as @ xs @ bs)"
    using dist dxs ap by (auto simp: apart_def)
  ultimately show ?thesis unfolding c(2) c(4) by (simp add: dlist_def)
qed

lemma dlist_splice:
  assumes "dlist h q xs" and "dlist h r ys" and "apart q xs r ys"
  shows "dlist (list_splice h q r) r (xs @ ys)"
proof (cases "xs = []")
  case True
  with assms show ?thesis by (simp add: list_splice_def list_empty_iff)
next
  case False
  with assms dlist_splice_between [of h q xs r "[]" ys] show ?thesis
    by (simp add: list_splice_def list_empty_iff dlist_first)
qed

lemma dlist_splice_tail:
  assumes "dlist h q xs" and "dlist h r ys" and "apart q xs r ys"
  shows "dlist (list_splice_tail h q r) r (ys @ xs)"
proof (cases "xs = []")
  case True
  with assms show ?thesis by (simp add: list_splice_tail_def list_empty_iff)
next
  case False
  with assms dlist_splice_between [of h q xs r ys "[]"] show ?thesis
    by (simp add: list_splice_tail_def list_empty_iff dlist_last)
qed

lemma list_splice_init_alt:
  "list_splice_init h q r = (if list_empty h q then h else INIT_LIST_HEAD (list_splice h q r) q)"
  and list_splice_tail_init_alt:
  "list_splice_tail_init h q r =
     (if list_empty h q then h else INIT_LIST_HEAD (list_splice_tail h q r) q)"
  by (simp_all add: list_splice_init_def list_splice_def list_splice_tail_init_def
      list_splice_tail_def)

lemma dlist_splice_init:
  assumes "dlist h q xs" and "dlist h r ys" and "apart q xs r ys"
  shows "dlist (list_splice_init h q r) r (xs @ ys)" and "dlist (list_splice_init h q r) q []"
    and "dlist (list_splice_tail_init h q r) r (ys @ xs)"
    and "dlist (list_splice_tail_init h q r) q []"
proof -
  have q: "q \<notin> set (r # xs @ ys)" "q \<notin> set (r # ys @ xs)"
    using assms by (auto simp: apart_def dlist_def)
  note sp = dlist_splice [OF assms] and spt = dlist_splice_tail [OF assms]
  show "dlist (list_splice_init h q r) r (xs @ ys)"
    using assms(1,2) dlist_INIT_other [OF q(1) sp]
    by (simp add: list_splice_init_alt list_empty_iff)
  show "dlist (list_splice_tail_init h q r) r (ys @ xs)"
    using assms(1,2) dlist_INIT_other [OF q(2) spt]
    by (simp add: list_splice_tail_init_alt list_empty_iff)
  show "dlist (list_splice_init h q r) q []" and "dlist (list_splice_tail_init h q r) q []"
    using assms(1)
    by (auto simp: list_splice_init_alt list_splice_tail_init_alt list_empty_iff intro: dlist_INIT)
qed

text \<open>Cutting a list after an entry.\<close>

text \<open>Cutting writes the four ends and leaves the inside of both parts as it was.\<close>

lemma cut_between_segments:
  assumes dist: "distinct (q # (xs @ [e]) @ ys @ [r])"
    and hr: "lnext (h r) = hd (xs @ [e])" and he: "lnext (h e) = hd (ys @ [r])"
  defines "h' \<equiv> list_cut_position_between h q r e"
  shows "links h' (xs @ [e]) = links h (xs @ [e])" and "links h' (ys @ [r]) = links h (ys @ [r])"
    and "links h' [e, q]" and "links h' [q, hd (xs @ [e])]" and "links h' [r, hd (ys @ [r])]"
proof -
  obtain x xs' where x: "xs @ [e] = x # xs'" by (cases xs) auto
  obtain n vs where n: "ys @ [r] = n # vs" by (cases ys) auto
  have xin: "x \<in> set (xs @ [e])" unfolding x by simp
  have nin: "n \<in> set (ys @ [r])" unfolding n by simp
  have dx: "distinct (x # xs')" using dist unfolding x [symmetric] by auto
  have dn: "distinct (n # vs)" using dist unfolding n [symmetric] by auto
  have ne: "q \<noteq> r" "q \<noteq> e" "q \<noteq> x" "q \<noteq> n" "r \<noteq> e" "r \<noteq> x" "x \<noteq> n" "e \<noteq> n"
    using dist xin nin by auto
  have out: "n \<notin> set (x # xs')" "x \<notin> set (n # vs)" "e \<notin> set (butlast (n # vs))"
      "e \<notin> set (butlast (x # xs'))" "r \<notin> set (butlast (n # vs))" "r \<notin> set (x # xs')"
      "q \<notin> set (x # xs')" "q \<notin> set (n # vs)"
    unfolding n [symmetric] x [symmetric] using nin xin dist by auto
  have inner: "q \<notin> set (butlast (x # xs'))" "q \<notin> set (butlast (n # vs))" "r \<notin> set (butlast (x # xs'))"
    using out by (blast dest: in_set_butlastD)+
  note defs = h'_def list_cut_position_between_def Let_def hr he x n
  show "links h' (xs @ [e]) = links h (xs @ [e])"
    unfolding x by (rule links_cong) (use ne out inner dx in \<open>auto simp: defs\<close>)
  show "links h' (ys @ [r]) = links h (ys @ [r])"
    unfolding n by (rule links_cong) (use ne out inner dn in \<open>auto simp: defs\<close>)
  show "links h' [e, q]" and "links h' [q, hd (xs @ [e])]" and "links h' [r, hd (ys @ [r])]"
    using ne by (auto simp: defs)
qed

lemma dlist_cut_position:
  assumes d: "dlist h r (xs @ e # ys)" and q: "q \<notin> set (r # xs @ e # ys)"
  shows "dlist (list_cut_position h q r e) q (xs @ [e])"
    and "dlist (list_cut_position h q r e) r ys"
proof -
  let ?h = "list_cut_position_between h q r e"
  have dist: "distinct (r # xs @ e # ys)" using d by (simp add: dlist_def)
  have hr: "lnext (h r) = hd (xs @ [e])" using dlist_first [OF d] by (cases xs) auto
  have he: "lnext (h e) = hd (ys @ [r])" using dlist_neighbours(2) [OF d] .
  have "distinct (q # (xs @ [e]) @ ys @ [r])" using dist q by auto
  note seg = cut_between_segments [OF this hr he]
  have cut: "list_cut_position h q r e = ?h"
  proof -
    have "r \<noteq> e" using dist by auto
    moreover have "list_is_singular h r \<Longrightarrow> lnext (h r) = e"
      using d hr by (auto simp: list_is_singular_iff)
    ultimately show ?thesis using d by (auto simp: list_cut_position_def list_empty_iff)
  qed
  have lnk: "links h ((r # xs) @ e # (ys @ [r]))" using d by (simp add: dlist_def)
  have "links h (r # (xs @ [e]))" using links_left [OF lnk] by simp
  then have "links h (xs @ [e])" by (cases xs) auto
  then have "links ?h (xs @ [e])" using seg(1) by simp
  from links_join [OF this seg(3)] have "links ?h (xs @ e # [q])" by simp
  with seg(4) have "links ?h (q # (xs @ [e]) @ [q])" by (cases xs) auto
  moreover have "distinct (q # xs @ [e])" using dist q by auto
  ultimately show "dlist (list_cut_position h q r e) q (xs @ [e])"
    unfolding cut dlist_def by blast
  have "links h (ys @ [r])" using links_right [OF lnk] by (cases ys) auto
  then have "links ?h (ys @ [r])" using seg(2) by simp
  with seg(5) have "links ?h (r # ys @ [r])" by (cases ys) auto
  then show "dlist (list_cut_position h q r e) r ys"
    using dist unfolding cut dlist_def by simp
qed

end
