(* ===== verification/Emloops.thy ===== *)
theory Emloops
  imports Emlist
begin

text \<open>
  The iteration macros of \<open>src/agent/emlist.h\<close> and the three loops the agent builds from them:
  the search that stops at the first hit, the flush that unlinks every entry, and the move of all
  entries of one list onto another.  A loop over a damaged list need not end, so every loop is a
  partial function and \<open>None\<close> is a loop that runs forever.
\<close>

section \<open>The macros\<close>

text \<open>\<open>list_for_each_entry\<close> with a body that leaves the loop at the first entry it accepts.\<close>

partial_function (option) search_from ::
    "('h \<Rightarrow> 'a \<Rightarrow> 'a) \<Rightarrow> ('a \<Rightarrow> bool) \<Rightarrow> 'h \<Rightarrow> 'a \<Rightarrow> 'a \<Rightarrow> 'a option option" where
  "search_from nxt P h head pos =
     (if pos = head then Some None
      else if P pos then Some (Some pos)
      else search_from nxt P h head (nxt h pos))"

text \<open>\<open>list_for_each_entry_safe\<close>: the successor is read before the body may unlink the entry.\<close>

partial_function (option) each_safe_from ::
    "('h \<Rightarrow> 'a \<Rightarrow> 'a) \<Rightarrow> ('a \<Rightarrow> 'h \<Rightarrow> 'h) \<Rightarrow> 'a \<Rightarrow> 'a \<Rightarrow> 'a \<Rightarrow> 'h \<Rightarrow> 'h option" where
  "each_safe_from nxt body head pos n h =
     (if pos = head then Some h
      else let h' = body pos h
           in each_safe_from nxt body head n (nxt h' n) h')"

text \<open>The entries a plain traversal visits, in its order.\<close>

partial_function (option) walk_from ::
    "('h \<Rightarrow> 'a \<Rightarrow> 'a) \<Rightarrow> 'h \<Rightarrow> 'a \<Rightarrow> 'a \<Rightarrow> 'a list \<Rightarrow> 'a list option" where
  "walk_from nxt h head pos acc =
     (if pos = head then Some acc else walk_from nxt h head (nxt h pos) (acc @ [pos]))"

definition fwd :: "heap \<Rightarrow> addr \<Rightarrow> addr" where "fwd h p = lnext (h p)"
definition bwd :: "heap \<Rightarrow> addr \<Rightarrow> addr" where "bwd h p = lprev (h p)"

definition list_for_each :: "heap \<Rightarrow> addr \<Rightarrow> addr list option" where
  "list_for_each h head = walk_from fwd h head (fwd h head) []"

definition list_for_each_prev :: "heap \<Rightarrow> addr \<Rightarrow> addr list option" where
  "list_for_each_prev h head = walk_from bwd h head (bwd h head) []"

definition list_for_each_entry :: "(addr \<Rightarrow> bool) \<Rightarrow> heap \<Rightarrow> addr \<Rightarrow> addr option option" where
  "list_for_each_entry P h head = search_from fwd P h head (fwd h head)"

definition list_for_each_entry_safe :: "(addr \<Rightarrow> heap \<Rightarrow> heap) \<Rightarrow> heap \<Rightarrow> addr \<Rightarrow> heap option" where
  "list_for_each_entry_safe body h head =
     (let pos = fwd h head; n = fwd h pos in each_safe_from fwd body head pos n h)"

text \<open>
  The other variants: over the pointers instead of the entries, backwards, and from or after a given
  entry.  Their bodies are as above: one that leaves at the first hit, or one that may unlink.
\<close>

definition list_for_each_safe :: "(addr \<Rightarrow> heap \<Rightarrow> heap) \<Rightarrow> heap \<Rightarrow> addr \<Rightarrow> heap option" where
  "list_for_each_safe body h head =
     (let pos = fwd h head; n = fwd h pos in each_safe_from fwd body head pos n h)"

definition list_for_each_prev_safe :: "(addr \<Rightarrow> heap \<Rightarrow> heap) \<Rightarrow> heap \<Rightarrow> addr \<Rightarrow> heap option" where
  "list_for_each_prev_safe body h head =
     (let pos = bwd h head; n = bwd h pos in each_safe_from bwd body head pos n h)"

definition list_for_each_entry_reverse :: "(addr \<Rightarrow> bool) \<Rightarrow> heap \<Rightarrow> addr \<Rightarrow> addr option option" where
  "list_for_each_entry_reverse P h head = search_from bwd P h head (bwd h head)"

definition list_prepare_entry :: "addr option \<Rightarrow> addr \<Rightarrow> addr" where
  "list_prepare_entry pos head = (case pos of Some p \<Rightarrow> p | None \<Rightarrow> head)"

definition list_for_each_entry_continue ::
    "(addr \<Rightarrow> bool) \<Rightarrow> heap \<Rightarrow> addr \<Rightarrow> addr \<Rightarrow> addr option option" where
  "list_for_each_entry_continue P h pos head = search_from fwd P h head (fwd h pos)"

definition list_for_each_entry_continue_reverse ::
    "(addr \<Rightarrow> bool) \<Rightarrow> heap \<Rightarrow> addr \<Rightarrow> addr \<Rightarrow> addr option option" where
  "list_for_each_entry_continue_reverse P h pos head = search_from bwd P h head (bwd h pos)"

definition list_for_each_entry_from ::
    "(addr \<Rightarrow> bool) \<Rightarrow> heap \<Rightarrow> addr \<Rightarrow> addr \<Rightarrow> addr option option" where
  "list_for_each_entry_from P h pos head = search_from fwd P h head pos"

definition list_for_each_entry_safe_continue ::
    "(addr \<Rightarrow> heap \<Rightarrow> heap) \<Rightarrow> heap \<Rightarrow> addr \<Rightarrow> addr \<Rightarrow> heap option" where
  "list_for_each_entry_safe_continue body h pos head =
     (let pos = fwd h pos; n = fwd h pos in each_safe_from fwd body head pos n h)"

definition list_for_each_entry_safe_from ::
    "(addr \<Rightarrow> heap \<Rightarrow> heap) \<Rightarrow> heap \<Rightarrow> addr \<Rightarrow> addr \<Rightarrow> heap option" where
  "list_for_each_entry_safe_from body h pos head =
     (let n = fwd h pos in each_safe_from fwd body head pos n h)"

definition list_for_each_entry_safe_reverse ::
    "(addr \<Rightarrow> heap \<Rightarrow> heap) \<Rightarrow> heap \<Rightarrow> addr \<Rightarrow> heap option" where
  "list_for_each_entry_safe_reverse body h head =
     (let pos = bwd h head; n = bwd h pos in each_safe_from bwd body head pos n h)"

definition list_safe_reset_next :: "heap \<Rightarrow> addr \<Rightarrow> addr" where
  "list_safe_reset_next h pos = fwd h pos"

section \<open>What the loops rely on\<close>

text \<open>
  The contract between the loops and the list routines: \<open>rep h r xs\<close> is the abstract content,
  \<open>nxt\<close> the successor the loops read, \<open>del\<close> and \<open>add\<close> the routines their bodies call.
\<close>

locale intrusive_list =
  fixes rep :: "'h \<Rightarrow> 'a \<Rightarrow> 'a list \<Rightarrow> bool"
    and nxt :: "'h \<Rightarrow> 'a \<Rightarrow> 'a"
    and add :: "'h \<Rightarrow> 'a \<Rightarrow> 'a \<Rightarrow> 'h"
    and del :: "'h \<Rightarrow> 'a \<Rightarrow> 'h"
  assumes rep_distinct: "rep h r xs \<Longrightarrow> distinct (r # xs)"
    and rep_first: "rep h r xs \<Longrightarrow> nxt h r = hd (xs @ [r])"
    and rep_nxt: "rep h r (xs @ e # ys) \<Longrightarrow> nxt h e = hd (ys @ [r])"
    and rep_del: "rep h r (xs @ e # ys) \<Longrightarrow> rep (del h e) r (xs @ ys)"
    and rep_del_other:
      "rep h r (xs @ e # ys) \<Longrightarrow> rep h q zs \<Longrightarrow> apart r (xs @ e # ys) q zs \<Longrightarrow> rep (del h e) q zs"
    and rep_add: "rep h r xs \<Longrightarrow> new \<notin> set (r # xs) \<Longrightarrow> rep (add h new r) r (new # xs)"
    and rep_add_other:
      "rep h r xs \<Longrightarrow> rep h q zs \<Longrightarrow> apart r (new # xs) q zs \<Longrightarrow> rep (add h new r) q zs"
begin

lemma walk_from_suffix:
  assumes "rep h r (us @ vs)"
  shows "walk_from nxt h r (hd (vs @ [r])) acc = Some (acc @ vs)"
  using assms
proof (induction vs arbitrary: us acc)
  case Nil
  show ?case by (subst walk_from.simps) simp
next
  case (Cons v vs)
  have "v \<noteq> r" using rep_distinct [OF Cons.prems] by auto
  moreover have "nxt h v = hd (vs @ [r])" using rep_nxt [OF Cons.prems] .
  moreover have "walk_from nxt h r (hd (vs @ [r])) (acc @ [v]) = Some ((acc @ [v]) @ vs)"
    using Cons.prems by (intro Cons.IH [of "us @ [v]"]) simp
  ultimately show ?case by (subst walk_from.simps) simp
qed

lemma walk: "rep h r xs \<Longrightarrow> walk_from nxt h r (nxt h r) [] = Some xs"
  using walk_from_suffix [of h r "[]" xs "[]"] by (simp add: rep_first)

lemma search_from_suffix:
  assumes "rep h r (us @ vs)"
  shows "search_from nxt P h r (hd (vs @ [r])) = Some (List.find P vs)"
  using assms
proof (induction vs arbitrary: us)
  case Nil
  show ?case by (subst search_from.simps) simp
next
  case (Cons v vs)
  have "v \<noteq> r" using rep_distinct [OF Cons.prems] by auto
  moreover have "nxt h v = hd (vs @ [r])" using rep_nxt [OF Cons.prems] .
  moreover have "search_from nxt P h r (hd (vs @ [r])) = Some (List.find P vs)"
    using Cons.prems by (intro Cons.IH [of "us @ [v]"]) simp
  ultimately show ?case by (subst search_from.simps) simp
qed

lemma search: "rep h r xs \<Longrightarrow> search_from nxt P h r (nxt h r) = Some (List.find P xs)"
  using search_from_suffix [of h r "[]" xs P] by (simp add: rep_first)

text \<open>Loops that begin after an entry, or at it.\<close>

lemma search_after: "rep h r (us @ p # vs) \<Longrightarrow> search_from nxt P h r (nxt h p) = Some (List.find P vs)"
  using search_from_suffix [of h r "us @ [p]" vs P] by (simp add: rep_nxt)

lemma search_at: "rep h r (us @ p # vs) \<Longrightarrow> search_from nxt P h r p = Some (List.find P (p # vs))"
  using search_from_suffix [of h r us "p # vs" P] by simp

text \<open>Unlinking the first hit of a search is \<open>delete_first\<close>.\<close>

lemma del_found:
  assumes "rep h r xs" and "List.find P xs = Some e"
  shows "rep (del h e) r (delete_first P xs)"
proof -
  obtain us vs where xs: "xs = us @ e # vs" and miss: "\<forall>u \<in> set us. \<not> P u" and hit: "P e"
    using assms(2) by (rule find_split)
  then have "delete_first P xs = us @ vs" by (simp add: delete_first_split)
  moreover have "rep (del h e) r (us @ vs)" using assms(1) unfolding xs by (rule rep_del)
  ultimately show ?thesis by simp
qed

text \<open>
  The flush: every entry from a point on is unlinked, those before it stay, and lists elsewhere keep
  their entries.
\<close>

lemma flush_from:
  assumes "rep h r (us @ xs)" and "n = nxt h (hd (xs @ [r]))"
  shows "\<exists>h'. each_safe_from nxt (\<lambda>p h. del h p) r (hd (xs @ [r])) n h = Some h' \<and> rep h' r us
      \<and> (\<forall>q zs. rep h q zs \<longrightarrow> apart r (us @ xs) q zs \<longrightarrow> rep h' q zs)"
  using assms
proof (induction xs arbitrary: h n)
  case Nil
  then show ?case by (subst each_safe_from.simps) simp
next
  case (Cons x xs)
  let ?h = "del h x"
  have x: "x \<noteq> r" using rep_distinct [OF Cons.prems(1)] by auto
  have n: "n = hd (xs @ [r])" using rep_nxt [OF Cons.prems(1)] Cons.prems(2) by simp
  have "rep ?h r (us @ xs)" using rep_del [OF Cons.prems(1)] .
  from Cons.IH [OF this refl] obtain h' where
    h': "each_safe_from nxt (\<lambda>p h. del h p) r (hd (xs @ [r])) (nxt ?h (hd (xs @ [r]))) ?h = Some h'"
      "rep h' r us" and keep: "\<And>q zs. rep ?h q zs \<Longrightarrow> apart r (us @ xs) q zs \<Longrightarrow> rep h' q zs"
    by blast
  have "rep h' q zs" if "rep h q zs" "apart r (us @ x # xs) q zs" for q zs
  proof (rule keep)
    show "rep ?h q zs" using rep_del_other [OF Cons.prems(1)] that by simp
    show "apart r (us @ xs) q zs" using that(2) by (auto simp: apart_def)
  qed
  then show ?case using h' x n by (subst each_safe_from.simps) (auto simp: Let_def)
qed

lemma flush:
  assumes "rep h r xs"
  shows "\<exists>h'. each_safe_from nxt (\<lambda>p h. del h p) r (nxt h r) (nxt h (nxt h r)) h = Some h'
      \<and> rep h' r [] \<and> (\<forall>q zs. rep h q zs \<longrightarrow> apart r xs q zs \<longrightarrow> rep h' q zs)"
  using flush_from [of h r "[]" xs, OF _ refl] assms by (simp add: rep_first [OF assms])

lemma flush_after:
  assumes "rep h r (us @ p # vs)"
  shows "\<exists>h'. each_safe_from nxt (\<lambda>p h. del h p) r (nxt h p) (nxt h (nxt h p)) h = Some h'
      \<and> rep h' r (us @ [p])"
  using flush_from [of h r "us @ [p]" vs, OF _ refl] assms by (auto simp: rep_nxt)

lemma flush_at:
  assumes "rep h r (us @ p # vs)"
  shows "\<exists>h'. each_safe_from nxt (\<lambda>p h. del h p) r p (nxt h p) h = Some h' \<and> rep h' r us"
  using flush_from [of h r us "p # vs", OF _ refl] assms by auto

text \<open>The move: the entries arrive on the other list in reverse, in front of what is there.\<close>

lemma move_all_from:
  assumes "rep h r xs" and "rep h q ys" and "apart r xs q ys" and "n = nxt h (hd (xs @ [r]))"
  shows "\<exists>h'. each_safe_from nxt (\<lambda>p h. add (del h p) p q) r (hd (xs @ [r])) n h = Some h'
      \<and> rep h' r [] \<and> rep h' q (rev xs @ ys)"
  using assms
proof (induction xs arbitrary: h n ys)
  case Nil
  then show ?case by (subst each_safe_from.simps) simp
next
  case (Cons x xs)
  let ?d = "del h x" and ?h = "add (del h x) x q"
  have dist: "distinct (r # x # xs)" using rep_distinct [OF Cons.prems(1)] .
  have n: "n = hd (xs @ [r])" using rep_nxt [of h r "[]" x xs] Cons.prems by simp
  have d: "rep ?d r xs" using rep_del [of h r "[]" x xs] Cons.prems(1) by simp
  have dq: "rep ?d q ys" using rep_del_other [of h r "[]" x xs q ys] Cons.prems(1-3) by simp
  have "rep ?h q (x # ys)" by (rule rep_add [OF dq]) (use Cons.prems(3) in \<open>auto simp: apart_def\<close>)
  moreover have "rep ?h r xs"
    by (rule rep_add_other [OF dq d]) (use Cons.prems(3) dist in \<open>auto simp: apart_def\<close>)
  moreover have "apart r xs q (x # ys)" using Cons.prems(3) dist by (auto simp: apart_def)
  ultimately obtain h' where
    "each_safe_from nxt (\<lambda>p h. add (del h p) p q) r (hd (xs @ [r])) (nxt ?h (hd (xs @ [r]))) ?h = Some h'"
    "rep h' r []" "rep h' q (rev xs @ x # ys)"
    using Cons.IH by blast
  then show ?case using dist n by (subst each_safe_from.simps) (auto simp: Let_def)
qed

lemma move_all:
  assumes "rep h r xs" and "rep h q ys" and "apart r xs q ys"
  shows "\<exists>h'. each_safe_from nxt (\<lambda>p h. add (del h p) p q) r (nxt h r) (nxt h (nxt h r)) h = Some h'
      \<and> rep h' r [] \<and> rep h' q (rev xs @ ys)"
  using move_all_from [OF assms refl] by (simp add: rep_first [OF assms(1)])

end

interpretation em: intrusive_list dlist fwd list_add list_del
proof unfold_locales
  show "distinct (r # xs)" if "dlist h r xs" for h r xs
    using that by (simp add: dlist_def)
qed (simp_all add: fwd_def dlist_first dlist_neighbours dlist_list_del dlist_list_add
    dlist_list_del_other dlist_list_add_other)

text \<open>
  Read backwards, a list is the list of its entries in reverse, and \<open>list_add_tail\<close> is what puts an
  entry in front: the same contract gives the loops that run backwards.
\<close>

lemma list_add_tail_other:
  assumes "dlist h r xs" and "dlist h q zs" and "apart r (new # xs) q zs"
  shows "dlist (list_add_tail h new r) q zs"
proof -
  have "list_add_tail h new r a = h a" if "a \<in> set (q # zs)" for a
    using assms that by (intro list_add_tail_frame) (auto simp: apart_def)
  with assms(2) dlist_frame [of q zs "list_add_tail h new r" h] show ?thesis by blast
qed

lemma apart_rev: "apart r (rev xs) q (rev ys) = apart r xs q ys"
  by (simp add: apart_def)

interpretation emr: intrusive_list "\<lambda>h r xs. dlist h r (rev xs)" bwd list_add_tail list_del
proof unfold_locales
  show "bwd h r = hd (xs @ [r])" if "dlist h r (rev xs)" for h r xs
    using dlist_last [OF that] by (cases xs) (auto simp: bwd_def)
  show "bwd h e = hd (ys @ [r])" if "dlist h r (rev (xs @ e # ys))" for h r xs e ys
    using dlist_neighbours(1) [of h r "rev ys" e "rev xs"] that
    by (cases ys) (auto simp: bwd_def)
  show "dlist (list_del h e) q (rev zs)"
    if "dlist h r (rev (xs @ e # ys))" "dlist h q (rev zs)" "apart r (xs @ e # ys) q zs"
    for h r xs e ys q zs
    using that dlist_list_del_other [of h r "rev ys" e "rev xs" q "rev zs"]
    by (auto simp: apart_def)
  show "dlist (list_add_tail h new r) q (rev zs)"
    if "dlist h r (rev xs)" "dlist h q (rev zs)" "apart r (new # xs) q zs" for h r xs q zs new
    using that list_add_tail_other [of h r "rev xs" q "rev zs" new] by (auto simp: apart_def)
qed (auto simp: dlist_list_del dlist_list_add_tail dlist_def [of _ _ "rev _"])

section \<open>Properties\<close>

text \<open>A store in which one list with the given entries, pushed from the last to the first, exists.\<close>

fun push_all :: "heap \<Rightarrow> addr \<Rightarrow> addr list \<Rightarrow> heap" where
  "push_all h r [] = INIT_LIST_HEAD h r"
| "push_all h r (x # xs) = list_add (push_all h r xs) x r"

lemma dlist_push_all: "distinct (r # xs) \<Longrightarrow> dlist (push_all h r xs) r xs"
  by (induction xs) (auto simp: dlist_INIT intro!: dlist_list_add)

text \<open>
  Adding an entry that is on no list puts it in front (\<open>list_add\<close>) or at the end
  (\<open>list_add_tail\<close>) of a well-formed list and leaves every list elsewhere as it was.
\<close>

theorem list_insert_refines:
  assumes "dlist h r xs" and "new \<notin> set (r # xs)"
  shows "dlist (list_add h new r) r (new # xs) \<and> dlist (list_add_tail h new r) r (xs @ [new])
    \<and> (\<forall>q zs. dlist h q zs \<and> apart r (new # xs) q zs \<longrightarrow>
          dlist (list_add h new r) q zs \<and> dlist (list_add_tail h new r) q zs)"
  using assms
  by (auto intro: dlist_list_add dlist_list_add_tail dlist_list_add_other list_add_tail_other)

theorem list_insert_refines_witness:
  "dlist (list_add (push_all (\<lambda>_. \<lparr>lnext = 0, lprev = 0\<rparr>) 1 [2, 3]) 4 1) 1 [4, 2, 3]
   \<and> dlist (list_add_tail (push_all (\<lambda>_. \<lparr>lnext = 0, lprev = 0\<rparr>) 1 [2, 3]) 4 1) 1 [2, 3, 4]"
  using list_insert_refines [OF dlist_push_all, of 1 "[2, 3]" 4] by simp

text \<open>
  Unlinking an entry, wherever it stands, removes exactly it: the rest keeps its order, every
  list elsewhere is as it was, and the entry is left with the two poison pointers.
\<close>

theorem list_del_refines:
  assumes "dlist h r (xs @ e # ys)"
  shows "dlist (list_del h e) r (xs @ ys)
    \<and> lnext (list_del h e e) = LIST_POISON1 \<and> lprev (list_del h e e) = LIST_POISON2
    \<and> (\<forall>q zs. dlist h q zs \<and> apart r (xs @ e # ys) q zs \<longrightarrow> dlist (list_del h e) q zs)"
  using dlist_list_del [OF assms] dlist_list_del_other [OF assms]
  by (intro conjI) (simp_all add: list_del_alt)

theorem list_del_refines_witness:
  "dlist (list_del (push_all (\<lambda>_. \<lparr>lnext = 0, lprev = 0\<rparr>) 1 [2, 3, 4]) 3) 1 [2, 4]"
  using list_del_refines [of "push_all (\<lambda>_. \<lparr>lnext = 0, lprev = 0\<rparr>) 1 [2, 3, 4]" 1 "[2]" 3 "[4]"]
    dlist_push_all [of 1 "[2, 3, 4]"] by simp

text \<open>
  A traversal of a well-formed list ends and visits its entries in order, forwards and
  backwards; a search returns the first entry its body accepts, or falls through.
\<close>

theorem list_traversals:
  assumes "dlist h r xs"
  shows "list_for_each h r = Some xs \<and> list_for_each_prev h r = Some (rev xs)
    \<and> list_for_each_entry P h r = Some (List.find P xs)"
  using em.walk [OF assms] em.search [OF assms] emr.walk [of h r "rev xs"] assms
  by (simp add: list_for_each_def list_for_each_prev_def list_for_each_entry_def)

theorem list_traversals_witness:
  "list_for_each_prev (push_all (\<lambda>_. \<lparr>lnext = 0, lprev = 0\<rparr>) 1 [2, 3]) 1 = Some [3, 2]"
  using list_traversals [where P = "\<lambda>_. True", OF dlist_push_all [of 1 "[2, 3]"]] by simp

text \<open>
  The flush loop (\<open>list_for_each_entry_safe\<close> with \<open>list_del\<close>) ends with an empty list, and the
  requeue loop of \<open>sched_consume\<close> (unlink, then \<open>list_add\<close> to the other list) empties the one list
  and prepends its entries to the other in reverse order.
\<close>

theorem list_loops_refine:
  assumes "dlist h todo xs" and "dlist h jobs ys" and "apart todo xs jobs ys"
  shows "(\<exists>h'. list_for_each_entry_safe (\<lambda>p h. list_del h p) h todo = Some h'
            \<and> dlist h' todo [] \<and> dlist h' jobs ys)
    \<and> (\<exists>h'. list_for_each_entry_safe (\<lambda>p h. list_add (list_del h p) p jobs) h todo = Some h'
            \<and> dlist h' todo [] \<and> dlist h' jobs (rev xs @ ys))"
  using em.flush [OF assms(1)] em.move_all [OF assms] assms
  by (auto simp: list_for_each_entry_safe_def Let_def)

theorem list_loops_refine_witness:
  "\<exists>h h'. list_for_each_entry_safe (\<lambda>p h. list_add (list_del h p) p 10) h 1 = Some h'
     \<and> dlist h' 10 [3, 2]"
proof -
  let ?h = "push_all (push_all (\<lambda>_. \<lparr>lnext = 0, lprev = 0\<rparr>) 10 []) 1 [2, 3]"
  have "dlist ?h 1 [2, 3]" by (rule dlist_push_all) simp
  moreover have "dlist ?h 10 []"
    by (simp add: dlist_def INIT_LIST_HEAD_def list_add_def list_add_between_def Let_def)
  ultimately show ?thesis
    using list_loops_refine [of ?h 1 "[2, 3]" 10 "[]"] by (auto simp: apart_def)
qed

text \<open>
  The variants of the loops.  Searching after or from an entry, or backwards, finds the first hit
  in what lies ahead in that direction; the safe variants that unlink what they visit leave exactly
  the entries they do not reach, and all of them end.
\<close>

theorem list_loop_variants_refine:
  assumes "dlist h r (us @ p # vs)"
  shows "list_for_each_entry_continue P h p r = Some (List.find P vs)
    \<and> list_for_each_entry_from P h p r = Some (List.find P (p # vs))
    \<and> list_for_each_entry_continue_reverse P h p r = Some (List.find P (rev us))
    \<and> list_for_each_entry_reverse P h r = Some (List.find P (rev (us @ p # vs)))
    \<and> list_for_each_entry_continue P h (list_prepare_entry None r) r = Some (List.find P (us @ p # vs))
    \<and> list_safe_reset_next h p = hd (vs @ [r])
    \<and> (\<exists>h'. list_for_each_entry_safe_continue (\<lambda>p h. list_del h p) h p r = Some h' \<and> dlist h' r (us @ [p]))
    \<and> (\<exists>h'. list_for_each_entry_safe_from (\<lambda>p h. list_del h p) h p r = Some h' \<and> dlist h' r us)
    \<and> (\<exists>h'. list_for_each_safe (\<lambda>p h. list_del h p) h r = Some h' \<and> dlist h' r [])
    \<and> (\<exists>h'. list_for_each_prev_safe (\<lambda>p h. list_del h p) h r = Some h' \<and> dlist h' r [])
    \<and> (\<exists>h'. list_for_each_entry_safe_reverse (\<lambda>p h. list_del h p) h r = Some h' \<and> dlist h' r [])"
proof -
  have b: "dlist h r (rev (rev vs @ p # rev us))" using assms by simp
  note f = em.search_after [OF assms] em.search_at [OF assms] em.search [OF assms]
    em.flush_after [OF assms] em.flush_at [OF assms] em.flush [OF assms]
    em.rep_nxt [OF assms] emr.search_after [OF b] emr.search [OF b] emr.flush [OF b]
  show ?thesis
    using f by (intro conjI) (auto simp: list_for_each_entry_continue_def list_for_each_entry_from_def
      list_for_each_entry_continue_reverse_def list_for_each_entry_reverse_def list_prepare_entry_def
      list_safe_reset_next_def list_for_each_entry_safe_continue_def list_for_each_entry_safe_from_def
      list_for_each_safe_def list_for_each_prev_safe_def list_for_each_entry_safe_reverse_def Let_def)
qed

theorem list_loop_variants_refine_witness:
  "\<exists>h'. list_for_each_entry_safe_continue (\<lambda>p h. list_del h p)
     (push_all (\<lambda>_. \<lparr>lnext = 0, lprev = 0\<rparr>) 1 [2, 3, 4]) 2 1 = Some h' \<and> dlist h' 1 [2]"
  using list_loop_variants_refine [of "push_all (\<lambda>_. \<lparr>lnext = 0, lprev = 0\<rparr>) 1 [2, 3, 4]" 1 "[]" 2 "[3, 4]"]
    dlist_push_all [of 1 "[2, 3, 4]"] by simp

text \<open>
  The whole-list operations: splicing joins two lists (in front or at the end), and the
  \<open>_init\<close> variants leave the first one empty.
\<close>

theorem list_splice_refines:
  assumes "dlist h q xs" and "dlist h r ys" and "apart q xs r ys"
  shows "dlist (list_splice h q r) r (xs @ ys) \<and> dlist (list_splice_tail h q r) r (ys @ xs)
    \<and> dlist (list_splice_init h q r) r (xs @ ys) \<and> dlist (list_splice_init h q r) q []
    \<and> dlist (list_splice_tail_init h q r) r (ys @ xs) \<and> dlist (list_splice_tail_init h q r) q []"
  using dlist_splice [OF assms] dlist_splice_tail [OF assms] dlist_splice_init [OF assms] by blast

theorem list_splice_refines_witness:
  "\<exists>h. dlist (list_splice_init h 1 10) 10 [2, 3, 11] \<and> dlist (list_splice_init h 1 10) 1 []"
proof -
  let ?h = "push_all (push_all (\<lambda>_. \<lparr>lnext = 0, lprev = 0\<rparr>) 10 [11]) 1 [2, 3]"
  have "dlist ?h 1 [2, 3]" by (rule dlist_push_all) simp
  moreover have "dlist ?h 10 [11]"
    by (simp add: dlist_def INIT_LIST_HEAD_def list_add_def list_add_between_def Let_def)
  ultimately show ?thesis
    using list_splice_refines [of ?h 1 "[2, 3]" 10 "[11]"] by (auto simp: apart_def)
qed

text \<open>
  Cutting after an entry moves the part up to it to the other head; replacing, rotating and
  moving an entry do to the content what their names say.
\<close>

theorem list_rearrange_refines:
  assumes "dlist h r (xs @ e # ys)" and "new \<notin> set (r # xs @ e # ys)"
  shows "dlist (list_cut_position h new r e) new (xs @ [e])
    \<and> dlist (list_cut_position h new r e) r ys
    \<and> dlist (list_replace h e new) r (xs @ new # ys)
    \<and> dlist (list_rotate_left h r) r (rotate1 (xs @ e # ys))
    \<and> dlist (list_move h e r) r (e # xs @ ys) \<and> dlist (list_move_tail h e r) r (xs @ ys @ [e])"
  using dlist_cut_position [OF assms] dlist_replace [OF assms] dlist_rotate_left [OF assms(1)]
    dlist_move_within [OF assms(1)] dlist_move_tail_within [OF assms(1)] by blast

theorem list_rearrange_refines_witness:
  "dlist (list_cut_position (push_all (\<lambda>_. \<lparr>lnext = 0, lprev = 0\<rparr>) 1 [2, 3, 4]) 9 1 3) 9 [2, 3]"
  using list_rearrange_refines [of "push_all (\<lambda>_. \<lparr>lnext = 0, lprev = 0\<rparr>) 1 [2, 3, 4]" 1 "[2]" 3 "[4]" 9]
    dlist_push_all [of 1 "[2, 3, 4]"] by simp

end
