(* ===== verification/Emage.thy ===== *)
theory Emage
  imports Prelude
begin

text \<open>
  \<open>src/include/emage.h\<close>, the public header: the configuration structures handed to the wrapper,
  the table of callbacks the wrapper fills in, and the calls the agent makes through it.  A
  callback is code of the embedding base station; what the agent does with it is test the pointer
  and call it.  The table therefore says which pointers are set (and, for \<open>init\<close>, the only
  callback whose result is read, what it returns), and a call is recorded with its arguments.
\<close>

section \<open>Configuration of a slice\<close>

record em_RAN_l2_conf =
  user_sched :: int
  rbg :: int

text \<open>\<open>users\<close> is the array of \<open>EP_RAN_USERS_MAX\<close> entries.\<close>

record em_RAN_conf =
  nof_users :: int
  users :: "u16 list"
  l2 :: em_RAN_l2_conf

section \<open>The callback table\<close>

record em_RAN_ops =
  setup_request :: bool
  slice_request :: bool
  slice_add :: bool
  slice_rem :: bool
  slice_conf :: bool

record em_agent_ops =
  op_init :: "int option"
  op_release :: bool
  op_disconnected :: bool
  op_enb_setup_request :: bool
  op_ue_report :: bool
  op_ue_measure :: bool
  op_handover_UE :: bool
  op_cell_measure :: bool
  op_ran :: em_RAN_ops

text \<open>The calls, with the arguments of the prototypes in their order.\<close>

datatype callback =
    CbInit
  | CbRelease
  | CbDisconnected
  | CbEnbSetupRequest u32
  | CbUeReport u32 i32
  | CbUeMeasure u32 i32 u8 u16 u16 u16 i16 i16
  | CbHandoverUE u32 u16 u16 u64 u16 u8
  | CbCellMeasure u16 u32 int i32
  | CbRanSetupRequest u32
  | CbSliceRequest u32 u64
  | CbSliceAdd u32 u64 em_RAN_conf
  | CbSliceRem u32 u64
  | CbSliceConf u32 u64 em_RAN_conf

end
