(* ===== verification/Env.thy ===== *)
theory Env
  imports Emage
begin

text \<open>
  The process the agent runs in: the C library and the kernel as the code sees them, and the
  global variables that belong to no agent.  Outcomes the code does not control (whether
  \<open>malloc\<close>, \<open>fopen\<close> or \<open>pthread_create\<close> succeeds, what the clock shows, what \<open>send\<close> returns) are
  functions of how often the call was made before, so that every behaviour of the environment is
  some value of these functions.  What the agent does to the outside is the \<open>trace\<close>, newest
  event last.  Undefined behaviour the code can run into is an event \<open>EvFault\<close>: the model goes on
  after it, the process need not.
\<close>

section \<open>Time\<close>

datatype timespec = Timespec (tv_sec: int) (tv_nsec: int)

instantiation timespec :: linorder
begin

definition less_eq_timespec :: "timespec \<Rightarrow> timespec \<Rightarrow> bool" where
  "less_eq_timespec a b \<longleftrightarrow> tv_sec a < tv_sec b \<or> tv_sec a = tv_sec b \<and> tv_nsec a \<le> tv_nsec b"

definition less_timespec :: "timespec \<Rightarrow> timespec \<Rightarrow> bool" where
  "less_timespec a b \<longleftrightarrow> tv_sec a < tv_sec b \<or> tv_sec a = tv_sec b \<and> tv_nsec a < tv_nsec b"

instance
  by intro_classes (auto simp: less_eq_timespec_def less_timespec_def timespec.expand)

end

text \<open>A reading the clock can show, and the time it stands for in nanoseconds.\<close>

definition ts_normal :: "timespec \<Rightarrow> bool" where
  "ts_normal t \<longleftrightarrow> 0 \<le> tv_nsec t \<and> tv_nsec t < 1000000000"

definition ts_ns :: "timespec \<Rightarrow> int" where
  "ts_ns t = tv_sec t * 1000000000 + tv_nsec t"

lemma ts_ns_mono:
  assumes "ts_normal a" and "ts_normal b"
  shows "a \<le> b \<longleftrightarrow> ts_ns a \<le> ts_ns b"
  using assms by (auto simp: less_eq_timespec_def ts_normal_def ts_ns_def)

section \<open>The process\<close>

datatype fault =
    NullStream \<comment> \<open>\<open>fprintf\<close> on a null \<open>FILE *\<close>\<close>
  | BadJoin \<comment> \<open>\<open>pthread_join\<close> on a thread that was never created\<close>
  | BufferOverflow \<comment> \<open>a write past the end of an array\<close>
  | NullPointer \<comment> \<open>a member read through a null pointer\<close>

datatype event =
    EvCall u64 callback \<comment> \<open>a callback of the agent with this eNB id\<close>
  | EvSend int bytes
  | EvClose int
  | EvConnect int bytes u16 \<comment> \<open>socket, resolved address, port\<close>
  | EvNonblock int \<comment> \<open>\<open>O_NONBLOCK\<close> set on a socket\<close>
  | EvNodelay int \<comment> \<open>\<open>TCP_NODELAY\<close> set on a socket\<close>
  | EvSleep timespec
  | EvLog string string string \<comment> \<open>file, line header, format string\<close>
  | EvLogClose string
  | EvFault fault

record env =
  malloc_ok :: "nat \<Rightarrow> bool"
  mallocs :: nat
  clock :: "nat \<Rightarrow> timespec"
  clocks :: nat
  send_ret :: "nat \<Rightarrow> int"
  sends :: nat
  socket_ret :: "nat \<Rightarrow> int"
  sockets :: nat
  fopen_ok :: "nat \<Rightarrow> bool"
  fopens :: nat
  thread_ok :: "nat \<Rightarrow> bool"
  threads :: nat
  pid :: nat
  sizeof_emtask :: u64
  sizeof_emtri :: u64
  log_fd :: "string option"
  task_mem :: u32
  task_mem_OF :: int
  trig_mem :: u32
  trig_mem_OF :: int
  trace :: "event list"

definition emit :: "event \<Rightarrow> env \<Rightarrow> env" where
  "emit e w = w\<lparr>trace := trace w @ [e]\<rparr>"

definition malloc :: "env \<Rightarrow> bool \<times> env" where
  "malloc w = (malloc_ok w (mallocs w), w\<lparr>mallocs := Suc (mallocs w)\<rparr>)"

definition clock_gettime :: "env \<Rightarrow> timespec \<times> env" where
  "clock_gettime w = (clock w (clocks w), w\<lparr>clocks := Suc (clocks w)\<rparr>)"

definition send :: "int \<Rightarrow> bytes \<Rightarrow> env \<Rightarrow> int \<times> env" where
  "send fd bs w = (send_ret w (sends w), emit (EvSend fd bs) (w\<lparr>sends := Suc (sends w)\<rparr>))"

definition socket :: "env \<Rightarrow> int \<times> env" where
  "socket w = (socket_ret w (sockets w), w\<lparr>sockets := Suc (sockets w)\<rparr>)"

definition pthread_create :: "env \<Rightarrow> bool \<times> env" where
  "pthread_create w = (thread_ok w (threads w), w\<lparr>threads := Suc (threads w)\<rparr>)"

text \<open>Joining a thread that was never created is undefined.\<close>

definition pthread_join :: "bool \<Rightarrow> env \<Rightarrow> env" where
  "pthread_join created w = (if created then w else emit (EvFault BadJoin) w)"

definition call :: "u64 \<Rightarrow> callback \<Rightarrow> env \<Rightarrow> env" where
  "call enb cb w = emit (EvCall enb cb) w"

text \<open>What is read off a trace.\<close>

fun calls_of :: "event list \<Rightarrow> callback list" where
  "calls_of [] = []"
| "calls_of (EvCall _ cb # es) = cb # calls_of es"
| "calls_of (_ # es) = calls_of es"

fun sends_of :: "event list \<Rightarrow> bytes list" where
  "sends_of [] = []"
| "sends_of (EvSend _ bs # es) = bs # sends_of es"
| "sends_of (_ # es) = sends_of es"

fun faults_of :: "event list \<Rightarrow> fault list" where
  "faults_of [] = []"
| "faults_of (EvFault f # es) = f # faults_of es"
| "faults_of (_ # es) = faults_of es"

lemma calls_of_append [simp]: "calls_of (xs @ ys) = calls_of xs @ calls_of ys"
  by (induction xs rule: calls_of.induct) auto

lemma sends_of_append [simp]: "sends_of (xs @ ys) = sends_of xs @ sends_of ys"
  by (induction xs rule: sends_of.induct) auto

lemma faults_of_append [simp]: "faults_of (xs @ ys) = faults_of xs @ faults_of ys"
  by (induction xs rule: faults_of.induct) auto

text \<open>Only the fields an operation is about change.\<close>

lemma emit_simps [simp]:
  "malloc_ok (emit e w) = malloc_ok w" "mallocs (emit e w) = mallocs w"
  "clock (emit e w) = clock w" "clocks (emit e w) = clocks w"
  "send_ret (emit e w) = send_ret w" "sends (emit e w) = sends w"
  "fopen_ok (emit e w) = fopen_ok w" "fopens (emit e w) = fopens w"
  "thread_ok (emit e w) = thread_ok w" "threads (emit e w) = threads w"
  "sizeof_emtask (emit e w) = sizeof_emtask w" "sizeof_emtri (emit e w) = sizeof_emtri w"
  "log_fd (emit e w) = log_fd w"
  "task_mem (emit e w) = task_mem w" "task_mem_OF (emit e w) = task_mem_OF w"
  "trig_mem (emit e w) = trig_mem w" "trig_mem_OF (emit e w) = trig_mem_OF w"
  "trace (emit e w) = trace w @ [e]"
  by (simp_all add: emit_def)

end
