(* ===== verification/Log.thy ===== *)
theory Log
  imports Env
begin

text \<open>
  \<open>src/agent/log.c\<close> and \<open>log.h\<close>: the log file of the process.  \<open>log_fd\<close> is the global
  \<open>FILE *\<close>, \<open>None\<close> when null.  The expansion of the caller's format string is \<open>vfprintf\<close>'s; the
  header in front of it is the code's own.
\<close>

section \<open>printf conversions the code uses\<close>

definition digit :: "nat \<Rightarrow> char" where
  "digit d = char_of (48 + d)"

fun dec :: "nat \<Rightarrow> string" where
  "dec n = (if n < 10 then [digit n] else dec (n div 10) @ [digit (n mod 10)])"

declare dec.simps [simp del]

text \<open>\<open>%-32s\<close> pads on the right, \<open>%03lu\<close> pads with zeros on the left.\<close>

definition pad_right :: "nat \<Rightarrow> string \<Rightarrow> string" where
  "pad_right n s = s @ replicate (n - length s) (CHR '' '')"

definition pad_zero :: "nat \<Rightarrow> string \<Rightarrow> string" where
  "pad_zero n s = replicate (n - length s) (CHR ''0'') @ s"

definition EMLOG_PROC_LEN :: nat where
  "EMLOG_PROC_LEN = 32"

section \<open>Operations\<close>

definition log_path :: "nat \<Rightarrow> string" where
  "log_path p = ''./emage.'' @ dec p @ ''.log''"

definition log_init :: "env \<Rightarrow> int \<times> env" where
  "log_init w =
     (let ok = fopen_ok w (fopens w);
          w = w\<lparr>fopens := Suc (fopens w)\<rparr>
      in (0, w\<lparr>log_fd := (if ok then Some (log_path (pid w)) else None)\<rparr>))"

definition log_release :: "env \<Rightarrow> env" where
  "log_release w =
     (case log_fd w of
        Some f \<Rightarrow> (emit (EvLogClose f) w)\<lparr>log_fd := None\<rparr>
      | None \<Rightarrow> w)"

definition log_header :: "string \<Rightarrow> u64 \<Rightarrow> string" where
  "log_header proc enb =
     pad_right EMLOG_PROC_LEN proc @ '', eNB '' @ pad_zero 3 (dec (unat enb)) @ '': ''"

text \<open>The agent argument is a pointer: \<open>None\<close> is the null pointer, logged as eNB 0.\<close>

definition log_message :: "u64 option \<Rightarrow> string \<Rightarrow> string \<Rightarrow> env \<Rightarrow> env" where
  "log_message agent proc msg w =
     (case log_fd w of
        None \<Rightarrow> emit (EvFault NullStream) w
      | Some f \<Rightarrow>
          emit (EvLog f (log_header proc (case agent of Some e \<Rightarrow> e | None \<Rightarrow> 0)) msg) w)"

definition EMLOG :: "u64 option \<Rightarrow> string \<Rightarrow> string \<Rightarrow> env \<Rightarrow> env" where
  "EMLOG a proc x w = log_message a proc x w"

lemma EMLOG_simps [simp]:
  "malloc_ok (EMLOG a p x w) = malloc_ok w" "mallocs (EMLOG a p x w) = mallocs w"
  "clock (EMLOG a p x w) = clock w" "clocks (EMLOG a p x w) = clocks w"
  "send_ret (EMLOG a p x w) = send_ret w" "sends (EMLOG a p x w) = sends w"
  "thread_ok (EMLOG a p x w) = thread_ok w" "threads (EMLOG a p x w) = threads w"
  "sizeof_emtask (EMLOG a p x w) = sizeof_emtask w" "sizeof_emtri (EMLOG a p x w) = sizeof_emtri w"
  "log_fd (EMLOG a p x w) = log_fd w"
  "task_mem (EMLOG a p x w) = task_mem w" "task_mem_OF (EMLOG a p x w) = task_mem_OF w"
  "trig_mem (EMLOG a p x w) = trig_mem w" "trig_mem_OF (EMLOG a p x w) = trig_mem_OF w"
  by (auto simp: EMLOG_def log_message_def split: option.splits)

lemma calls_of_EMLOG [simp]: "calls_of (trace (EMLOG a p x w)) = calls_of (trace w)"
  and sends_of_EMLOG [simp]: "sends_of (trace (EMLOG a p x w)) = sends_of (trace w)"
  by (auto simp: EMLOG_def log_message_def split: option.splits)

text \<open>A message reaches the log file exactly when the stream is open; otherwise it faults.\<close>

lemma EMLOG_fault_iff:
  "faults_of (trace (EMLOG a p x w)) = faults_of (trace w) @ (if log_fd w = None then [NullStream] else [])"
  by (auto simp: EMLOG_def log_message_def split: option.splits)

lemma length_dec: "0 < length (dec n)"
  by (subst dec.simps) simp

lemma log_header_length: "36 \<le> length (log_header proc enb)"
  by (simp add: log_header_def pad_right_def pad_zero_def EMLOG_PROC_LEN_def)

end
