(* ===== verification/Accounting.thy ===== *)
theory Accounting
  imports Log
begin

text \<open>
  Both \<open>task.c\<close> and \<open>triggers.c\<close> keep, when built with \<open>EBUG_MEMORY\<close>, a counter of the bytes they
  have allocated and not freed, and a second one that is to count its overflows.  The counters
  are part of the model: they are the program's own measure of what it still owns, so a leak is
  a counter that disagrees with the lists.
\<close>

section \<open>The arithmetic of a counter\<close>

text \<open>
  \<open>mem += sizeof(T) + size\<close>: the counter and the size are \<open>unsigned int\<close>, \<open>sizeof\<close> is a
  \<open>size_t\<close> of 64 bits, so the sum is formed in 64 bits and then truncated.
\<close>

definition mem_sum :: "u64 \<Rightarrow> u32 \<Rightarrow> u32 \<Rightarrow> u64" where
  "mem_sum szof sz mem = ucast mem + szof + ucast sz"

definition mem_charge :: "u64 \<Rightarrow> u32 \<Rightarrow> u32 \<Rightarrow> u32" where
  "mem_charge szof sz mem = ucast (mem_sum szof sz mem)"

definition mem_overflows :: "u64 \<Rightarrow> u32 \<Rightarrow> u32 \<Rightarrow> bool" where
  "mem_overflows szof sz mem \<longleftrightarrow> mem_sum szof sz mem < ucast mem"

definition mem_refund :: "u64 \<Rightarrow> u32 \<Rightarrow> u32 \<Rightarrow> u32" where
  "mem_refund szof sz mem = ucast (ucast mem - (szof + ucast sz) :: u64)"

text \<open>The cost of a block, modulo the width of the counter.\<close>

definition block_cost :: "u64 \<Rightarrow> u32 \<Rightarrow> u32" where
  "block_cost szof sz = ucast szof + sz"

lemma mem_charge_cost: "mem_charge szof sz mem = mem + block_cost szof sz"
  by (simp add: mem_charge_def mem_sum_def block_cost_def ucast_down_add ucast_down_up)

lemma mem_refund_cost: "mem_refund szof sz mem = mem - block_cost szof sz"
  by (simp add: mem_refund_def block_cost_def ucast_down_add ucast_down_diff ucast_down_up)

lemma mem_refund_charge: "mem_refund szof sz (mem_charge szof sz mem) = mem"
  by (simp add: mem_charge_cost mem_refund_cost)

text \<open>
  The 64-bit sum of a 32-bit counter, a 32-bit size and the size of a structure does not wrap, so
  the overflow test of the code never fires, however often the counter itself wraps.
\<close>

lemma mem_overflows_never:
  assumes "unat szof < 2 ^ 63"
  shows "\<not> mem_overflows szof sz mem"
  using assms unat_u32_less [of sz] unat_u32_less [of mem]
  by (simp add: mem_overflows_def mem_sum_def word_less_nat_alt unat_word_ariths unat_ucast_up)

section \<open>Allocation\<close>

text \<open>
  The two allocators ask for the structure and then, when there is a message, for its copy: they
  succeed when each of these calls does.
\<close>

definition alloc_ok :: "env \<Rightarrow> bytes option \<Rightarrow> bool" where
  "alloc_ok w msg \<longleftrightarrow>
     malloc_ok w (mallocs w) \<and> (msg \<noteq> None \<longrightarrow> malloc_ok w (Suc (mallocs w)))"

text \<open>Two states of the process that differ in the heap only.\<close>

definition same_but_mem :: "env \<Rightarrow> env \<Rightarrow> bool" where
  "same_but_mem w w' \<longleftrightarrow>
     malloc_ok w' = malloc_ok w \<and> clock w' = clock w \<and> clocks w' = clocks w \<and>
     send_ret w' = send_ret w \<and> sends w' = sends w \<and> socket_ret w' = socket_ret w \<and>
     sockets w' = sockets w \<and> fopen_ok w' = fopen_ok w \<and> fopens w' = fopens w \<and>
     thread_ok w' = thread_ok w \<and> threads w' = threads w \<and> pid w' = pid w \<and>
     sizeof_emtask w' = sizeof_emtask w \<and> sizeof_emtri w' = sizeof_emtri w \<and>
     log_fd w' = log_fd w \<and> trace w' = trace w"

lemma same_but_mem_refl [simp]: "same_but_mem w w"
  by (simp add: same_but_mem_def)

lemma same_but_mem_trans [trans]: "same_but_mem u v \<Longrightarrow> same_but_mem v w \<Longrightarrow> same_but_mem u w"
  by (simp add: same_but_mem_def)

lemma same_but_mem_fold:
  assumes "\<And>x w. same_but_mem w (f x w)"
  shows "same_but_mem w (fold f xs w)"
proof (induction xs arbitrary: w)
  case (Cons x xs)
  have "same_but_mem w (f x w)" by (rule assms)
  also have "same_but_mem (f x w) (fold f xs (f x w))" by (rule Cons.IH)
  finally show ?case by simp
qed simp

lemma same_but_memD:
  assumes "same_but_mem w w'"
  shows "trace w' = trace w" and "sizeof_emtask w' = sizeof_emtask w"
    and "sizeof_emtri w' = sizeof_emtri w" and "log_fd w' = log_fd w"
    and "sends w' = sends w" and "send_ret w' = send_ret w"
    and "clock w' = clock w" and "clocks w' = clocks w" and "malloc_ok w' = malloc_ok w"
    and "threads w' = threads w" and "thread_ok w' = thread_ok w"
  using assms by (simp_all add: same_but_mem_def)

section \<open>Freeing what a list holds\<close>

text \<open>
  A pool is a counter, the price of an element and a release operation that refunds it.  The
  flush loops of the agent release the elements of a list one after the other.
\<close>

locale pool =
  fixes mem :: "'w \<Rightarrow> u32"
    and price :: "'w \<Rightarrow> 'e \<Rightarrow> u32"
    and release :: "'e \<Rightarrow> 'w \<Rightarrow> 'w"
  assumes release_mem: "mem (release x w) = mem w - price w x"
    and release_price: "price (release x w) y = price w y"
begin

lemma release_price_all: "price (release x w) = price w"
  by (rule ext) (rule release_price)

lemma fold_release_price: "price (fold release xs w) = price w"
  by (induction xs arbitrary: w) (simp_all add: release_price_all)

lemma fold_release_mem: "mem (fold release xs w) = mem w - (\<Sum>x\<leftarrow>xs. price w x)"
  by (induction xs arbitrary: w) (simp_all add: release_mem release_price_all diff_diff_eq)

text \<open>A counter that agrees with two lists agrees with one once the other is released.\<close>

lemma release_list_agrees:
  assumes "mem w = (\<Sum>x\<leftarrow>xs @ ys. price w x) + k"
  shows "mem (fold release xs w) = (\<Sum>x\<leftarrow>ys. price w x) + k"
  using assms by (simp add: fold_release_mem)

end

end
