(* ===== verification/Task.thy ===== *)
theory Task
  imports Accounting
begin

text \<open>
  \<open>src/agent/task.h\<close> and \<open>task.c\<close>: the unit of work of the scheduler.  A task owns its copy of the
  message; a pointer to a task is the task itself, since a task is on at most one list at a time
  and nobody else keeps its address.
\<close>

section \<open>Types\<close>

definition TASK_TYPE_INVALID :: int where [const_simps]: "TASK_TYPE_INVALID = 0"
definition TASK_TYPE_SEND :: int where [const_simps]: "TASK_TYPE_SEND = 1"
definition TASK_TYPE_HELLO :: int where [const_simps]: "TASK_TYPE_HELLO = 2"
definition TASK_TYPE_ENB_SETUP :: int where [const_simps]: "TASK_TYPE_ENB_SETUP = 3"
definition TASK_TYPE_UE_REPORT :: int where [const_simps]: "TASK_TYPE_UE_REPORT = 4"
definition TASK_TYPE_UE_MEASURE :: int where [const_simps]: "TASK_TYPE_UE_MEASURE = 5"
definition TASK_TYPE_CELL_MEASURE :: int where [const_simps]: "TASK_TYPE_CELL_MEASURE = 6"
definition TASK_TYPE_HO :: int where [const_simps]: "TASK_TYPE_HO = 7"
definition TASK_TYPE_RAN_SETUP :: int where [const_simps]: "TASK_TYPE_RAN_SETUP = 8"
definition TASK_TYPE_RAN_SLICE :: int where [const_simps]: "TASK_TYPE_RAN_SLICE = 9"

record emtask =
  tk_id :: task_id_t
  tk_type :: int
  tk_mod :: u32
  tk_msg :: "bytes option"
  tk_msg_size :: u32
  tk_trig :: trig_id_t
  tk_resch :: int
  tk_issued :: timespec
  tk_elapse :: int

text \<open>The structure after \<open>memset(ret, 0, sizeof(emtask))\<close>.\<close>

definition zero_task :: emtask where
  "zero_task = \<lparr>tk_id = 0, tk_type = 0, tk_mod = 0, tk_msg = None, tk_msg_size = 0, tk_trig = 0,
     tk_resch = 0, tk_issued = Timespec 0 0, tk_elapse = 0\<rparr>"

section \<open>Operations\<close>

definition task_mem_add :: "u32 \<Rightarrow> env \<Rightarrow> env" where
  "task_mem_add sz w =
     w\<lparr>task_mem_OF := task_mem_OF w
          + (if mem_overflows (sizeof_emtask w) sz (task_mem w) then 1 else 0),
       task_mem := mem_charge (sizeof_emtask w) sz (task_mem w)\<rparr>"

text \<open>\<open>memcpy(ret->msg, msg, size)\<close> copies the first \<open>size\<close> bytes of the caller's buffer.\<close>

definition task_alloc ::
    "int \<Rightarrow> int \<Rightarrow> int \<Rightarrow> i32 \<Rightarrow> bytes option \<Rightarrow> u32 \<Rightarrow> env \<Rightarrow> emtask option \<times> env" where
  "task_alloc ty intv res trigger msg sz w =
     (let (ok, w) = malloc w in
      if \<not> ok then (None, w)
      else
        let ret = zero_task\<lparr>tk_type := ty, tk_elapse := intv, tk_resch := res\<rparr>;
            (ok, ret, w) =
              (case msg of
                 None \<Rightarrow> (True, ret, w)
               | Some m \<Rightarrow>
                   let (ok, w) = malloc w
                   in (ok, ret\<lparr>tk_msg := Some (take (unat sz) m), tk_msg_size := sz\<rparr>, w))
        in if \<not> ok then (None, w)
           else
             let ret = (if trigger \<noteq> 0 then ret\<lparr>tk_trig := trigger\<rparr> else ret)
             in (Some ret, task_mem_add sz w))"

definition task_free :: "emtask \<Rightarrow> env \<Rightarrow> env" where
  "task_free task w =
     w\<lparr>task_mem := mem_refund (sizeof_emtask w) (tk_msg_size task) (task_mem w)\<rparr>"

text \<open>Freeing a whole list, in the order of the flush loops.\<close>

definition task_free_all :: "emtask list \<Rightarrow> env \<Rightarrow> env" where
  "task_free_all ts w = fold task_free ts w"

definition task_price :: "env \<Rightarrow> emtask \<Rightarrow> u32" where
  "task_price w t = block_cost (sizeof_emtask w) (tk_msg_size t)"

definition tasks_bytes :: "env \<Rightarrow> emtask list \<Rightarrow> u32" where
  "tasks_bytes w ts = (\<Sum>t\<leftarrow>ts. task_price w t)"

interpretation tpool: pool task_mem task_price task_free
  by unfold_locales (simp_all add: task_free_def task_price_def mem_refund_cost)

section \<open>What the operations do\<close>

definition task_init :: "int \<Rightarrow> int \<Rightarrow> int \<Rightarrow> i32 \<Rightarrow> bytes option \<Rightarrow> u32 \<Rightarrow> emtask" where
  "task_init ty intv res trg msg sz =
     \<lparr>tk_id = 0, tk_type = ty, tk_mod = 0, tk_msg = map_option (take (unat sz)) msg,
      tk_msg_size = (if msg = None then 0 else sz), tk_trig = trg, tk_resch = res,
      tk_issued = Timespec 0 0, tk_elapse = intv\<rparr>"

lemma task_init_simps [simp]:
  "tk_type (task_init ty intv res trg msg sz) = ty"
  "tk_mod (task_init ty intv res trg msg sz) = 0"
  "tk_msg (task_init ty intv res trg msg sz) = map_option (take (unat sz)) msg"
  "tk_msg_size (task_init ty intv res trg msg sz) = (if msg = None then 0 else sz)"
  "tk_trig (task_init ty intv res trg msg sz) = trg"
  "tk_resch (task_init ty intv res trg msg sz) = res"
  "tk_elapse (task_init ty intv res trg msg sz) = intv"
  by (simp_all add: task_init_def)

lemma fst_task_alloc [simp]:
  "fst (task_alloc ty intv res trg msg sz w) =
     (if alloc_ok w msg then Some (task_init ty intv res trg msg sz) else None)"
  by (cases msg) (auto simp: task_alloc_def malloc_def alloc_ok_def task_init_def zero_task_def
      Let_def)

lemma task_mem_add_simps [simp]:
  "same_but_mem w (task_mem_add sz w)"
  "mallocs (task_mem_add sz w) = mallocs w"
  "task_mem (task_mem_add sz w) = task_mem w + block_cost (sizeof_emtask w) sz"
  "trig_mem (task_mem_add sz w) = trig_mem w" "trig_mem_OF (task_mem_add sz w) = trig_mem_OF w"
  by (simp_all add: task_mem_add_def same_but_mem_def mem_charge_cost)

lemma snd_task_alloc:
  "snd (task_alloc ty intv res trg msg sz w) =
     (let w1 = w\<lparr>mallocs := mallocs w + (if malloc_ok w (mallocs w) \<and> msg \<noteq> None then 2 else 1)\<rparr>
      in if alloc_ok w msg then task_mem_add sz w1 else w1)"
  by (cases msg) (auto simp: task_alloc_def malloc_def alloc_ok_def Let_def)

lemma task_alloc_env:
  "same_but_mem w (snd (task_alloc ty intv res trg msg sz w))"
  "task_mem (snd (task_alloc ty intv res trg msg sz w)) =
     task_mem w + (if alloc_ok w msg then block_cost (sizeof_emtask w) sz else 0)"
  "trig_mem (snd (task_alloc ty intv res trg msg sz w)) = trig_mem w"
  "trig_mem_OF (snd (task_alloc ty intv res trg msg sz w)) = trig_mem_OF w"
  by (auto simp: snd_task_alloc Let_def same_but_mem_def task_mem_add_def mem_charge_cost)

lemma task_free_env [simp]:
  "same_but_mem w (task_free t w)"
  "task_mem (task_free t w) = task_mem w - task_price w t"
  "mallocs (task_free t w) = mallocs w"
  "trig_mem (task_free t w) = trig_mem w" "trig_mem_OF (task_free t w) = trig_mem_OF w"
  "task_mem_OF (task_free t w) = task_mem_OF w"
  by (simp_all add: task_free_def same_but_mem_def task_price_def mem_refund_cost)

lemmas task_free_keeps [simp] = same_but_memD [OF task_free_env(1)]

lemma task_free_all_same [simp]: "same_but_mem w (task_free_all ts w)"
  unfolding task_free_all_def by (rule same_but_mem_fold) simp

lemmas task_free_all_keeps [simp] = same_but_memD [OF task_free_all_same]

lemma task_free_all_env [simp]:
  "mallocs (task_free_all ts w) = mallocs w"
  "trig_mem (task_free_all ts w) = trig_mem w"
  by (induction ts arbitrary: w) (simp_all add: task_free_all_def)

lemma task_free_all_mem: "task_mem (task_free_all ts w) = task_mem w - tasks_bytes w ts"
  by (simp add: task_free_all_def tasks_bytes_def tpool.fold_release_mem)

end
