(* ===== verification/Triggers.thy ===== *)
theory Triggers
  imports Accounting
begin

text \<open>
  \<open>src/agent/triggers.h\<close> and \<open>triggers.c\<close>: the persistent requests of the controller.  The list of
  a context is its content in list order (theory \<open>Emloops\<close> relates the pointer loops to the list
  functions used here).  Each operation is one critical section under the lock of the context.
\<close>

section \<open>Types\<close>

definition TR_TYPE_UE_REP :: int where [const_simps]: "TR_TYPE_UE_REP = 0"
definition TR_TYPE_UE_MEAS :: int where [const_simps]: "TR_TYPE_UE_MEAS = 1"
definition TR_TYPE_MAC_REP :: int where [const_simps]: "TR_TYPE_MAC_REP = 2"

record emtri =
  tr_id :: trig_id_t
  tr_type :: int
  tr_mod :: u32
  tr_instance :: int
  tr_msg :: "bytes option"
  tr_msg_size :: u32

record trctx =
  tx_ts :: "emtri list"
  tx_next :: trig_id_t

definition zero_trig :: emtri where
  "zero_trig = \<lparr>tr_id = 0, tr_type = 0, tr_mod = 0, tr_instance = 0, tr_msg = None,
     tr_msg_size = 0\<rparr>"

section \<open>Operations\<close>

definition trig_mem_add :: "u32 \<Rightarrow> env \<Rightarrow> env" where
  "trig_mem_add sz w =
     w\<lparr>trig_mem_OF := trig_mem_OF w
          + (if mem_overflows (sizeof_emtri w) sz (trig_mem w) then 1 else 0),
       trig_mem := mem_charge (sizeof_emtri w) sz (trig_mem w)\<rparr>"

definition trig_alloc ::
    "u32 \<Rightarrow> int \<Rightarrow> int \<Rightarrow> bytes option \<Rightarrow> u32 \<Rightarrow> env \<Rightarrow> emtri option \<times> env" where
  "trig_alloc m ty inst msg sz w =
     (let (ok, w) = malloc w in
      if \<not> ok then (None, w)
      else
        let ret = zero_trig\<lparr>tr_mod := m, tr_type := ty, tr_instance := inst\<rparr>;
            (ok, ret, w) =
              (case msg of
                 None \<Rightarrow> (True, ret, w)
               | Some b \<Rightarrow>
                   let (ok, w) = malloc w
                   in (ok, ret\<lparr>tr_msg := Some (take (unat sz) b), tr_msg_size := sz\<rparr>, w))
        in if \<not> ok then (None, w) else (Some ret, trig_mem_add sz w))"

definition trig_free :: "emtri \<Rightarrow> env \<Rightarrow> env" where
  "trig_free t w =
     w\<lparr>trig_mem := mem_refund (sizeof_emtri w) (tr_msg_size t) (trig_mem w)\<rparr>"

text \<open>\<open>trig->id = ctx->next++\<close>, then the trigger goes to the front of the list.\<close>

definition trig_add :: "trctx \<Rightarrow> emtri \<Rightarrow> i32 \<times> emtri \<times> trctx" where
  "trig_add ctx t =
     (let t = t\<lparr>tr_id := tx_next ctx\<rparr>;
          ctx = ctx\<lparr>tx_next := tx_next ctx + 1\<rparr>;
          ctx = ctx\<lparr>tx_ts := t # tx_ts ctx\<rparr>
      in (tr_id t, t, ctx))"

definition trig_del_by_id :: "trctx \<Rightarrow> i32 \<Rightarrow> env \<Rightarrow> int \<times> trctx \<times> env" where
  "trig_del_by_id ctx i w =
     (case List.find (\<lambda>t. tr_id t = i) (tx_ts ctx) of
        Some t \<Rightarrow>
          (0, ctx\<lparr>tx_ts := delete_first (\<lambda>t. tr_id t = i) (tx_ts ctx)\<rparr>, trig_free t w)
      | None \<Rightarrow> (- 1, ctx, w))"

definition inst_key :: "u32 \<Rightarrow> int \<Rightarrow> int \<Rightarrow> emtri \<Rightarrow> bool" where
  "inst_key m ty inst t \<longleftrightarrow> tr_type t = ty \<and> tr_mod t = m \<and> tr_instance t = inst"

definition trig_del_by_inst :: "trctx \<Rightarrow> u32 \<Rightarrow> int \<Rightarrow> int \<Rightarrow> env \<Rightarrow> int \<times> trctx \<times> env" where
  "trig_del_by_inst ctx m ty inst w =
     (case List.find (inst_key m ty inst) (tx_ts ctx) of
        Some t \<Rightarrow> (0, ctx\<lparr>tx_ts := delete_first (inst_key m ty inst) (tx_ts ctx)\<rparr>, trig_free t w)
      | None \<Rightarrow> (- 1, ctx, w))"

definition trig_find_by_id :: "trctx \<Rightarrow> i32 \<Rightarrow> emtri option" where
  "trig_find_by_id ctx i = List.find (\<lambda>t. tr_id t = i) (tx_ts ctx)"

definition trig_find_by_inst :: "trctx \<Rightarrow> u32 \<Rightarrow> int \<Rightarrow> int \<Rightarrow> emtri option" where
  "trig_find_by_inst ctx m ty inst = List.find (inst_key m ty inst) (tx_ts ctx)"

definition trig_flush :: "trctx \<Rightarrow> env \<Rightarrow> trctx \<times> env" where
  "trig_flush ctx w = (ctx\<lparr>tx_ts := []\<rparr>, fold trig_free (tx_ts ctx) w)"

text \<open>The context \<open>em_start\<close> sets up.\<close>

definition trig_ctx_init :: trctx where
  "trig_ctx_init = \<lparr>tx_ts = [], tx_next = 1\<rparr>"

section \<open>Accounting\<close>

definition trig_price :: "env \<Rightarrow> emtri \<Rightarrow> u32" where
  "trig_price w t = block_cost (sizeof_emtri w) (tr_msg_size t)"

definition trigs_bytes :: "env \<Rightarrow> emtri list \<Rightarrow> u32" where
  "trigs_bytes w ts = (\<Sum>t\<leftarrow>ts. trig_price w t)"

interpretation trpool: pool trig_mem trig_price trig_free
  by unfold_locales (simp_all add: trig_free_def trig_price_def mem_refund_cost)

definition trig_init :: "u32 \<Rightarrow> int \<Rightarrow> int \<Rightarrow> bytes option \<Rightarrow> u32 \<Rightarrow> emtri" where
  "trig_init m ty inst msg sz =
     \<lparr>tr_id = 0, tr_type = ty, tr_mod = m, tr_instance = inst,
      tr_msg = map_option (take (unat sz)) msg, tr_msg_size = (if msg = None then 0 else sz)\<rparr>"

lemma trig_init_simps [simp]:
  "tr_type (trig_init m ty inst msg sz) = ty" "tr_mod (trig_init m ty inst msg sz) = m"
  "tr_instance (trig_init m ty inst msg sz) = inst"
  "tr_msg (trig_init m ty inst msg sz) = map_option (take (unat sz)) msg"
  "tr_msg_size (trig_init m ty inst msg sz) = (if msg = None then 0 else sz)"
  by (simp_all add: trig_init_def)

lemma fst_trig_alloc [simp]:
  "fst (trig_alloc m ty inst msg sz w) =
     (if alloc_ok w msg then Some (trig_init m ty inst msg sz) else None)"
  by (cases msg) (auto simp: trig_alloc_def malloc_def alloc_ok_def trig_init_def zero_trig_def
      Let_def)

lemma snd_trig_alloc:
  "snd (trig_alloc m ty inst msg sz w) =
     (let w1 = w\<lparr>mallocs := mallocs w + (if malloc_ok w (mallocs w) \<and> msg \<noteq> None then 2 else 1)\<rparr>
      in if alloc_ok w msg then trig_mem_add sz w1 else w1)"
  by (cases msg) (auto simp: trig_alloc_def malloc_def alloc_ok_def Let_def)

lemma trig_alloc_env:
  "same_but_mem w (snd (trig_alloc m ty inst msg sz w))"
  "trig_mem (snd (trig_alloc m ty inst msg sz w)) =
     trig_mem w + (if alloc_ok w msg then block_cost (sizeof_emtri w) sz else 0)"
  "task_mem (snd (trig_alloc m ty inst msg sz w)) = task_mem w"
  by (auto simp: snd_trig_alloc Let_def same_but_mem_def trig_mem_add_def mem_charge_cost)

lemma trig_free_env [simp]:
  "same_but_mem w (trig_free t w)" "trig_mem (trig_free t w) = trig_mem w - trig_price w t"
  "mallocs (trig_free t w) = mallocs w" "task_mem (trig_free t w) = task_mem w"
  by (simp_all add: trig_free_def same_but_mem_def trig_price_def mem_refund_cost)

lemmas trig_free_keeps [simp] = same_but_memD [OF trig_free_env(1)]

lemma trig_flush_env [simp]:
  "same_but_mem w (snd (trig_flush ctx w))" "tx_ts (fst (trig_flush ctx w)) = []"
  "tx_next (fst (trig_flush ctx w)) = tx_next ctx"
  "trig_mem (snd (trig_flush ctx w)) = trig_mem w - trigs_bytes w (tx_ts ctx)"
  by (simp_all add: trig_flush_def same_but_mem_fold trpool.fold_release_mem trigs_bytes_def)

lemmas trig_flush_keeps [simp] = same_but_memD [OF trig_flush_env(1)]

lemma trig_flush_task_mem [simp]: "task_mem (snd (trig_flush ctx w)) = task_mem w"
proof -
  have "task_mem (fold trig_free ts w) = task_mem w" for ts
    by (induction ts arbitrary: w) simp_all
  then show ?thesis by (simp add: trig_flush_def)
qed

section \<open>Identifiers\<close>

text \<open>
  The invariant of a context: the counter has not run through the positive \<open>int\<close> values, every
  identifier handed out lies below it, and no two triggers share one.
\<close>

definition trig_wf :: "trctx \<Rightarrow> bool" where
  "trig_wf ctx \<longleftrightarrow> distinct (map tr_id (tx_ts ctx)) \<and> 0 < unat (tx_next ctx)
     \<and> unat (tx_next ctx) < 2 ^ 31
     \<and> (\<forall>t \<in> set (tx_ts ctx). 0 < unat (tr_id t) \<and> unat (tr_id t) < unat (tx_next ctx))"

text \<open>\<open>next++\<close> does not overflow.\<close>

definition trig_room :: "trctx \<Rightarrow> bool" where
  "trig_room ctx \<longleftrightarrow> unat (tx_next ctx) < 2 ^ 31 - 1"

lemma unat_next: "unat (n :: i32) < 2 ^ 31 \<Longrightarrow> unat (n + 1) = unat n + 1"
  by (simp add: unat_word_ariths)

lemma trig_wf_init: "trig_wf trig_ctx_init"
  by (simp add: trig_wf_def trig_ctx_init_def)

lemma trig_wf_fresh: "trig_wf ctx \<Longrightarrow> t \<in> set (tx_ts ctx) \<Longrightarrow> tr_id t \<noteq> tx_next ctx"
  by (auto simp: trig_wf_def)

lemma trig_wf_add: "trig_wf ctx \<Longrightarrow> trig_room ctx \<Longrightarrow> trig_wf (snd (snd (trig_add ctx t)))"
  using trig_wf_fresh [of ctx]
  by (auto simp: trig_wf_def trig_room_def trig_add_def Let_def unat_next)

lemma trig_wf_subset:
  assumes "trig_wf ctx" and "distinct (map tr_id ts)" and "set ts \<subseteq> set (tx_ts ctx)"
  shows "trig_wf (ctx\<lparr>tx_ts := ts\<rparr>)"
  using assms by (auto simp: trig_wf_def)

lemma trig_wf_delete_first:
  "trig_wf ctx \<Longrightarrow> trig_wf (ctx\<lparr>tx_ts := delete_first P (tx_ts ctx)\<rparr>)"
  by (rule trig_wf_subset)
    (auto simp: trig_wf_def distinct_map_delete_first dest: delete_first_subset [THEN subsetD])

lemma trig_wf_del_by_id: "trig_wf ctx \<Longrightarrow> trig_wf (fst (snd (trig_del_by_id ctx i w)))"
  by (auto simp: trig_del_by_id_def trig_wf_delete_first split: option.split)

lemma trig_wf_del_by_inst: "trig_wf ctx \<Longrightarrow> trig_wf (fst (snd (trig_del_by_inst ctx m ty n w)))"
  by (auto simp: trig_del_by_inst_def trig_wf_delete_first split: option.split)

lemma trig_wf_flush: "trig_wf ctx \<Longrightarrow> trig_wf (fst (trig_flush ctx w))"
  by (auto simp: trig_flush_def trig_wf_def)

lemmas trig_wf_preserved =
  trig_wf_add trig_wf_del_by_id trig_wf_del_by_inst trig_wf_flush

section \<open>What the handlers rely on\<close>

text \<open>
  The contract of a registry: entering gives a fresh key under which the entry is found, and
  neither entering nor dropping disturbs the other keys.
\<close>

locale registry =
  fixes inv :: "'c \<Rightarrow> bool"
    and room :: "'c \<Rightarrow> bool"
    and find :: "'c \<Rightarrow> 'k \<Rightarrow> 'v option"
    and enter :: "'c \<Rightarrow> 'v \<Rightarrow> 'k \<times> 'v \<times> 'c"
    and drop :: "'c \<Rightarrow> 'k \<Rightarrow> 'c"
  assumes inv_enter: "inv c \<Longrightarrow> room c \<Longrightarrow> inv (snd (snd (enter c v)))"
    and inv_drop: "inv c \<Longrightarrow> inv (drop c k)"
    and enter_fresh: "inv c \<Longrightarrow> find c (fst (enter c v)) = None"
    and find_enter_same: "find (snd (snd (enter c v))) (fst (enter c v)) = Some (fst (snd (enter c v)))"
    and find_enter_other: "k \<noteq> fst (enter c v) \<Longrightarrow> find (snd (snd (enter c v))) k = find c k"
    and find_drop_same: "inv c \<Longrightarrow> find (drop c k) k = None"
    and find_drop_other: "k \<noteq> j \<Longrightarrow> find (drop c j) k = find c k"
begin

text \<open>An entry that was there is still there.\<close>

lemma enter_keeps:
  assumes "inv c" and "find c k = Some v"
  shows "find (snd (snd (enter c u))) k = Some v"
proof -
  have "k \<noteq> fst (enter c u)" using assms enter_fresh by force
  then show ?thesis using assms(2) by (simp add: find_enter_other)
qed

text \<open>Rolling an entry back leaves every lookup as it was.\<close>

lemma enter_drop:
  assumes "inv c" and "room c"
  shows "find (drop (snd (snd (enter c v))) (fst (enter c v))) = find c"
proof
  fix k
  show "find (drop (snd (snd (enter c v))) (fst (enter c v))) k = find c k"
    using assms
    by (cases "k = fst (enter c v)")
      (simp_all add: find_drop_same inv_enter enter_fresh find_drop_other find_enter_other)
qed

lemma drop_dangling: "inv c \<Longrightarrow> find (drop (drop c k) j) k = None"
  by (cases "k = j") (simp_all add: find_drop_same find_drop_other inv_drop)

end

definition trig_drop :: "trctx \<Rightarrow> i32 \<Rightarrow> trctx" where
  "trig_drop ctx i = ctx\<lparr>tx_ts := delete_first (\<lambda>t. tr_id t = i) (tx_ts ctx)\<rparr>"

lemma trig_del_by_id_ctx: "fst (snd (trig_del_by_id ctx i w)) = trig_drop ctx i"
  by (auto simp: trig_del_by_id_def trig_drop_def find_None_iff_ball delete_first_none
      split: option.split)

interpretation tr: registry trig_wf trig_room trig_find_by_id trig_add trig_drop
proof unfold_locales
  show "trig_wf (snd (snd (trig_add c v)))" if "trig_wf c" "trig_room c" for c v
    using that by (rule trig_wf_add)
  show "trig_wf (trig_drop c k)" if "trig_wf c" for c k
    using that by (simp add: trig_drop_def trig_wf_delete_first)
  show "trig_find_by_id c (fst (trig_add c v)) = None" if "trig_wf c" for c v
    using trig_wf_fresh [OF that]
    by (auto simp: trig_find_by_id_def find_None_iff_ball trig_add_def Let_def)
  show "trig_find_by_id (trig_drop c k) k = None" if "trig_wf c" for c k
    using that by (simp add: trig_find_by_id_def trig_drop_def trig_wf_def find_delete_first_same)
qed (auto simp: trig_find_by_id_def trig_add_def trig_drop_def Let_def find_delete_first_other)

end
