(* ===== verification/Proto.thy ===== *)
theory Proto
  imports Prelude
begin

text \<open>
  The interface of \<open>libemproto\<close>, the message library the agent links against (\<open>emage/emproto.h\<close>,
  not part of this repository).  It is a parameter of the model: a record of the functions and of
  the numeric constants the agent uses, about which nothing is assumed here.  A parser that fills
  in variables of its caller takes their old values and returns the new ones together with its
  status, since the caller sometimes goes on after a failure.
\<close>

section \<open>What the parsers fill in\<close>

record ep_hdr =
  hd_type :: int
  hd_cell :: u16
  hd_mod :: u32

record ep_rrc =
  meas_id :: u8
  rnti :: u16
  earfcn :: u16
  interval :: u16
  max_cells :: i16
  max_meas :: i16

text \<open>
  The array of a structure is the memory it stands for: an index outside it still reads.  A count that
  is negative, for which the loops over it do nothing, is 0 here.
\<close>

record ep_ue_meas =
  nof_rrc :: nat
  rrc :: "nat \<Rightarrow> ep_rrc"

record ep_ho =
  ho_rnti :: u16
  ho_tenb :: u64
  ho_tcell :: u16
  ho_cause :: u8

record ep_ran_slice_det =
  sd_nof_users :: int
  sd_users :: "nat \<Rightarrow> u16"
  sd_usched :: int
  sd_rbgs :: int

section \<open>The library\<close>

record emproto =
  EP_HEADER_SIZE :: nat
  EP_RAN_USERS_MAX :: nat
  EP_TYPE_SINGLE_MSG :: int
  EP_TYPE_SCHEDULE_MSG :: int
  EP_TYPE_TRIGGER_MSG :: int
  EP_HDR_FLAG_DIR_REQ :: int
  EP_HDR_FLAG_DIR_REP :: int
  EP_ACT_INVALID :: int
  EP_ACT_HELLO :: int
  EP_ACT_ECAP :: int
  EP_ACT_HANDOVER :: int
  EP_ACT_RAN_SETUP :: int
  EP_ACT_RAN_SLICE :: int
  EP_ACT_UE_REPORT :: int
  EP_ACT_UE_MEASURE :: int
  EP_ACT_CELL_MEASURE :: int
  EP_OPERATION_UNSPECIFIED :: int
  EP_OPERATION_ADD :: int
  EP_OPERATION_REM :: int
  EP_OPERATION_SET :: int
  epp_msg_type :: "bytes \<Rightarrow> int"
  epp_msg_length :: "bytes \<Rightarrow> int"
  epp_dir :: "bytes \<Rightarrow> int"
  epp_single_type :: "bytes \<Rightarrow> int"
  epp_schedule_type :: "bytes \<Rightarrow> int"
  epp_trigger_type :: "bytes \<Rightarrow> int"
  epp_single_op :: "bytes \<Rightarrow> int"
  epp_trigger_op :: "bytes \<Rightarrow> int"
  epp_sched_interval :: "bytes \<Rightarrow> int"
  epp_head :: "bytes \<Rightarrow> ep_hdr \<Rightarrow> int \<times> ep_hdr"
  epp_trigger_uemeas_req :: "bytes \<Rightarrow> ep_ue_meas \<Rightarrow> int \<times> ep_ue_meas"
  epp_trigger_cell_meas_req :: "bytes \<Rightarrow> int"
  epp_sched_cell_meas_req :: "bytes \<Rightarrow> int \<Rightarrow> int \<times> int"
  epp_single_ho_req :: "bytes \<Rightarrow> ep_ho \<Rightarrow> int \<times> ep_ho"
  epp_single_ran_slice_req :: "bytes \<Rightarrow> u64 \<Rightarrow> int \<times> u64"
  epp_single_ran_slice_add ::
    "bytes \<Rightarrow> u64 \<times> ep_ran_slice_det \<Rightarrow> int \<times> u64 \<times> ep_ran_slice_det"
  epp_single_ran_slice_rem :: "bytes \<Rightarrow> u64 \<Rightarrow> int \<times> u64"
  epp_single_ran_slice_set ::
    "bytes \<Rightarrow> u64 \<times> ep_ran_slice_det \<Rightarrow> int \<times> u64 \<times> ep_ran_slice_det"
  epf_seq :: "bytes \<Rightarrow> u32 \<Rightarrow> bytes"
  epf_sched_hello_req :: "bytes \<Rightarrow> u64 \<Rightarrow> int \<Rightarrow> int \<times> bytes"

text \<open>
  Some handlers read a local variable that was never written when the parser left it alone.  What
  is on the stack then is one more parameter.
\<close>

record stack_garbage =
  g_hdr :: ep_hdr
  g_meas :: ep_ue_meas
  g_intv :: int

end
