(* ===== verification/Agent.thy ===== *)
theory Agent
  imports Task Triggers Proto
begin

text \<open>
  \<open>src/agent/agent.h\<close>, \<open>sched.h\<close> and \<open>net.h\<close>: the context of an agent, with the state of its three
  subsystems, and the primitives by which the subsystems use each other (\<open>sched_add_task\<close>,
  \<open>net_next_seq\<close>, \<open>net_send\<close>, \<open>net_not_connected\<close>).  \<open>container_of\<close> lets every routine reach the
  whole agent from its own context; here such a routine takes the agent.  The locks are not part
  of the state: each critical section is one operation of the model.
\<close>

section \<open>State\<close>

record schctx =
  sc_stop :: bool
  sc_jobs :: "emtask list"
  sc_todo :: "emtask list"
  sc_interval :: u32
  sc_thread :: bool \<comment> \<open>whether \<open>pthread_create\<close> filled in \<open>thread\<close>\<close>

record netctx =
  nt_addr :: bytes
  nt_port :: u16
  nt_sockfd :: int
  nt_stop :: bool
  nt_status :: int
  nt_seq :: seq_id_t
  nt_buf :: bytes
  nt_interval :: u32
  nt_thread :: bool

record emage =
  enb_id :: u64
  ops :: "em_agent_ops option"
  trig :: trctx
  net :: netctx
  sched :: schctx

definition NET_STATUS_NOT_CONNECTED :: int where [const_simps]: "NET_STATUS_NOT_CONNECTED = 0"
definition NET_STATUS_CONNECTED :: int where [const_simps]: "NET_STATUS_CONNECTED = 1"
definition EM_BUF_SIZE :: nat where "EM_BUF_SIZE = 4096"

text \<open>\<open>agent->ops && agent->ops->f\<close>\<close>

definition has_op :: "emage \<Rightarrow> (em_agent_ops \<Rightarrow> bool) \<Rightarrow> bool" where
  "has_op a f = (case ops a of None \<Rightarrow> False | Some t \<Rightarrow> f t)"

text \<open>A pointer and a length that are passed together: the null pointer has length 0.\<close>

definition buf_of :: "bytes option \<Rightarrow> bytes" where
  "buf_of m = (case m of None \<Rightarrow> [] | Some b \<Rightarrow> b)"

section \<open>The scheduler's queue\<close>

text \<open>
  On failure the task is not consumed: it still belongs to the caller.
\<close>

definition sched_add_task :: "schctx \<Rightarrow> emtask \<Rightarrow> env \<Rightarrow> int \<times> schctx \<times> env" where
  "sched_add_task ctx task w =
     (let (t, w) = clock_gettime w;
          task = task\<lparr>tk_issued := t\<rparr>
      in if \<not> sc_stop ctx then (0, ctx\<lparr>sc_jobs := sc_jobs ctx @ [task]\<rparr>, w)
         else (- 1, ctx, w))"

definition agent_add_task :: "emage \<Rightarrow> emtask \<Rightarrow> env \<Rightarrow> int \<times> emage \<times> env" where
  "agent_add_task a task w =
     (let (r, ctx, w) = sched_add_task (sched a) task w in (r, a\<lparr>sched := ctx\<rparr>, w))"

section \<open>The network's primitives\<close>

fun net_next_seq :: "netctx option \<Rightarrow> u32 \<times> netctx option" where
  "net_next_seq None = (0, None)"
| "net_next_seq (Some ctx) = (nt_seq ctx, Some (ctx\<lparr>nt_seq := nt_seq ctx + 1\<rparr>))"

definition net_send :: "netctx \<Rightarrow> bytes \<Rightarrow> u32 \<Rightarrow> env \<Rightarrow> int \<times> env" where
  "net_send ctx buf sz w = send (nt_sockfd ctx) (take (unat sz) buf) w"

definition net_not_connected :: "netctx \<Rightarrow> env \<Rightarrow> int \<times> netctx \<times> env" where
  "net_not_connected ctx w =
     (let (ctx, w) =
        (if nt_sockfd ctx > 0
         then (ctx\<lparr>nt_sockfd := - 1\<rparr>, emit (EvClose (nt_sockfd ctx)) w)
         else (ctx, w));
          ctx = ctx\<lparr>nt_status := NET_STATUS_NOT_CONNECTED\<rparr>;
          ctx = ctx\<lparr>nt_seq := 0\<rparr>
      in (0, ctx, w))"

definition agent_not_connected :: "emage \<Rightarrow> env \<Rightarrow> emage \<times> env" where
  "agent_not_connected a w =
     (let (r, ctx, w) = net_not_connected (net a) w in (a\<lparr>net := ctx\<rparr>, w))"

section \<open>Facts\<close>

lemma sched_add_task_jobs:
  "sc_jobs (fst (snd (sched_add_task ctx t w))) =
     (if sc_stop ctx then sc_jobs ctx
      else sc_jobs ctx @ [t\<lparr>tk_issued := clock w (clocks w)\<rparr>])"
  by (simp add: sched_add_task_def clock_gettime_def)

lemma clock_gettime_env [simp]:
  "fst (clock_gettime w) = clock w (clocks w)"
  "snd (clock_gettime w) = w\<lparr>clocks := Suc (clocks w)\<rparr>"
  by (simp_all add: clock_gettime_def)

lemma sched_add_task_simps [simp]:
  "fst (sched_add_task ctx t w) = (if sc_stop ctx then - 1 else 0)"
  "sc_stop (fst (snd (sched_add_task ctx t w))) = sc_stop ctx"
  "sc_todo (fst (snd (sched_add_task ctx t w))) = sc_todo ctx"
  "snd (snd (sched_add_task ctx t w)) = w\<lparr>clocks := Suc (clocks w)\<rparr>"
  by (simp_all add: sched_add_task_def clock_gettime_def)

lemma agent_add_task_simps [simp]:
  "fst (agent_add_task a t w) = (if sc_stop (sched a) then - 1 else 0)"
  "snd (snd (agent_add_task a t w)) = w\<lparr>clocks := Suc (clocks w)\<rparr>"
  "trig (fst (snd (agent_add_task a t w))) = trig a"
  "net (fst (snd (agent_add_task a t w))) = net a"
  "enb_id (fst (snd (agent_add_task a t w))) = enb_id a"
  "ops (fst (snd (agent_add_task a t w))) = ops a"
  "sc_stop (sched (fst (snd (agent_add_task a t w)))) = sc_stop (sched a)"
  "sc_todo (sched (fst (snd (agent_add_task a t w)))) = sc_todo (sched a)"
  "sc_thread (sched (fst (snd (agent_add_task a t w)))) = sc_thread (sched a)"
  "sc_jobs (sched (fst (snd (agent_add_task a t w)))) =
     (if sc_stop (sched a) then sc_jobs (sched a)
      else sc_jobs (sched a) @ [t\<lparr>tk_issued := clock w (clocks w)\<rparr>])"
  by (simp_all add: agent_add_task_def sched_add_task_def clock_gettime_def)

lemma net_not_connected_simps [simp]:
  "fst (net_not_connected ctx w) = 0"
  "nt_status (fst (snd (net_not_connected ctx w))) = NET_STATUS_NOT_CONNECTED"
  "nt_seq (fst (snd (net_not_connected ctx w))) = 0"
  "nt_sockfd (fst (snd (net_not_connected ctx w))) = (if nt_sockfd ctx > 0 then - 1 else nt_sockfd ctx)"
  "nt_stop (fst (snd (net_not_connected ctx w))) = nt_stop ctx"
  "nt_buf (fst (snd (net_not_connected ctx w))) = nt_buf ctx"
  by (simp_all add: net_not_connected_def)

lemma net_not_connected_env:
  "snd (snd (net_not_connected ctx w)) =
     (if nt_sockfd ctx > 0 then emit (EvClose (nt_sockfd ctx)) w else w)"
  by (simp add: net_not_connected_def)

lemma agent_not_connected_simps [simp]:
  "trig (fst (agent_not_connected a w)) = trig a"
  "sched (fst (agent_not_connected a w)) = sched a"
  "enb_id (fst (agent_not_connected a w)) = enb_id a"
  "ops (fst (agent_not_connected a w)) = ops a"
  "net (fst (agent_not_connected a w)) = fst (snd (net_not_connected (net a) w))"
  "snd (agent_not_connected a w) = snd (snd (net_not_connected (net a) w))"
  by (simp_all add: agent_not_connected_def split: prod.split)

end
