(* ===== verification/Demo.thy ===== *)
theory Demo
  imports Agent
begin

text \<open>
  A concrete message library, process and agent, at which the properties are evaluated.  Nothing
  in the model depends on them.
\<close>

section \<open>A concrete agent\<close>

text \<open>
  A message library for examples: every parser succeeds and finds zeros, a message is its sequence
  number followed by its body, constants are distinct.  It stands for \<open>libemproto\<close> in witnesses
  only.
\<close>

definition demo_proto :: emproto where
  "demo_proto = \<lparr>EP_HEADER_SIZE = 4, EP_RAN_USERS_MAX = 8, EP_TYPE_SINGLE_MSG = 1,
     EP_TYPE_SCHEDULE_MSG = 2, EP_TYPE_TRIGGER_MSG = 3, EP_HDR_FLAG_DIR_REQ = 0,
     EP_HDR_FLAG_DIR_REP = 1, EP_ACT_INVALID = 0, EP_ACT_HELLO = 1, EP_ACT_ECAP = 2,
     EP_ACT_HANDOVER = 3, EP_ACT_RAN_SETUP = 4, EP_ACT_RAN_SLICE = 5, EP_ACT_UE_REPORT = 6,
     EP_ACT_UE_MEASURE = 7, EP_ACT_CELL_MEASURE = 8, EP_OPERATION_UNSPECIFIED = 0,
     EP_OPERATION_ADD = 1, EP_OPERATION_REM = 2, EP_OPERATION_SET = 3,
     epp_msg_type = (\<lambda>m. uint (hd m)), epp_msg_length = (\<lambda>m. uint (m ! 1)),
     epp_dir = (\<lambda>m. 0), epp_single_type = (\<lambda>m. uint (m ! 2)),
     epp_schedule_type = (\<lambda>m. uint (m ! 2)), epp_trigger_type = (\<lambda>m. uint (m ! 2)),
     epp_single_op = (\<lambda>m. uint (m ! 3)), epp_trigger_op = (\<lambda>m. uint (m ! 3)),
     epp_sched_interval = (\<lambda>m. 10), epp_head = (\<lambda>m h. (0, h\<lparr>hd_mod := 7\<rparr>)),
     epp_trigger_uemeas_req = (\<lambda>m u. (0, u\<lparr>nof_rrc := unat (m ! 4)\<rparr>)),
     epp_trigger_cell_meas_req = (\<lambda>m. 0), epp_sched_cell_meas_req = (\<lambda>m i. (0, 10)),
     epp_single_ho_req = (\<lambda>m h. (0, h)), epp_single_ran_slice_req = (\<lambda>m i. (0, i)),
     epp_single_ran_slice_add = (\<lambda>m d. (0, d)), epp_single_ran_slice_rem = (\<lambda>m i. (0, i)),
     epp_single_ran_slice_set = (\<lambda>m d. (0, d)), epf_seq = (\<lambda>m s. ucast s # tl m),
     epf_sched_hello_req = (\<lambda>b e i. (8, b))\<rparr>"

definition demo_garbage :: stack_garbage where
  "demo_garbage = \<lparr>g_hdr = \<lparr>hd_type = 0, hd_cell = 0, hd_mod = 99\<rparr>,
     g_meas = \<lparr>nof_rrc = 0, rrc = (\<lambda>_. \<lparr>meas_id = 0, rnti = 0, earfcn = 0, interval = 0,
       max_cells = 0, max_meas = 0\<rparr>)\<rparr>, g_intv = 0\<rparr>"

definition all_ops :: em_agent_ops where
  "all_ops = \<lparr>op_init = Some 0, op_release = True, op_disconnected = True,
     op_enb_setup_request = True, op_ue_report = True, op_ue_measure = True,
     op_handover_UE = True, op_cell_measure = True,
     op_ran = \<lparr>setup_request = True, slice_request = True, slice_add = True, slice_rem = True,
       slice_conf = True\<rparr>\<rparr>"

text \<open>A process whose clock advances a second per reading and whose calls all succeed.\<close>

definition demo_env :: env where
  "demo_env = \<lparr>malloc_ok = (\<lambda>_. True), mallocs = 0, clock = (\<lambda>n. Timespec (int n) 0), clocks = 0,
     send_ret = (\<lambda>_. 1), sends = 0, socket_ret = (\<lambda>_. 3), sockets = 0, fopen_ok = (\<lambda>_. True),
     fopens = 0, thread_ok = (\<lambda>_. True), threads = 0, pid = 42, sizeof_emtask = 80,
     sizeof_emtri = 48, log_fd = Some ''log'', task_mem = 0, task_mem_OF = 0, trig_mem = 0,
     trig_mem_OF = 0, trace = []\<rparr>"

definition demo_agent :: "emtask list \<Rightarrow> emage" where
  "demo_agent ts = \<lparr>enb_id = 5, ops = Some all_ops, trig = trig_ctx_init,
     net = \<lparr>nt_addr = [], nt_port = 0, nt_sockfd = 3, nt_stop = False, nt_status = 1, nt_seq = 0,
       nt_buf = replicate 4096 0, nt_interval = 100, nt_thread = True\<rparr>,
     sched = \<lparr>sc_stop = False, sc_jobs = ts, sc_todo = [], sc_interval = 100, sc_thread = True\<rparr>\<rparr>"

definition hello_task :: emtask where
  "hello_task = task_init TASK_TYPE_HELLO 0 (- 1) 0 None 0"

definition setup_task :: emtask where
  "setup_task = task_init TASK_TYPE_ENB_SETUP 0 0 0 (Some [1, 4, 2, 0]) 4"

lemma demo_agent_simps [simp]:
  "sc_stop (sched (demo_agent ts)) = False" "sc_jobs (sched (demo_agent ts)) = ts"
  "sc_todo (sched (demo_agent ts)) = []" "trig (demo_agent ts) = trig_ctx_init"
  "ops (demo_agent ts) = Some all_ops" "enb_id (demo_agent ts) = 5"
  "nt_status (net (demo_agent ts)) = 1" "nt_sockfd (net (demo_agent ts)) = 3"
  "nt_stop (net (demo_agent ts)) = False"
  by (simp_all add: demo_agent_def)

lemma demo_env_simps [simp]:
  "malloc_ok demo_env = (\<lambda>_. True)" "mallocs demo_env = 0" "clocks demo_env = 0"
  "task_mem demo_env = 0" "trig_mem demo_env = 0" "log_fd demo_env = Some ''log''"
  "alloc_ok demo_env msg" "trace demo_env = []" "clock demo_env n = Timespec (int n) 0"
  by (simp_all add: demo_env_def alloc_ok_def)

lemma demo_proto_simps [simp]:
  "EP_TYPE_SINGLE_MSG demo_proto = 1" "EP_TYPE_SCHEDULE_MSG demo_proto = 2"
  "EP_TYPE_TRIGGER_MSG demo_proto = 3" "EP_HDR_FLAG_DIR_REQ demo_proto = 0"
  "EP_HDR_FLAG_DIR_REP demo_proto = 1" "EP_ACT_INVALID demo_proto = 0"
  "EP_ACT_HELLO demo_proto = 1" "EP_ACT_ECAP demo_proto = 2" "EP_ACT_HANDOVER demo_proto = 3"
  "EP_ACT_RAN_SETUP demo_proto = 4" "EP_ACT_RAN_SLICE demo_proto = 5"
  "EP_ACT_UE_REPORT demo_proto = 6" "EP_ACT_UE_MEASURE demo_proto = 7"
  "EP_ACT_CELL_MEASURE demo_proto = 8" "EP_OPERATION_ADD demo_proto = 1"
  "EP_HEADER_SIZE demo_proto = 4"
  "epp_msg_type demo_proto m = uint (hd m)" "epp_msg_length demo_proto m = uint (m ! 1)"
  "epp_dir demo_proto m = 0" "epp_single_type demo_proto m = uint (m ! 2)"
  "epp_trigger_type demo_proto m = uint (m ! 2)" "epp_trigger_op demo_proto m = uint (m ! 3)"
  "epp_head demo_proto m h = (0, h\<lparr>hd_mod := 7\<rparr>)"
  "epp_trigger_uemeas_req demo_proto m u = (0, u\<lparr>nof_rrc := unat (m ! 4)\<rparr>)"
  by (simp_all add: demo_proto_def)

text \<open>A wrapper without an initialisation.\<close>

definition quiet_ops :: em_agent_ops where
  "quiet_ops = all_ops\<lparr>op_init := None\<rparr>"

end
