(* ===== verification/TaskProps.thy ===== *)
theory TaskProps
  imports Demo
begin

text \<open>
  The properties of the leaf components: the log file (\<open>log.c\<close>) and the accounting of task memory
  (\<open>task.c\<close>).
\<close>

text \<open>
  The life of the log file.  \<open>log_init\<close> reports success even when the file cannot be opened; a
  message written between \<open>log_init\<close> and \<open>log_release\<close> is one line of the file of this process,
  with the name of the procedure and the eNB in front, if the file was opened, and a write through
  a null stream otherwise; \<open>log_release\<close> closes the file once and leaves no stream behind.
\<close>

theorem log_file_life:
  "let w1 = snd (log_init w); w2 = EMLOG agent proc msg w1; w3 = log_release w2 in
     fst (log_init w) = 0 \<and> log_fd w3 = None \<and> log_release w3 = w3
     \<and> trace w3 = trace w @
         (if fopen_ok w (fopens w)
          then [EvLog (log_path (pid w))
                  (log_header proc (case agent of None \<Rightarrow> 0 | Some e \<Rightarrow> e)) msg,
                EvLogClose (log_path (pid w))]
          else [EvFault NullStream])"
  by (auto simp: log_init_def log_release_def EMLOG_def log_message_def Let_def emit_def)

text \<open>
  A task that is allocated and freed again costs nothing: the allocation either fails, charging
  nothing, or builds the task its arguments describe, and freeing that task returns what was
  charged.  The one exception is a null message given with a size: the size is charged and never
  returned.
\<close>

theorem task_alloc_then_free:
  "case task_alloc ty intv res trg msg sz w of
     (None, w') \<Rightarrow> \<not> alloc_ok w msg \<and> task_mem w' = task_mem w \<and> trace w' = trace w
   | (Some t, w') \<Rightarrow> alloc_ok w msg \<and> t = task_init ty intv res trg msg sz
       \<and> task_mem w' = task_mem w + block_cost (sizeof_emtask w) sz
       \<and> task_mem (task_free t w') = task_mem w + (if msg = None then sz else 0)
       \<and> trace (task_free t w') = trace w"
proof -
  obtain r w' where a: "task_alloc ty intv res trg msg sz w = (r, w')" by fastforce
  have r: "r = (if alloc_ok w msg then Some (task_init ty intv res trg msg sz) else None)"
    using fst_task_alloc [of ty intv res trg msg sz w] a by simp
  note e = task_alloc_env [where w = w and ty = ty and intv = intv and res = res and trg = trg and
    msg = msg and sz = sz, unfolded a snd_conv]
  show ?thesis
    using e(2) same_but_memD [OF e(1)]
    by (auto simp: a r task_price_def block_cost_def)
qed

text \<open>
  The counter of overflows does not count them.  The test compares a 64-bit sum with the old
  counter, so it fires for no allocation whatever its size, although the 32-bit counter itself
  wraps: it ends up below its old value exactly when the true total no longer fits.
\<close>

theorem task_mem_overflow_unseen:
  assumes "unat (sizeof_emtask w) < 2 ^ 31"
  shows "task_mem_OF (task_mem_add sz w) = task_mem_OF w
    \<and> task_mem (task_mem_add sz w) =
        of_nat (unat (task_mem w) + unat (sizeof_emtask w) + unat sz)
    \<and> (unat (task_mem (task_mem_add sz w)) = unat (task_mem w) + unat (sizeof_emtask w) + unat sz
        \<longleftrightarrow> unat (task_mem w) + unat (sizeof_emtask w) + unat sz < 2 ^ 32)"
proof -
  have s: "task_mem (task_mem_add sz w) = of_nat (unat (task_mem w) + unat (sizeof_emtask w) + unat sz)"
    by (simp add: block_cost_def add.assoc)
  have "\<not> mem_overflows (sizeof_emtask w) sz (task_mem w)"
    using assms by (intro mem_overflows_never) simp
  then have "task_mem_OF (task_mem_add sz w) = task_mem_OF w" by (simp add: task_mem_add_def)
  moreover have "unat (of_nat n :: u32) = n \<longleftrightarrow> n < 2 ^ 32" for n
    by (simp add: unat_of_nat mod_eq_self_iff_div_eq_0 div_eq_0_iff)
  ultimately show ?thesis unfolding s by (intro conjI refl) blast+
qed

theorem task_mem_overflow_unseen_witness:
  "task_mem_OF (task_mem_add 16 (demo_env\<lparr>task_mem := 0xFFFFFFF0\<rparr>)) = 0
   \<and> task_mem (task_mem_add 16 (demo_env\<lparr>task_mem := 0xFFFFFFF0\<rparr>)) = 80"
  using task_mem_overflow_unseen [of "demo_env\<lparr>task_mem := 0xFFFFFFF0\<rparr>" 16]
  by (simp add: demo_env_def block_cost_def)

end
