(* ===== verification/TrigProps.thy ===== *)
theory TrigProps
  imports Triggers Demo
begin

text \<open>
  The properties of the trigger registry.
\<close>

section \<open>Properties\<close>

text \<open>The operations of a context, and any sequence of them from the context \<open>em_start\<close> makes.\<close>

datatype trig_op = TAdd emtri | TDelId i32 | TDelInst u32 int int | TFlush

fun trig_step :: "trig_op \<Rightarrow> trctx \<times> env \<Rightarrow> trctx \<times> env" where
  "trig_step (TAdd t) (ctx, w) = (snd (snd (trig_add ctx t)), w)"
| "trig_step (TDelId i) (ctx, w) = snd (trig_del_by_id ctx i w)"
| "trig_step (TDelInst m ty n) (ctx, w) = snd (trig_del_by_inst ctx m ty n w)"
| "trig_step TFlush (ctx, w) = trig_flush ctx w"

lemma trig_step_next:
  "tx_next (fst (trig_step op s)) =
     (case op of TAdd _ \<Rightarrow> tx_next (fst s) + 1 | _ \<Rightarrow> tx_next (fst s))"
  by (cases op; cases s)
    (auto simp: trig_add_def trig_del_by_id_def trig_del_by_inst_def trig_flush_def Let_def
      split: option.split)

lemma trig_step_wf: "trig_wf (fst s) \<Longrightarrow> trig_room (fst s) \<Longrightarrow> trig_wf (fst (trig_step op s))"
  by (cases op; cases s) (auto intro: trig_wf_preserved)

lemma trig_run_wf:
  assumes "trig_wf (fst s)" and "unat (tx_next (fst s)) + length os < 2 ^ 31"
  shows "trig_wf (fst (fold trig_step os s))"
  using assms
proof (induction os arbitrary: s)
  case (Cons op os)
  have room: "trig_room (fst s)" using Cons.prems(2) by (simp add: trig_room_def)
  then have "trig_wf (fst (trig_step op s))" using Cons.prems(1) by (rule trig_step_wf [rotated])
  moreover have "unat (tx_next (fst (trig_step op s))) \<le> unat (tx_next (fst s)) + 1"
    using room by (auto simp: trig_step_next trig_room_def unat_next split: trig_op.split)
  ultimately show ?case using Cons.IH [of "trig_step op s"] Cons.prems(2) by simp
qed simp

text \<open>
  (C31) Whatever an agent does with its triggers, as long as fewer than \<open>2^31 - 1\<close> operations have
  been made: the identifiers of the triggers it holds are distinct, positive as a C \<open>int\<close>, and
  below the counter.
\<close>

theorem trig_ids_unique:
  assumes "length os < 2 ^ 31 - 1"
  shows "distinct (map tr_id (tx_ts (fst (fold trig_step os (trig_ctx_init, w)))))
    \<and> (\<forall>t \<in> set (tx_ts (fst (fold trig_step os (trig_ctx_init, w)))). 0 <s tr_id t
          \<and> unat (tr_id t) < unat (tx_next (fst (fold trig_step os (trig_ctx_init, w)))))"
proof -
  have "unat (tx_next trig_ctx_init) + length os < 2 ^ 31"
    using assms by (simp add: trig_ctx_init_def)
  then have "trig_wf (fst (fold trig_step os (trig_ctx_init, w)))"
    using trig_wf_init by (intro trig_run_wf) simp_all
  then show ?thesis by (auto simp: trig_wf_def sless_pos simp del: unat_gt_0)
qed

theorem trig_ids_unique_witness:
  "0 <s tr_id (hd (tx_ts (fst (fold trig_step [TAdd zero_trig, TAdd zero_trig, TDelId 1]
     (trig_ctx_init, demo_env)))))"
  using trig_ids_unique [of "[TAdd zero_trig, TAdd zero_trig, TDelId 1]" demo_env]
  by (simp add: trig_add_def trig_del_by_id_def trig_ctx_init_def zero_trig_def Let_def)

text \<open>
  A trigger that is added can be found under the identifier it was given; every other trigger
  is found as before, and the identifier was not in use.
\<close>

theorem trig_add_then_find:
  assumes "trig_wf ctx" and "trig_add ctx t = (i, t', ctx')"
  shows "trig_find_by_id ctx' i = Some t' \<and> t' = t\<lparr>tr_id := i\<rparr> \<and> trig_find_by_id ctx i = None
    \<and> (\<forall>j. j \<noteq> i \<longrightarrow> trig_find_by_id ctx' j = trig_find_by_id ctx j)"
  using tr.enter_fresh [OF assms(1), of t] tr.find_enter_same [of ctx t]
    tr.find_enter_other [of _ ctx t] assms(2)
  by (auto simp: trig_add_def Let_def)

theorem trig_add_then_find_witness:
  "trig_find_by_id (snd (snd (trig_add trig_ctx_init zero_trig))) 1 = Some (zero_trig\<lparr>tr_id := 1\<rparr>)"
  using trig_add_then_find [OF trig_wf_init, of zero_trig]
  by (simp add: trig_add_def trig_ctx_init_def Let_def zero_trig_def)

text \<open>
  Deleting by identifier returns 0 exactly when the identifier was in use; afterwards it is
  not, all other triggers are still found, and exactly the memory of the deleted one is returned.
\<close>

theorem trig_del_by_id_correct:
  assumes "trig_wf ctx" and "trig_del_by_id ctx i w = (r, ctx', w')"
    and "trig_mem w = trigs_bytes w (tx_ts ctx) + k"
  shows "(r = 0 \<longleftrightarrow> trig_find_by_id ctx i \<noteq> None) \<and> (r \<noteq> 0 \<longrightarrow> r = - 1 \<and> ctx' = ctx \<and> w' = w)
    \<and> trig_find_by_id ctx' i = None
    \<and> (\<forall>j. j \<noteq> i \<longrightarrow> trig_find_by_id ctx' j = trig_find_by_id ctx j)
    \<and> trig_mem w' = trigs_bytes w' (tx_ts ctx') + k"
proof -
  have ctx': "ctx' = trig_drop ctx i" using assms(2) trig_del_by_id_ctx [of ctx i w] by simp
  have mem: "trig_mem w' = trigs_bytes w' (tx_ts ctx') + k"
    using assms(2,3) sum_delete_first [where f = "trig_price w" and P = "\<lambda>t. tr_id t = i"]
    by (auto simp: trig_del_by_id_def trigs_bytes_def trig_price_def split: option.splits)
  have "(r = 0 \<longleftrightarrow> trig_find_by_id ctx i \<noteq> None) \<and> (r \<noteq> 0 \<longrightarrow> r = - 1 \<and> ctx' = ctx \<and> w' = w)"
    using assms(2) by (auto simp: trig_del_by_id_def trig_find_by_id_def split: option.splits)
  then show ?thesis
    using tr.find_drop_same [OF assms(1), of i] tr.find_drop_other [of _ i ctx] ctx' mem by auto
qed

definition trig_ctx_two :: trctx where
  "trig_ctx_two = \<lparr>tx_ts = [zero_trig\<lparr>tr_id := 2\<rparr>, zero_trig\<lparr>tr_id := 1\<rparr>], tx_next = 3\<rparr>"

theorem trig_del_by_id_correct_witness:
  "trig_find_by_id (fst (snd (trig_del_by_id trig_ctx_two 1 demo_env))) 1 = None"
proof -
  have "trig_wf trig_ctx_two" by (simp add: trig_wf_def trig_ctx_two_def zero_trig_def)
  moreover obtain r c v where "trig_del_by_id trig_ctx_two 1 demo_env = (r, c, v)"
    by (cases "trig_del_by_id trig_ctx_two 1 demo_env")
  moreover have "trig_mem demo_env = trigs_bytes demo_env (tx_ts trig_ctx_two)
      + (trig_mem demo_env - trigs_bytes demo_env (tx_ts trig_ctx_two))" by simp
  ultimately show ?thesis
    using trig_del_by_id_correct [of trig_ctx_two 1 demo_env r c v
        "trig_mem demo_env - trigs_bytes demo_env (tx_ts trig_ctx_two)"] by simp
qed

text \<open>
  Deleting by module, type and instance: with no such trigger nothing changes and the result is
  -1; otherwise the result is 0 and exactly the first such trigger of the list goes, the one added
  last, while all others keep their place.
\<close>

theorem trig_del_by_inst_correct:
  "trig_del_by_inst ctx m ty n w =
     (case trig_find_by_inst ctx m ty n of
        None \<Rightarrow> (- 1, ctx, w)
      | Some t \<Rightarrow> (0, ctx\<lparr>tx_ts := delete_first (inst_key m ty n) (tx_ts ctx)\<rparr>, trig_free t w))
   \<and> (\<forall>t. trig_find_by_inst ctx m ty n = Some t \<longrightarrow>
        (\<exists>us vs. tx_ts ctx = us @ t # vs \<and> inst_key m ty n t \<and> (\<forall>u \<in> set us. \<not> inst_key m ty n u)
          \<and> delete_first (inst_key m ty n) (tx_ts ctx) = us @ vs))"
proof -
  have "\<exists>us vs. tx_ts ctx = us @ t # vs \<and> inst_key m ty n t \<and> (\<forall>u \<in> set us. \<not> inst_key m ty n u)
      \<and> delete_first (inst_key m ty n) (tx_ts ctx) = us @ vs"
    if "trig_find_by_inst ctx m ty n = Some t" for t
    using that unfolding trig_find_by_inst_def
    by (rule find_split) (auto simp: delete_first_split)
  then show ?thesis by (auto simp: trig_del_by_inst_def trig_find_by_inst_def split: option.split)
qed

theorem trig_del_by_inst_correct_witness:
  "trig_del_by_inst trig_ctx_two 0 0 0 demo_env =
     (0, trig_ctx_two\<lparr>tx_ts := [zero_trig\<lparr>tr_id := 1\<rparr>]\<rparr>, trig_free (zero_trig\<lparr>tr_id := 2\<rparr>) demo_env)"
  using trig_del_by_inst_correct [of trig_ctx_two 0 0 0 demo_env]
  by (simp add: trig_ctx_two_def trig_find_by_inst_def inst_key_def zero_trig_def)

end
