(* ===== verification/Sched.thy ===== *)
theory Sched
  imports Agent
begin

text \<open>
  \<open>src/agent/sched.c\<close>: the scheduler.  \<open>sched_perform_*\<close> carry out one task each,
  \<open>sched_perform_job\<close> decides whether a task is due and what becomes of it, \<open>sched_consume\<close>
  empties the job queue once.
\<close>

section \<open>Utilities\<close>

datatype task_res = TASK_NET_ERROR | TASK_CONSUMED | TASK_NOT_ELAPSED | TASK_RESCHEDULE

text \<open>C division truncates, also for the difference of the nanoseconds, which may be negative.\<close>

definition ts_diff_to_ms :: "timespec \<Rightarrow> timespec \<Rightarrow> int" where
  "ts_diff_to_ms a b = (tv_sec b - tv_sec a) * 1000 + (tv_nsec b - tv_nsec a) sdiv 1000000"

text \<open>The loop \<open>for(i = 0; i < det->nof_users && i < EP_RAN_USERS_MAX; i++)\<close>, from \<open>i\<close>.\<close>

function copy_users ::
    "emproto \<Rightarrow> ep_ran_slice_det \<Rightarrow> nat \<Rightarrow> u16 list \<Rightarrow> u16 list" where
  "copy_users P det i us =
     (if int i < sd_nof_users det \<and> i < EP_RAN_USERS_MAX P
      then copy_users P det (Suc i) (us[i := sd_users det i])
      else us)"
  by pat_completeness auto
termination
  by (relation "measure (\<lambda>(P, det, i, us). EP_RAN_USERS_MAX P - i)") auto

declare copy_users.simps [simp del]

definition sched_to_RANconf :: "emproto \<Rightarrow> ep_ran_slice_det \<Rightarrow> em_RAN_conf \<Rightarrow> em_RAN_conf" where
  "sched_to_RANconf P det conf =
     conf\<lparr>l2 := (l2 conf)\<lparr>user_sched := sd_usched det, rbg := sd_rbgs det\<rparr>,
          users := copy_users P det 0 (users conf),
          nof_users := sd_nof_users det\<rparr>"

definition zero_conf :: "emproto \<Rightarrow> em_RAN_conf" where
  "zero_conf P = \<lparr>nof_users = 0, users = replicate (EP_RAN_USERS_MAX P) 0,
     l2 = \<lparr>user_sched = 0, rbg = 0\<rparr>\<rparr>"

definition zero_det :: ep_ran_slice_det where
  "zero_det = \<lparr>sd_nof_users = 0, sd_users = (\<lambda>_. 0), sd_usched = 0, sd_rbgs = 0\<rparr>"

definition zero_hdr :: ep_hdr where
  "zero_hdr = \<lparr>hd_type = 0, hd_cell = 0, hd_mod = 0\<rparr>"

text \<open>
  \<open>epf_seq\<close> writes the sequence number into the caller's buffer, which is returned.
\<close>

definition sched_send_msg ::
    "emproto \<Rightarrow> emage \<Rightarrow> bytes \<Rightarrow> u32 \<Rightarrow> env \<Rightarrow> task_res \<times> bytes \<times> emage \<times> env" where
  "sched_send_msg P a msg sz w =
     (if unat sz > EM_BUF_SIZE
      then (TASK_CONSUMED, msg, a,
            EMLOG (Some (enb_id a)) ''sched_send_msg'' ''Message too long, msg=%lu, limit=%d!'' w)
      else
        let (s, n) = net_next_seq (Some (net a));
            a = (case n of Some n \<Rightarrow> a\<lparr>net := n\<rparr> | None \<Rightarrow> a);
            msg = epf_seq P msg s;
            (r, w) = net_send (net a) msg sz w
        in if r < 0 then (TASK_NET_ERROR, msg, a, w) else (TASK_CONSUMED, msg, a, w))"

section \<open>Tasks\<close>

definition sched_perform_send ::
    "emproto \<Rightarrow> emage \<Rightarrow> emtask \<Rightarrow> env \<Rightarrow> task_res \<times> emage \<times> emtask \<times> env" where
  "sched_perform_send P a task w =
     (let (r, m, a, w) = sched_send_msg P a (buf_of (tk_msg task)) (tk_msg_size task) w
      in (r, a, task\<lparr>tk_msg := map_option (\<lambda>_. m) (tk_msg task)\<rparr>, w))"

definition sched_perform_enb_setup :: "emproto \<Rightarrow> emage \<Rightarrow> emtask \<Rightarrow> env \<Rightarrow> task_res \<times> env" where
  "sched_perform_enb_setup P a task w =
     (let (e, hd) = epp_head P (buf_of (tk_msg task)) zero_hdr in
      if e \<noteq> 0 then (TASK_CONSUMED, w)
      else (TASK_CONSUMED,
            if has_op a op_enb_setup_request
            then call (enb_id a) (CbEnbSetupRequest (hd_mod hd)) w else w))"

definition sched_perform_ho :: "emproto \<Rightarrow> emage \<Rightarrow> emtask \<Rightarrow> env \<Rightarrow> task_res \<times> env" where
  "sched_perform_ho P a task w =
     (let (e, hd) = epp_head P (buf_of (tk_msg task)) zero_hdr in
      if e \<noteq> 0 then (TASK_CONSUMED, w)
      else
        let (e, h) = epp_single_ho_req P (buf_of (tk_msg task))
                       \<lparr>ho_rnti = 0, ho_tenb = 0, ho_tcell = 0, ho_cause = 0\<rparr> in
        if e \<noteq> 0 then (TASK_CONSUMED, w)
        else (TASK_CONSUMED,
              if has_op a op_handover_UE
              then call (enb_id a) (CbHandoverUE (hd_mod hd) (hd_cell hd) (ho_rnti h) (ho_tenb h)
                     (ho_tcell h) (ho_cause h)) w
              else w))"

text \<open>\<open>for(; m.nof_rrc > 0; m.nof_rrc--)\<close>: the measures are reported from the last to the first.\<close>

fun ue_measure_calls :: "emage \<Rightarrow> emtri \<Rightarrow> (nat \<Rightarrow> ep_rrc) \<Rightarrow> nat \<Rightarrow> env \<Rightarrow> env" where
  "ue_measure_calls a t m 0 w = w"
| "ue_measure_calls a t m (Suc n) w =
     ue_measure_calls a t m n
       (call (enb_id a) (CbUeMeasure (tr_mod t) (tr_id t) (meas_id (m n)) (rnti (m n))
          (earfcn (m n)) (interval (m n)) (max_cells (m n)) (max_meas (m n))) w)"

definition sched_perform_ue_measure ::
    "emproto \<Rightarrow> stack_garbage \<Rightarrow> emage \<Rightarrow> emtask \<Rightarrow> env \<Rightarrow> task_res \<times> env" where
  "sched_perform_ue_measure P g a task w =
     (if has_op a op_ue_measure
      then case trig_find_by_id (trig a) (tk_trig task) of
          None \<Rightarrow> (TASK_CONSUMED,
            EMLOG (Some (enb_id a)) ''sched_perform_ue_measure'' ''Trigger %d not found'' w)
        | Some t \<Rightarrow>
            let (e, m) = epp_trigger_uemeas_req P (buf_of (tr_msg t)) (g_meas g) in
            if e \<noteq> 0 then (TASK_CONSUMED, w)
            else (TASK_CONSUMED, ue_measure_calls a t (rrc m) (nof_rrc m) w)
      else (TASK_CONSUMED, w))"

definition sched_perform_cell_meas ::
    "emproto \<Rightarrow> stack_garbage \<Rightarrow> emage \<Rightarrow> emtask \<Rightarrow> env \<Rightarrow> task_res \<times> env" where
  "sched_perform_cell_meas P g a task w =
     (if has_op a op_cell_measure
      then if 0 <s tk_trig task
        then case trig_find_by_id (trig a) (tk_trig task) of
            None \<Rightarrow> (TASK_CONSUMED, w)
          | Some t \<Rightarrow>
              let (e, hd) = epp_head P (buf_of (tr_msg t)) ((g_hdr g)\<lparr>hd_mod := 0\<rparr>) in
              if e \<noteq> 0 then (TASK_CONSUMED, w)
              else if epp_trigger_cell_meas_req P (buf_of (tr_msg t)) \<noteq> 0 then (TASK_CONSUMED, w)
              else (TASK_CONSUMED,
                call (enb_id a) (CbCellMeasure (hd_cell hd) (tr_mod t) 0 (tr_id t)) w)
        else
          let (e, hd) = epp_head P (buf_of (tk_msg task)) ((g_hdr g)\<lparr>hd_mod := 0\<rparr>) in
          if e \<noteq> 0 then (TASK_CONSUMED, w)
          else
            let (e, intv) = epp_sched_cell_meas_req P (buf_of (tk_msg task)) (g_intv g) in
            if e \<noteq> 0 then (TASK_CONSUMED, w)
            else (TASK_CONSUMED,
              call (enb_id a) (CbCellMeasure (hd_cell hd) (hd_mod hd) intv (- 1)) w)
      else (TASK_CONSUMED, w))"

definition sched_perform_ue_report :: "emage \<Rightarrow> emtask \<Rightarrow> env \<Rightarrow> task_res \<times> env" where
  "sched_perform_ue_report a task w =
     (TASK_CONSUMED,
      if has_op a op_ue_report
      then call (enb_id a) (CbUeReport (tk_mod task) (tk_trig task)) w else w)"

text \<open>The message is built in a local buffer of 64 zero bytes.\<close>

definition sched_perform_hello ::
    "emproto \<Rightarrow> emage \<Rightarrow> emtask \<Rightarrow> env \<Rightarrow> task_res \<times> emage \<times> env" where
  "sched_perform_hello P a task w =
     (let (blen, buf) = epf_sched_hello_req P (replicate 64 0) (enb_id a) (tk_elapse task) in
      if blen < 0
      then (TASK_CONSUMED, a,
            EMLOG (Some (enb_id a)) ''sched_perform_hello'' ''Cannot parse Hello, error %d'' w)
      else
        let (r, m, a, w) = sched_send_msg P a buf (word_of_int blen) w in (r, a, w))"

text \<open>Here the status of \<open>epp_head\<close> is not looked at.\<close>

definition sched_perform_ran_setup :: "emproto \<Rightarrow> emage \<Rightarrow> emtask \<Rightarrow> env \<Rightarrow> task_res \<times> env" where
  "sched_perform_ran_setup P a task w =
     (let (e, hd) = epp_head P (buf_of (tk_msg task)) zero_hdr in
      (TASK_CONSUMED,
       if has_op a (\<lambda>t. setup_request (op_ran t))
       then call (enb_id a) (CbRanSetupRequest (hd_mod hd)) w else w))"

text \<open>Nor here; the \<open>switch\<close> on the operation is the chain of tests, in its order.\<close>

definition sched_perform_ran_slice :: "emproto \<Rightarrow> emage \<Rightarrow> emtask \<Rightarrow> env \<Rightarrow> task_res \<times> env" where
  "sched_perform_ran_slice P a task w =
     (case ops a of None \<Rightarrow> (TASK_CONSUMED, w)
      | Some t \<Rightarrow>
        let msg = buf_of (tk_msg task);
            (e, hd) = epp_head P msg zero_hdr;
            act = epp_single_type P msg;
            op = epp_single_op P msg;
            m = hd_mod hd
        in (TASK_CONSUMED,
            if op = EP_OPERATION_UNSPECIFIED P then
              (if slice_request (op_ran t)
               then let (e, i) = epp_single_ran_slice_req P msg 0
                    in if e \<noteq> 0 then w else call (enb_id a) (CbSliceRequest m i) w
               else w)
            else if op = EP_OPERATION_ADD P then
              (if slice_add (op_ran t)
               then let (e, i, det) = epp_single_ran_slice_add P msg (0, zero_det)
                    in if e \<noteq> 0 then w
                       else call (enb_id a)
                              (CbSliceAdd m i (sched_to_RANconf P det (zero_conf P))) w
               else w)
            else if op = EP_OPERATION_REM P then
              (if slice_rem (op_ran t)
               then let (e, i) = epp_single_ran_slice_rem P msg 0
                    in if e \<noteq> 0 then w else call (enb_id a) (CbSliceRem m i) w
               else w)
            else if op = EP_OPERATION_SET P then
              (if slice_conf (op_ran t)
               then let (e, i, det) = epp_single_ran_slice_set P msg (0, zero_det)
                    in if e \<noteq> 0 then w
                       else call (enb_id a)
                              (CbSliceConf m i (sched_to_RANconf P det (zero_conf P))) w
               else w)
            else w))"

section \<open>Generic procedures\<close>

text \<open>The \<open>switch\<close> on the type of a task that is due.\<close>

definition sched_dispatch ::
    "emproto \<Rightarrow> stack_garbage \<Rightarrow> emage \<Rightarrow> emtask \<Rightarrow> env \<Rightarrow> task_res \<times> emage \<times> emtask \<times> env" where
  "sched_dispatch P g a task w =
     (let ty = tk_type task; keep = (\<lambda>(r, w). (r, a, task, w)) in
      if ty = TASK_TYPE_SEND then sched_perform_send P a task w
      else if ty = TASK_TYPE_HELLO then
        (let (r, a, w) = sched_perform_hello P a task w in (r, a, task, w))
      else if ty = TASK_TYPE_ENB_SETUP then keep (sched_perform_enb_setup P a task w)
      else if ty = TASK_TYPE_UE_REPORT then keep (sched_perform_ue_report a task w)
      else if ty = TASK_TYPE_UE_MEASURE then keep (sched_perform_ue_measure P g a task w)
      else if ty = TASK_TYPE_CELL_MEASURE then keep (sched_perform_cell_meas P g a task w)
      else if ty = TASK_TYPE_HO then keep (sched_perform_ho P a task w)
      else if ty = TASK_TYPE_RAN_SETUP then keep (sched_perform_ran_setup P a task w)
      else if ty = TASK_TYPE_RAN_SLICE then keep (sched_perform_ran_slice P a task w)
      else (TASK_CONSUMED, a, task, w))"

definition sched_perform_job ::
    "emproto \<Rightarrow> stack_garbage \<Rightarrow> emage \<Rightarrow> emtask \<Rightarrow> timespec \<Rightarrow> env
      \<Rightarrow> task_res \<times> emage \<times> emtask \<times> env" where
  "sched_perform_job P g a task now w =
     (if ts_diff_to_ms (tk_issued task) now < tk_elapse task
      then (TASK_NOT_ELAPSED, a, task, w)
      else
        let (s, a, task, w) = sched_dispatch P g a task w in
        if s = TASK_CONSUMED \<and> tk_resch task \<noteq> 0
        then (TASK_RESCHEDULE, a, task, w)
        else (s, a, task, w))"

text \<open>
  The error branch of \<open>sched_consume\<close>: both queues are freed, the triggers flushed, the wrapper
  told and the connection closed.  \<open>a->ops->disconnected\<close> is read without a test of \<open>a->ops\<close>.
\<close>

definition sched_net_error :: "emage \<Rightarrow> env \<Rightarrow> emage \<times> env" where
  "sched_net_error a w =
     (let w = task_free_all (sc_todo (sched a)) w;
          a = a\<lparr>sched := (sched a)\<lparr>sc_todo := []\<rparr>\<rparr>;
          w = task_free_all (sc_jobs (sched a)) w;
          a = a\<lparr>sched := (sched a)\<lparr>sc_jobs := []\<rparr>\<rparr>;
          (ctx, w) = trig_flush (trig a) w;
          a = a\<lparr>trig := ctx\<rparr>;
          w = (case ops a of
                 None \<Rightarrow> emit (EvFault NullPointer) w
               | Some t \<Rightarrow> if op_disconnected t then call (enb_id a) CbDisconnected w else w)
      in agent_not_connected a w)"

text \<open>\<open>list_add(&task->next, &ctx->todo)\<close>\<close>

definition todo_push :: "emtask \<Rightarrow> emage \<Rightarrow> emage" where
  "todo_push task a = a\<lparr>sched := (sched a)\<lparr>sc_todo := task # sc_todo (sched a)\<rparr>\<rparr>"

text \<open>The task as it is put back by \<open>TASK_RESCHEDULE\<close>: one credit less, unless it has none to lose.\<close>

definition task_again :: "timespec \<Rightarrow> emtask \<Rightarrow> emtask" where
  "task_again now task =
     task\<lparr>tk_issued := now,
          tk_resch := (if tk_resch task > 0 then tk_resch task - 1 else tk_resch task)\<rparr>"

text \<open>One turn of the \<open>while\<close>, from the task taken off the queue; \<open>True\<close> is the early return.\<close>

definition sched_turn ::
    "emproto \<Rightarrow> stack_garbage \<Rightarrow> emage \<Rightarrow> emtask \<Rightarrow> env \<Rightarrow> bool \<times> emage \<times> env" where
  "sched_turn P g a task w =
     (let (now, w) = clock_gettime w;
          (op, a, task, w) = sched_perform_job P g a task now w
      in case op of
           TASK_NOT_ELAPSED \<Rightarrow> (False, todo_push task a, w)
         | TASK_RESCHEDULE \<Rightarrow> (False, todo_push (task_again now task) a, w)
         | TASK_CONSUMED \<Rightarrow> (False, a, task_free task w)
         | TASK_NET_ERROR \<Rightarrow>
             let (a, w) = sched_net_error a (task_free task w) in (True, a, w))"

lemma sched_send_msg_sched:
  "sched_send_msg P a m sz w = (r, m', a', w') \<Longrightarrow>
     sched a' = sched a \<and> trig a' = trig a \<and> ops a' = ops a \<and> enb_id a' = enb_id a"
  by (auto simp: sched_send_msg_def Let_def split: if_splits prod.splits)

lemma sched_dispatch_frame:
  assumes "sched_dispatch P g a task w = (r, a', task', w')"
  shows "sched a' = sched a \<and> trig a' = trig a \<and> ops a' = ops a \<and> enb_id a' = enb_id a"
    and "tk_resch task' = tk_resch task \<and> tk_type task' = tk_type task
      \<and> tk_msg_size task' = tk_msg_size task \<and> tk_elapse task' = tk_elapse task
      \<and> tk_trig task' = tk_trig task \<and> tk_mod task' = tk_mod task"
  using assms
  by (auto simp: sched_dispatch_def sched_perform_send_def sched_perform_hello_def Let_def
      split: if_splits prod.splits dest: sched_send_msg_sched)

lemma sched_perform_job_frame:
  assumes "sched_perform_job P g a task now w = (r, a', task', w')"
  shows "sched a' = sched a \<and> trig a' = trig a \<and> ops a' = ops a \<and> enb_id a' = enb_id a"
    and "tk_resch task' = tk_resch task \<and> tk_type task' = tk_type task
      \<and> tk_msg_size task' = tk_msg_size task \<and> tk_elapse task' = tk_elapse task
      \<and> tk_trig task' = tk_trig task \<and> tk_mod task' = tk_mod task"
  using assms sched_dispatch_frame [of P g a task w]
  by (auto simp: sched_perform_job_def Let_def split: if_splits prod.splits)

lemma sched_turn_jobs:
  "sched_turn P g a task w = (False, a', w') \<Longrightarrow> sc_jobs (sched a') = sc_jobs (sched a)"
  by (auto simp: sched_turn_def todo_push_def Let_def dest!: sched_perform_job_frame(1)
      split: prod.splits task_res.splits)

text \<open>
  The \<open>while\<close> of \<open>sched_consume\<close>.  Every turn takes one task off the queue and none puts one on
  it, so the loop ends with the queue.
\<close>

definition jobs_pop :: "emage \<Rightarrow> emage" where
  "jobs_pop a = a\<lparr>sched := (sched a)\<lparr>sc_jobs := tl (sc_jobs (sched a))\<rparr>\<rparr>"

function sched_consume_loop ::
    "emproto \<Rightarrow> stack_garbage \<Rightarrow> emage \<Rightarrow> env \<Rightarrow> bool \<times> emage \<times> env" where
  "sched_consume_loop P g a w =
     (case sc_jobs (sched a) of
        [] \<Rightarrow> (False, a, w)
      | task # _ \<Rightarrow>
          (case sched_turn P g (jobs_pop a) task w of
             (True, a, w) \<Rightarrow> (True, a, w)
           | (False, a, w) \<Rightarrow> sched_consume_loop P g a w))"
  by pat_completeness auto
termination
  by (relation "measure (\<lambda>(P, g, a, w). length (sc_jobs (sched a)))")
    (auto simp: jobs_pop_def dest!: sched_turn_jobs [OF sym])

declare sched_consume_loop.simps [simp del]

text \<open>
  After the loop the tasks to do again move to the job queue, one by one to its front; the
  deferred list was filled at its front too.
\<close>

definition sched_requeue :: "emage \<Rightarrow> emage" where
  "sched_requeue a =
     a\<lparr>sched := (sched a)\<lparr>sc_jobs := rev (sc_todo (sched a)) @ sc_jobs (sched a),
                          sc_todo := []\<rparr>\<rparr>"

definition sched_consume ::
    "emproto \<Rightarrow> stack_garbage \<Rightarrow> emage \<Rightarrow> env \<Rightarrow> int \<times> emage \<times> env" where
  "sched_consume P g a w =
     (case sched_consume_loop P g a w of
        (True, a, w) \<Rightarrow> (0, a, w)
      | (False, a, w) \<Rightarrow> (0, sched_requeue a, w))"

end
