(* ===== verification/SchedFacts.thy ===== *)
theory SchedFacts
  imports Sched "HOL-Library.Sublist"
begin

text \<open>
  What the scheduler guarantees: when a task runs, what is sent, what a pass over the queue keeps
  and in which order, what happens on a network error, and that no task is lost or freed twice.
\<close>

section \<open>Time\<close>

lemma sdiv_pos: "0 \<le> (x :: int) \<Longrightarrow> x sdiv 1000000 = x div 1000000"
  and sdiv_neg: "(x :: int) < 0 \<Longrightarrow> x sdiv 1000000 = - ((- x) div 1000000)"
  by (simp_all add: signed_divide_int_def sgn_if)

text \<open>Truncation loses less than a millisecond, in either direction.\<close>

lemma sdiv_close:
  "(x :: int) sdiv 1000000 * 1000000 < x + 1000000"
  "x - 1000000 < x sdiv 1000000 * 1000000"
  using div_mult_mod_eq [of x 1000000] pos_mod_bound [of 1000000 x] pos_mod_sign [of 1000000 x]
    div_mult_mod_eq [of "- x" 1000000] pos_mod_bound [of 1000000 "- x"]
    pos_mod_sign [of 1000000 "- x"]
  by (cases "0 \<le> x"; simp add: sdiv_pos sdiv_neg)+

lemma sdiv_mono:
  assumes "(x :: int) \<le> y"
  shows "x sdiv 1000000 \<le> y sdiv 1000000"
proof (cases "0 \<le> x")
  case True
  with assms show ?thesis by (simp add: sdiv_pos zdiv_mono1)
next
  case neg: False
  show ?thesis
  proof (cases "0 \<le> y")
    case True
    have "0 \<le> (- x) div 1000000" "0 \<le> y div 1000000"
      using neg True by (simp_all add: pos_imp_zdiv_nonneg_iff)
    with neg True show ?thesis by (simp add: sdiv_pos sdiv_neg)
  next
    case False
    have "(- y) div 1000000 \<le> (- x) div 1000000" using assms by (simp add: zdiv_mono1)
    with neg False show ?thesis by (simp add: sdiv_neg)
  qed
qed

lemma sdiv_step: "(x + 999999999) sdiv 1000000 \<le> (x :: int) sdiv 1000000 + 1000"
proof -
  consider "0 \<le> x" | "x < 0" "0 \<le> x + 999999999" | "x + 999999999 < 0" by linarith
  then show ?thesis
  proof cases
    case 1
    then have "(x + 999999999) div 1000000 \<le> (x + 1000 * 1000000) div 1000000"
      by (intro zdiv_mono1) simp_all
    with 1 show ?thesis by (simp add: sdiv_pos)
  next
    case 2
    then have "(x + 999999999) div 1000000 \<le> 999999999 div 1000000"
      and "(- x) div 1000000 \<le> 999999999 div 1000000"
      by (intro zdiv_mono1; simp)+
    with 2 show ?thesis by (simp add: sdiv_pos sdiv_neg)
  next
    case 3
    then have "(- x) div 1000000 \<le> (- x - 999999999 + 1000 * 1000000) div 1000000"
      by (intro zdiv_mono1) simp_all
    with 3 show ?thesis by (simp add: sdiv_neg)
  qed
qed

lemma ts_diff_close:
  "ts_diff_to_ms a b * 1000000 < ts_ns b - ts_ns a + 1000000"
  "ts_ns b - ts_ns a - 1000000 < ts_diff_to_ms a b * 1000000"
  using sdiv_close [of "tv_nsec b - tv_nsec a"]
  by (simp_all add: ts_diff_to_ms_def ts_ns_def algebra_simps)

lemma ts_diff_mono:
  assumes "ts_normal b" and "ts_normal c" and "b \<le> c"
  shows "ts_diff_to_ms a b \<le> ts_diff_to_ms a c"
proof (cases "tv_sec b = tv_sec c")
  case True
  with assms(3) have "tv_nsec b \<le> tv_nsec c" by (simp add: less_eq_timespec_def)
  with True show ?thesis by (simp add: ts_diff_to_ms_def sdiv_mono)
next
  case False
  then have "tv_sec b + 1 \<le> tv_sec c" using assms(3) by (auto simp: less_eq_timespec_def)
  moreover have "(tv_nsec b - tv_nsec a) sdiv 1000000 \<le> (tv_nsec c - tv_nsec a) sdiv 1000000 + 1000"
  proof -
    have "tv_nsec b - tv_nsec a \<le> (tv_nsec c - tv_nsec a) + 999999999"
      using assms by (simp add: ts_normal_def)
    then have "(tv_nsec b - tv_nsec a) sdiv 1000000 \<le> (tv_nsec c - tv_nsec a + 999999999) sdiv 1000000"
      by (rule sdiv_mono)
    also have "\<dots> \<le> (tv_nsec c - tv_nsec a) sdiv 1000000 + 1000"
      by (rule sdiv_step)
    finally show ?thesis .
  qed
  ultimately show ?thesis by (simp add: ts_diff_to_ms_def)
qed

section \<open>Results of a task\<close>

text \<open>Only the two sending tasks can report a network error, and only when \<open>send\<close> failed.\<close>

lemma sched_send_msg_error:
  "sched_send_msg P a m sz w = (TASK_NET_ERROR, m', a', w') \<Longrightarrow> send_ret w (sends w) < 0"
  by (auto simp: sched_send_msg_def net_send_def send_def Let_def split: if_splits prod.splits)

lemma sched_send_msg_res:
  "sched_send_msg P a m sz w = (r, m', a', w') \<Longrightarrow> r = TASK_NET_ERROR \<or> r = TASK_CONSUMED"
  by (auto simp: sched_send_msg_def Let_def split: if_splits prod.splits)

lemma sched_dispatch_res:
  assumes "sched_dispatch P g a task w = (r, a', task', w')"
  shows "r = TASK_CONSUMED \<or> r = TASK_NET_ERROR \<and> send_ret w (sends w) < 0
    \<and> (tk_type task = TASK_TYPE_SEND \<or> tk_type task = TASK_TYPE_HELLO)"
  using assms
  by (auto simp: sched_dispatch_def sched_perform_send_def sched_perform_hello_def
      sched_perform_enb_setup_def sched_perform_ue_report_def sched_perform_ue_measure_def
      sched_perform_cell_meas_def sched_perform_ho_def sched_perform_ran_setup_def
      sched_perform_ran_slice_def Let_def
      split: if_splits prod.splits option.splits
      dest: sched_send_msg_res sched_send_msg_error)

text \<open>Carrying out a task neither allocates nor frees.\<close>

definition same_heap :: "env \<Rightarrow> env \<Rightarrow> bool" where
  "same_heap w w' \<longleftrightarrow> task_mem w' = task_mem w \<and> trig_mem w' = trig_mem w
     \<and> sizeof_emtask w' = sizeof_emtask w \<and> sizeof_emtri w' = sizeof_emtri w
     \<and> log_fd w' = log_fd w \<and> clock w' = clock w \<and> send_ret w' = send_ret w
     \<and> malloc_ok w' = malloc_ok w \<and> mallocs w' = mallocs w"

lemma same_heap_refl [simp]: "same_heap w w"
  by (simp add: same_heap_def)

lemma same_heap_emit [simp]: "same_heap w (emit e w)" "same_heap w (call enb cb w)"
  "same_heap w (EMLOG a p x w)"
  by (simp_all add: same_heap_def call_def)

lemma same_heap_trans [trans]: "same_heap u v \<Longrightarrow> same_heap v w \<Longrightarrow> same_heap u w"
  by (simp add: same_heap_def)

lemma same_heap_ue_measure_calls [simp]: "same_heap w (ue_measure_calls a t m n w)"
  by (induction n arbitrary: w) (auto intro: same_heap_trans [OF same_heap_emit(2)])

lemma same_heap_sched_send_msg:
  "sched_send_msg P a m sz w = (r, m', a', w') \<Longrightarrow> same_heap w w'"
  by (auto simp: sched_send_msg_def net_send_def send_def Let_def same_heap_def
      split: if_splits prod.splits)

lemma same_heap_dispatch:
  "sched_dispatch P g a task w = (r, a', task', w') \<Longrightarrow> same_heap w w'"
  by (auto simp: sched_dispatch_def sched_perform_send_def sched_perform_hello_def
      sched_perform_enb_setup_def sched_perform_ue_report_def sched_perform_ue_measure_def
      sched_perform_cell_meas_def sched_perform_ho_def sched_perform_ran_setup_def
      sched_perform_ran_slice_def Let_def
      split: if_splits prod.splits option.splits
      dest: same_heap_sched_send_msg)

section \<open>One turn of the loop\<close>

text \<open>What identifies a task through its life: everything but its time stamp, its credit and the
  sequence number written into its message.\<close>

definition task_key :: "emtask \<Rightarrow> int \<times> i32 \<times> u32 \<times> u32 \<times> int" where
  "task_key t = (tk_type t, tk_trig t, tk_mod t, tk_msg_size t, tk_elapse t)"

lemma task_price_key: "task_key t = task_key u \<Longrightarrow> task_price w t = task_price w u"
  by (simp add: task_key_def task_price_def)

text \<open>The four outcomes of a task, by whether it is due, whether \<open>send\<close> failed and whether it has
  credit left.\<close>

lemma sched_perform_job_cases:
  assumes "sched_perform_job P g a t now w = (r, a', t', w')"
  obtains (early) "ts_diff_to_ms (tk_issued t) now < tk_elapse t" "r = TASK_NOT_ELAPSED"
      "a' = a" "t' = t" "w' = w"
    | (again) "tk_elapse t \<le> ts_diff_to_ms (tk_issued t) now" "r = TASK_RESCHEDULE"
      "tk_resch t \<noteq> 0" "sched_dispatch P g a t w = (TASK_CONSUMED, a', t', w')"
    | (over) "tk_elapse t \<le> ts_diff_to_ms (tk_issued t) now" "r = TASK_CONSUMED"
      "tk_resch t = 0" "sched_dispatch P g a t w = (TASK_CONSUMED, a', t', w')"
    | (error) "tk_elapse t \<le> ts_diff_to_ms (tk_issued t) now" "r = TASK_NET_ERROR"
      "sched_dispatch P g a t w = (TASK_NET_ERROR, a', t', w')"
proof (cases "ts_diff_to_ms (tk_issued t) now < tk_elapse t")
  case True
  with assms show thesis by (auto simp: sched_perform_job_def intro: early)
next
  case False
  obtain s b u v where d: "sched_dispatch P g a t w = (s, b, u, v)"
    by (cases "sched_dispatch P g a t w")
  have u: "tk_resch u = tk_resch t" using sched_dispatch_frame(2) [OF d] by simp
  from sched_dispatch_res [OF d] have "s = TASK_CONSUMED \<or> s = TASK_NET_ERROR" by auto
  then show thesis
    using assms False d u again over error
    by (auto simp: sched_perform_job_def split: if_splits)
qed

lemma sched_job_due_iff:
  "fst (sched_perform_job P g a t now w) = TASK_NOT_ELAPSED
     \<longleftrightarrow> ts_diff_to_ms (tk_issued t) now < tk_elapse t"
proof -
  obtain r b u v where j: "sched_perform_job P g a t now w = (r, b, u, v)"
    by (cases "sched_perform_job P g a t now w")
  then show ?thesis by (cases rule: sched_perform_job_cases) (simp_all add: j)
qed

lemma sched_turn_cases:
  assumes "sched_turn P g a t w = (False, a', w')"
  obtains (kept) t' where "sched a' = (sched a)\<lparr>sc_todo := t' # sc_todo (sched a)\<rparr>"
      "task_key t' = task_key t" "task_mem w' = task_mem w"
      "tk_resch t' = tk_resch t \<or> 0 < tk_resch t \<and> tk_resch t' = tk_resch t - 1"
      "sizeof_emtask w' = sizeof_emtask w" "trig_mem w' = trig_mem w"
      "sizeof_emtri w' = sizeof_emtri w" "trig a' = trig a"
    | (freed) "sched a' = sched a" "tk_resch t = 0" "task_mem w' = task_mem w - task_price w t"
      "sizeof_emtask w' = sizeof_emtask w" "trig_mem w' = trig_mem w"
      "sizeof_emtri w' = sizeof_emtri w" "trig a' = trig a"
proof -
  let ?w = "w\<lparr>clocks := Suc (clocks w)\<rparr>"
  obtain r b u v where j: "sched_perform_job P g a t (clock w (clocks w)) ?w = (r, b, u, v)"
    by (cases "sched_perform_job P g a t (clock w (clocks w)) ?w")
  note fr = sched_perform_job_frame [OF j]
  from j show thesis
  proof (cases rule: sched_perform_job_cases)
    case early
    with assms j show thesis
      by (intro kept [of t]) (auto simp: sched_turn_def clock_gettime_def todo_push_def)
  next
    case again
    with assms j fr same_heap_dispatch [OF again(4)] show thesis
      by (intro kept [of "task_again (clock w (clocks w)) u"])
        (auto simp: sched_turn_def clock_gettime_def todo_push_def task_again_def task_key_def
          same_heap_def)
  next
    case over
    with assms j fr same_heap_dispatch [OF over(4)] show thesis
      by (intro freed) (auto simp: sched_turn_def clock_gettime_def same_heap_def task_price_def)
  next
    case error
    with assms j show thesis
      by (auto simp: sched_turn_def clock_gettime_def Let_def split: prod.splits)
  qed
qed

text \<open>The early return happens in one way.\<close>

lemma sched_turn_error:
  assumes "sched_turn P g a t w = (True, a', w')"
  obtains b u v where
    "sched_dispatch P g a t (w\<lparr>clocks := Suc (clocks w)\<rparr>) = (TASK_NET_ERROR, b, u, v)"
    "(a', w') = sched_net_error b (task_free u v)"
proof -
  let ?w = "w\<lparr>clocks := Suc (clocks w)\<rparr>"
  obtain r b u v where j: "sched_perform_job P g a t (clock w (clocks w)) ?w = (r, b, u, v)"
    by (cases "sched_perform_job P g a t (clock w (clocks w)) ?w")
  then show thesis
    by (cases rule: sched_perform_job_cases)
      (use assms j that in \<open>auto simp: sched_turn_def clock_gettime_def Let_def split: prod.splits\<close>)
qed

section \<open>A rule for the loop\<close>

lemma consume_loop_rule:
  assumes "sched_consume_loop P g a w = (e, a', w')" and "I a w"
    and step: "\<And>a t ts w b v. sc_jobs (sched a) = t # ts \<Longrightarrow> I a w \<Longrightarrow>
      sched_turn P g (jobs_pop a) t w = (False, b, v) \<Longrightarrow> I b v"
    and err: "\<And>a t ts w b v. sc_jobs (sched a) = t # ts \<Longrightarrow> I a w \<Longrightarrow>
      sched_turn P g (jobs_pop a) t w = (True, b, v) \<Longrightarrow> E b v"
  shows "if e then E a' w' else I a' w' \<and> sc_jobs (sched a') = []"
  using assms
proof (induction P g a w rule: sched_consume_loop.induct)
  case (1 P g a w)
  show ?case
  proof (cases "sc_jobs (sched a)")
    case Nil
    with "1.prems" show ?thesis by (auto simp: sched_consume_loop.simps [of P g a w])
  next
    case (Cons t ts)
    obtain s b v where s: "sched_turn P g (jobs_pop a) t w = (s, b, v)"
      by (cases "sched_turn P g (jobs_pop a) t w")
    show ?thesis
    proof (cases s)
      case True
      with "1.prems"(1) s Cons have "e = True" "a' = b" "w' = v"
        by (simp_all add: sched_consume_loop.simps [of P g a w])
      moreover have "E b v" using "1.prems"(4) [OF Cons "1.prems"(2)] s True by simp
      ultimately show ?thesis by simp
    next
      case False
      with "1.prems"(1) s Cons have run: "sched_consume_loop P g b v = (e, a', w')"
        by (simp add: sched_consume_loop.simps [of P g a w])
      have turn: "(False, b, v) = sched_turn P g (jobs_pop a) t w" using s False by simp
      then have "I b v" using "1.prems"(3) [OF Cons "1.prems"(2)] by simp
      then show ?thesis by (rule "1.IH" [OF Cons turn refl refl run _ "1.prems"(3,4)])
    qed
  qed
qed

section \<open>The books balance\<close>

text \<open>
  The counters of the process are what this agent's queues and triggers cost, plus \<open>k\<close> and \<open>l\<close>,
  what everybody else owns.
\<close>

definition books :: "u32 \<Rightarrow> u32 \<Rightarrow> emage \<Rightarrow> env \<Rightarrow> bool" where
  "books k l a w \<longleftrightarrow>
     task_mem w = tasks_bytes w (sc_todo (sched a)) + tasks_bytes w (sc_jobs (sched a)) + k \<and>
     trig_mem w = trigs_bytes w (tx_ts (trig a)) + l"

lemma tasks_bytes_cong: "sizeof_emtask w' = sizeof_emtask w \<Longrightarrow> tasks_bytes w' ts = tasks_bytes w ts"
  by (simp add: tasks_bytes_def task_price_def)

lemma trigs_bytes_cong: "sizeof_emtri w' = sizeof_emtri w \<Longrightarrow> trigs_bytes w' ts = trigs_bytes w ts"
  by (simp add: trigs_bytes_def trig_price_def)

lemma task_price_cong: "sizeof_emtask w' = sizeof_emtask w \<Longrightarrow> task_price w' t = task_price w t"
  by (simp add: task_price_def)

lemma bytes_keeps [simp]:
  "tasks_bytes (task_free t w) ts = tasks_bytes w ts"
  "tasks_bytes (task_free_all us w) ts = tasks_bytes w ts"
  "tasks_bytes (snd (trig_flush ctx w)) ts = tasks_bytes w ts"
  "tasks_bytes (emit e w) ts = tasks_bytes w ts"
  "trigs_bytes (task_free t w) rs = trigs_bytes w rs"
  "trigs_bytes (task_free_all us w) rs = trigs_bytes w rs"
  "trigs_bytes (emit e w) rs = trigs_bytes w rs"
  by (rule tasks_bytes_cong trigs_bytes_cong, simp)+

lemma tasks_bytes_simps [simp]:
  "tasks_bytes w [] = 0" "tasks_bytes w (t # ts) = task_price w t + tasks_bytes w ts"
  "tasks_bytes w (ts @ us) = tasks_bytes w ts + tasks_bytes w us"
  by (simp_all add: tasks_bytes_def)

lemma trigs_bytes_simps [simp]:
  "trigs_bytes w [] = 0" "trigs_bytes w (t # ts) = trig_price w t + trigs_bytes w ts"
  by (simp_all add: trigs_bytes_def)

lemma tasks_bytes_rev [simp]: "tasks_bytes w (rev ts) = tasks_bytes w ts"
  by (induction ts) simp_all

lemma jobs_pop_simps [simp]:
  "sc_jobs (sched (jobs_pop a)) = tl (sc_jobs (sched a))"
  "sc_todo (sched (jobs_pop a)) = sc_todo (sched a)" "trig (jobs_pop a) = trig a"
  "net (jobs_pop a) = net a" "ops (jobs_pop a) = ops a" "enb_id (jobs_pop a) = enb_id a"
  "sc_stop (sched (jobs_pop a)) = sc_stop (sched a)"
  by (simp_all add: jobs_pop_def)

text \<open>The error branch leaves nothing behind.\<close>

lemma sched_net_error_state [simp]:
  "sc_jobs (sched (fst (sched_net_error a w))) = []"
  "sc_todo (sched (fst (sched_net_error a w))) = []"
  "sc_stop (sched (fst (sched_net_error a w))) = sc_stop (sched a)"
  "tx_ts (trig (fst (sched_net_error a w))) = []"
  "tx_next (trig (fst (sched_net_error a w))) = tx_next (trig a)"
  "nt_status (net (fst (sched_net_error a w))) = NET_STATUS_NOT_CONNECTED"
  "nt_seq (net (fst (sched_net_error a w))) = 0"
  "nt_sockfd (net (fst (sched_net_error a w))) \<le> 0"
  "ops (fst (sched_net_error a w)) = ops a" "enb_id (fst (sched_net_error a w)) = enb_id a"
  by (simp_all add: sched_net_error_def Let_def split_beta)

lemma sched_net_error_mem:
  "task_mem (snd (sched_net_error a w)) =
     task_mem w - tasks_bytes w (sc_todo (sched a)) - tasks_bytes w (sc_jobs (sched a))"
  "trig_mem (snd (sched_net_error a w)) = trig_mem w - trigs_bytes w (tx_ts (trig a))"
  "sizeof_emtask (snd (sched_net_error a w)) = sizeof_emtask w"
  "sizeof_emtri (snd (sched_net_error a w)) = sizeof_emtri w"
  by (simp_all add: sched_net_error_def Let_def split_beta net_not_connected_env call_def
      task_free_all_mem split: option.split)

text \<open>The wrapper is told once, after which only the socket is closed.\<close>

lemma sched_net_error_calls:
  "calls_of (trace (snd (sched_net_error a w))) =
     calls_of (trace w) @ (if has_op a op_disconnected then [CbDisconnected] else [])"
  "sends_of (trace (snd (sched_net_error a w))) = sends_of (trace w)"
  by (simp_all add: sched_net_error_def Let_def split_beta net_not_connected_env call_def
      has_op_def split: option.split)

lemma books_net_error:
  assumes "books k l a w"
  shows "books k l (fst (sched_net_error a w)) (snd (sched_net_error a w))"
  using assms by (simp add: books_def sched_net_error_mem)

lemma books_turn:
  assumes jobs: "sc_jobs (sched a) = t # ts" and "books k l a w"
    and turn: "sched_turn P g (jobs_pop a) t w = (e, b, v)"
  shows "books k l b v"
proof (cases e)
  case False
  with turn have "sched_turn P g (jobs_pop a) t w = (False, b, v)" by simp
  then show ?thesis
  proof (cases rule: sched_turn_cases)
    case (kept t')
    have "task_price w t' = task_price w t" by (rule task_price_key [OF kept(2)])
    with assms(1,2) kept show ?thesis
      by (simp add: books_def tasks_bytes_cong [OF kept(5)] trigs_bytes_cong [OF kept(7)]
          task_price_cong [OF kept(5)] algebra_simps)
  next
    case freed
    with assms(1,2) show ?thesis
      by (simp add: books_def tasks_bytes_cong [OF freed(4)] trigs_bytes_cong [OF freed(6)]
          algebra_simps)
  qed
next
  case True
  with turn have "sched_turn P g (jobs_pop a) t w = (True, b, v)" by simp
  then show ?thesis
  proof (rule sched_turn_error)
    fix c u x
    let ?w = "w\<lparr>clocks := Suc (clocks w)\<rparr>"
    assume d: "sched_dispatch P g (jobs_pop a) t ?w = (TASK_NET_ERROR, c, u, x)"
      and bv: "(b, v) = sched_net_error c (task_free u x)"
    have "task_price x u = task_price x t"
      using sched_dispatch_frame(2) [OF d] by (simp add: task_price_def)
    moreover have sz: "sizeof_emtask x = sizeof_emtask w" "sizeof_emtri x = sizeof_emtri w"
      "task_mem x = task_mem w" "trig_mem x = trig_mem w"
      using same_heap_dispatch [OF d] by (simp_all add: same_heap_def)
    ultimately have "books k l c (task_free u x)"
      using assms(1,2) sched_dispatch_frame(1) [OF d]
      by (simp add: books_def tasks_bytes_cong [OF sz(1)] trigs_bytes_cong [OF sz(2)]
          task_price_cong [OF sz(1)] algebra_simps)
    from books_net_error [OF this] show ?thesis using bv by (metis fst_conv snd_conv)
  qed
qed

lemma books_requeue: "books k l a w \<Longrightarrow> books k l (sched_requeue a) w"
  by (simp add: books_def sched_requeue_def add.commute)

section \<open>What a pass keeps\<close>

text \<open>
  \<open>survive ts us\<close>: the tasks \<open>us\<close> are those of \<open>ts\<close> that live on, in the order of \<open>ts\<close>; each has
  kept or used one credit, and only tasks without credit are gone.
\<close>

definition continues :: "emtask \<Rightarrow> emtask \<Rightarrow> bool" where
  "continues t u \<longleftrightarrow> task_key u = task_key t
     \<and> (tk_resch u = tk_resch t \<or> 0 < tk_resch t \<and> tk_resch u = tk_resch t - 1)"

inductive survive :: "emtask list \<Rightarrow> emtask list \<Rightarrow> bool" where
  nil: "survive [] []"
| keep: "continues t u \<Longrightarrow> survive ts us \<Longrightarrow> survive (t # ts) (u # us)"
| gone: "tk_resch t = 0 \<Longrightarrow> survive ts us \<Longrightarrow> survive (t # ts) us"

inductive_simps survive_nil [simp]: "survive [] us"

lemma survive_append: "survive ts us \<Longrightarrow> survive ts' us' \<Longrightarrow> survive (ts @ ts') (us @ us')"
  by (induction rule: survive.induct) (auto intro: survive.intros)

lemma survive_subseq: "survive ts us \<Longrightarrow> subseq (map task_key us) (map task_key ts)"
  by (induction rule: survive.induct) (auto simp: continues_def)

text \<open>A task that is to be repeated for ever (\<open>resch\<close> negative) never disappears.\<close>

definition immortal :: "emtask \<Rightarrow> bool" where
  "immortal t \<longleftrightarrow> tk_resch t < 0"

lemma survive_immortal:
  "survive ts us \<Longrightarrow>
     map task_key (filter immortal us) = map task_key (filter immortal ts)"
  by (induction rule: survive.induct) (auto simp: continues_def immortal_def)

text \<open>The state of the loop after some of the jobs.\<close>

definition pass_inv :: "emage \<Rightarrow> env \<Rightarrow> emage \<Rightarrow> env \<Rightarrow> bool" where
  "pass_inv a0 w0 a w \<longleftrightarrow> trig a = trig a0 \<and> send_ret w = send_ret w0
     \<and> (\<exists>done kept. sc_jobs (sched a0) = done @ sc_jobs (sched a)
          \<and> sc_todo (sched a) = rev kept @ sc_todo (sched a0) \<and> survive done kept)"

lemma sched_turn_send_ret:
  "sched_turn P g a t w = (False, b, v) \<Longrightarrow> send_ret v = send_ret w"
proof -
  assume turn: "sched_turn P g a t w = (False, b, v)"
  let ?w = "w\<lparr>clocks := Suc (clocks w)\<rparr>"
  obtain r c u x where j: "sched_perform_job P g a t (clock w (clocks w)) ?w = (r, c, u, x)"
    by (cases "sched_perform_job P g a t (clock w (clocks w)) ?w")
  then have "send_ret x = send_ret w"
    by (cases rule: sched_perform_job_cases) (auto simp: same_heap_def dest: same_heap_dispatch)
  with turn j show ?thesis
    by (auto simp: sched_turn_def clock_gettime_def Let_def split: prod.splits task_res.splits)
qed

lemma pass_inv_turn:
  assumes jobs: "sc_jobs (sched a) = t # ts" and inv: "pass_inv a0 w0 a w"
    and turn: "sched_turn P g (jobs_pop a) t w = (False, b, v)"
  shows "pass_inv a0 w0 b v"
proof -
  from inv obtain ds ks where
    inv': "trig a = trig a0" "send_ret w = send_ret w0" "sc_jobs (sched a0) = ds @ t # ts"
      "sc_todo (sched a) = rev ks @ sc_todo (sched a0)" "survive ds ks"
    by (auto simp: pass_inv_def jobs)
  have sr: "send_ret v = send_ret w0" using sched_turn_send_ret [OF turn] inv' by simp
  from turn show ?thesis
  proof (cases rule: sched_turn_cases)
    case (kept t')
    have "survive (ds @ [t]) (ks @ [t'])"
      by (rule survive_append [OF inv'(5)])
        (use kept in \<open>auto simp: continues_def intro: survive.intros\<close>)
    with inv' kept sr jobs show ?thesis
      unfolding pass_inv_def by (auto intro!: exI [of _ "ds @ [t]"] exI [of _ "ks @ [t']"])
  next
    case freed
    have "survive (ds @ [t]) (ks @ [])"
      by (rule survive_append [OF inv'(5)]) (use freed in \<open>auto intro: survive.intros\<close>)
    with inv' freed sr jobs show ?thesis
      unfolding pass_inv_def by (auto intro!: exI [of _ "ds @ [t]"] exI [of _ "ks"])
  qed
qed

text \<open>The state the early return leaves.\<close>

definition dropped :: "emage \<Rightarrow> bool" where
  "dropped a \<longleftrightarrow> sc_jobs (sched a) = [] \<and> sc_todo (sched a) = [] \<and> tx_ts (trig a) = []
     \<and> nt_status (net a) = NET_STATUS_NOT_CONNECTED \<and> nt_seq (net a) = 0 \<and> nt_sockfd (net a) \<le> 0"

lemma sched_turn_dropped:
  assumes "sched_turn P g a t w = (True, b, v)"
  shows "dropped b"
  using assms
proof (rule sched_turn_error)
  fix c u x
  assume "(b, v) = sched_net_error c (task_free u x)"
  then have "b = fst (sched_net_error c (task_free u x))" by (metis fst_conv)
  then show "dropped b" by (simp add: dropped_def)
qed

lemma sched_consume_cases:
  assumes "sched_consume P g a w = (r, a', w')"
  obtains (error) "r = 0" "sched_consume_loop P g a w = (True, a', w')" "dropped a'"
    | (pass) b where "r = 0" "sched_consume_loop P g a w = (False, b, w')" "a' = sched_requeue b"
        "pass_inv a w b w'" "sc_jobs (sched b) = []"
proof -
  obtain e b v where l: "sched_consume_loop P g a w = (e, b, v)"
    by (cases "sched_consume_loop P g a w")
  have "pass_inv a w a w"
    unfolding pass_inv_def by (auto intro!: exI [of _ "[]"] survive.intros)
  with l have "if e then dropped b else pass_inv a w b v \<and> sc_jobs (sched b) = []"
    by (rule consume_loop_rule [where E = "\<lambda>a w. dropped a"])
      (auto intro: pass_inv_turn sched_turn_dropped)
  then show thesis
    using assms l error pass by (cases e) (auto simp: sched_consume_def)
qed

lemma pass_requeue:
  assumes "pass_inv a w b w'" and "sc_jobs (sched b) = []" and "sc_todo (sched a) = []"
  shows "survive (sc_jobs (sched a)) (sc_jobs (sched (sched_requeue b)))"
    and "sc_todo (sched (sched_requeue b)) = []" and "trig (sched_requeue b) = trig a"
  using assms by (auto simp: pass_inv_def sched_requeue_def)

text \<open>While every \<open>send\<close> succeeds the error branch is not reached.\<close>

lemma consume_loop_sends_ok:
  assumes "\<forall>n. 0 \<le> send_ret w n" and "sched_consume_loop P g a w = (e, b, v)"
  shows "\<not> e"
proof -
  have "if e then False else (\<forall>n. 0 \<le> send_ret v n) \<and> sc_jobs (sched b) = []"
  proof (rule consume_loop_rule [OF assms(2), where E = "\<lambda>_ _. False"])
    fix a t ts w b v
    assume ok: "\<forall>n. 0 \<le> send_ret w n"
      and turn: "sched_turn P g (jobs_pop a) t w = (True, b, v)"
    from turn obtain c u x where
      "sched_dispatch P g (jobs_pop a) t (w\<lparr>clocks := Suc (clocks w)\<rparr>) = (TASK_NET_ERROR, c, u, x)"
      by (rule sched_turn_error)
    from sched_dispatch_res [OF this] have "send_ret w (sends w) < 0" by auto
    with ok show False by (metis not_less)
  qed (use assms(1) sched_turn_send_ret in auto)
  then show ?thesis by (simp split: if_splits)
qed

lemma books_consume:
  assumes "books k l a w" and "sched_consume P g a w = (r, a', w')"
  shows "books k l a' w'"
proof -
  obtain e b v where c: "sched_consume_loop P g a w = (e, b, v)"
    by (cases "sched_consume_loop P g a w")
  have "if e then books k l b v else books k l b v \<and> sc_jobs (sched b) = []"
    by (rule consume_loop_rule [OF c, where I = "books k l" and E = "books k l"])
      (use assms(1) books_turn in blast)+
  then show ?thesis
    using assms(2) c by (cases e) (auto simp: sched_consume_def books_requeue)
qed

end
