(* ===== verification/SchedProps.thy ===== *)
theory SchedProps
  imports SchedFacts Demo
begin

text \<open>
  The properties of the scheduler.
\<close>

section \<open>Properties\<close>

text \<open>
  (C13) A pass of the scheduler has one of two outcomes.  Either it ran through: the tasks of the
  queue live on in their order, each with at most one credit less, only tasks without credit are
  gone, nothing is left on the deferred list and the triggers are untouched.  Or a send failed:
  both lists and the triggers are empty and the connection is closed and reset.
\<close>

theorem sched_consume_outcome:
  assumes "sc_todo (sched a) = []" and "sched_consume P g a w = (r, a', w')"
  shows "r = 0 \<and> sc_todo (sched a') = []
    \<and> (survive (sc_jobs (sched a)) (sc_jobs (sched a')) \<and> trig a' = trig a \<or> dropped a')"
  using assms(2)
proof (cases rule: sched_consume_cases)
  case error
  then show ?thesis by (auto simp: dropped_def)
next
  case (pass b)
  then show ?thesis using pass_requeue [OF pass(4,5) assms(1)] by auto
qed

theorem sched_consume_outcome_witness:
  "sc_todo (sched (fst (snd (sched_consume demo_proto demo_garbage (demo_agent [hello_task]) demo_env)))) = []"
  using sched_consume_outcome [of "demo_agent [hello_task]" demo_proto demo_garbage demo_env]
  by (cases "sched_consume demo_proto demo_garbage (demo_agent [hello_task]) demo_env")
    (simp add: demo_agent_def)

text \<open>
  While sends succeed no task is lost: after a pass the tasks that are to be repeated for ever
  (the Hello of the connection, scheduled cell measurements) are all still queued, in the same
  order, and the queue is a subsequence of what it was.
\<close>

theorem sched_consume_keeps:
  assumes "\<forall>n. 0 \<le> send_ret w n" and "sc_todo (sched a) = []"
    and "sched_consume P g a w = (r, a', w')"
  shows "map task_key (filter immortal (sc_jobs (sched a')))
      = map task_key (filter immortal (sc_jobs (sched a)))
    \<and> subseq (map task_key (sc_jobs (sched a'))) (map task_key (sc_jobs (sched a)))
    \<and> trig a' = trig a"
  using assms(3)
proof (cases rule: sched_consume_cases)
  case error
  then show ?thesis using consume_loop_sends_ok [OF assms(1)] by blast
next
  case (pass b)
  note pr = pass_requeue [OF pass(4,5) assms(2)]
  show ?thesis
    using survive_immortal [OF pr(1)] survive_subseq [OF pr(1)] pr(3) pass(3) by simp
qed

theorem sched_consume_keeps_witness:
  "length (filter immortal (sc_jobs (sched (fst (snd (sched_consume demo_proto demo_garbage
     (demo_agent [hello_task, setup_task, hello_task]) demo_env)))))) = 2"
proof -
  let ?a = "demo_agent [hello_task, setup_task, hello_task]"
  obtain r a' w' where c: "sched_consume demo_proto demo_garbage ?a demo_env = (r, a', w')"
    by (cases "sched_consume demo_proto demo_garbage ?a demo_env")
  have "\<forall>n. 0 \<le> send_ret demo_env n" by (simp add: demo_env_def)
  moreover have "sc_todo (sched ?a) = []" by (simp add: demo_agent_def)
  ultimately have "map task_key (filter immortal (sc_jobs (sched a')))
      = map task_key (filter immortal (sc_jobs (sched ?a)))"
    using sched_consume_keeps [OF _ _ c] by blast
  then have "length (filter immortal (sc_jobs (sched a')))
      = length (filter immortal (sc_jobs (sched ?a)))" by (metis length_map)
  also have "\<dots> = 2"
    by (simp add: demo_agent_def hello_task_def setup_task_def immortal_def)
  finally show ?thesis by (simp add: c)
qed

text \<open>
  (C14) A pass neither leaks nor frees twice: whatever happens in it, a counter of task memory that
  agrees with the queues before agrees with them after, and the same for the triggers.
\<close>

theorem sched_consume_books:
  assumes "books k l a w" and "sched_consume P g a w = (r, a', w')"
  shows "books k l a' w'"
  using assms by (rule books_consume)

theorem sched_consume_books_witness:
  "task_mem (snd (snd (sched_consume demo_proto demo_garbage (demo_agent [setup_task])
     (demo_env\<lparr>task_mem := 84\<rparr>))))
   = tasks_bytes (snd (snd (sched_consume demo_proto demo_garbage (demo_agent [setup_task])
     (demo_env\<lparr>task_mem := 84\<rparr>))))
     (sc_todo (sched (fst (snd (sched_consume demo_proto demo_garbage (demo_agent [setup_task])
        (demo_env\<lparr>task_mem := 84\<rparr>)))))
      @ sc_jobs (sched (fst (snd (sched_consume demo_proto demo_garbage (demo_agent [setup_task])
        (demo_env\<lparr>task_mem := 84\<rparr>))))))"
proof -
  let ?w = "demo_env\<lparr>task_mem := 84\<rparr>"
  obtain r a' w' where
    c: "sched_consume demo_proto demo_garbage (demo_agent [setup_task]) ?w = (r, a', w')"
    by (cases "sched_consume demo_proto demo_garbage (demo_agent [setup_task]) ?w")
  have "books 0 0 (demo_agent [setup_task]) ?w"
    by (simp add: books_def demo_agent_def demo_env_def trig_ctx_init_def setup_task_def
        task_price_def block_cost_def)
  from sched_consume_books [OF this c] show ?thesis
    by (simp add: c books_def)
qed

text \<open>
  (C30) The clock test.  A task that is put off has waited less than its interval; one that is carried
  out has waited its interval but for less than a millisecond.
\<close>

theorem sched_job_timing:
  assumes "sched_perform_job P g a t now w = (r, a', t', w')"
  shows "if r = TASK_NOT_ELAPSED
    then ts_ns now - ts_ns (tk_issued t) < tk_elapse t * 1000000 \<and> a' = a \<and> t' = t \<and> w' = w
    else (tk_elapse t - 1) * 1000000 < ts_ns now - ts_ns (tk_issued t)"
  using assms
  by (cases rule: sched_perform_job_cases)
    (use ts_diff_close [where a = "tk_issued t" and b = now] in auto)

theorem sched_job_timing_witness:
  "ts_ns (Timespec 1 0) - ts_ns (tk_issued hello_task) < 2000 * 1000000"
  using sched_job_timing [of demo_proto demo_garbage "demo_agent []"
      "hello_task\<lparr>tk_elapse := 2000\<rparr>" "Timespec 1 0" demo_env]
  by (simp add: sched_perform_job_def ts_diff_to_ms_def hello_task_def task_init_def)

text \<open>
  The missing millisecond is real: there are clock readings at which a task with an interval of
  2000 ms, the Hello of a connection, is carried out although less than 2000 ms have passed.
\<close>

theorem sched_job_early:
  "\<exists>issued now. ts_normal issued \<and> ts_normal now
     \<and> ts_ns now - ts_ns issued < tk_elapse (task_init TASK_TYPE_HELLO 2000 (- 1) 0 None 0) * 1000000
     \<and> fst (sched_perform_job demo_proto demo_garbage (demo_agent [])
         ((task_init TASK_TYPE_HELLO 2000 (- 1) 0 None 0)\<lparr>tk_issued := issued\<rparr>) now demo_env)
       \<noteq> TASK_NOT_ELAPSED"
proof (intro exI conjI)
  let ?i = "Timespec 0 1" and ?n = "Timespec 2 0"
  show "ts_normal ?i" and "ts_normal ?n" by (simp_all add: ts_normal_def)
  show "ts_ns ?n - ts_ns ?i < tk_elapse (task_init TASK_TYPE_HELLO 2000 (- 1) 0 None 0) * 1000000"
    by (simp add: ts_ns_def)
  have "ts_diff_to_ms ?i ?n = 2000"
    by (simp add: ts_diff_to_ms_def signed_divide_int_def)
  then show "fst (sched_perform_job demo_proto demo_garbage (demo_agent [])
      ((task_init TASK_TYPE_HELLO 2000 (- 1) 0 None 0)\<lparr>tk_issued := ?i\<rparr>) ?n demo_env)
    \<noteq> TASK_NOT_ELAPSED"
    by (simp add: sched_job_due_iff)
qed

text \<open>
  Once due, a task stays due: with a clock that does not go back, the test that passed at one
  reading passes at every later one.
\<close>

theorem sched_job_stays_due:
  assumes "ts_normal now" and "ts_normal later" and "now \<le> later"
    and "fst (sched_perform_job P g a t now w) \<noteq> TASK_NOT_ELAPSED"
  shows "fst (sched_perform_job P g a t later w) = fst (sched_perform_job P g a t now w)"
proof -
  have "tk_elapse t \<le> ts_diff_to_ms (tk_issued t) now"
    using assms(4) by (simp add: sched_job_due_iff)
  also have "\<dots> \<le> ts_diff_to_ms (tk_issued t) later" by (rule ts_diff_mono [OF assms(1-3)])
  finally show ?thesis
    using \<open>tk_elapse t \<le> ts_diff_to_ms (tk_issued t) now\<close> by (simp add: sched_perform_job_def)
qed

theorem sched_job_stays_due_witness:
  "fst (sched_perform_job demo_proto demo_garbage (demo_agent []) setup_task (Timespec 9 5) demo_env)
   = fst (sched_perform_job demo_proto demo_garbage (demo_agent []) setup_task (Timespec 1 0) demo_env)"
proof (rule sched_job_stays_due)
  show "ts_normal (Timespec 1 0)" "ts_normal (Timespec 9 5)" by (simp_all add: ts_normal_def)
  show "Timespec 1 0 \<le> Timespec 9 5" by (simp add: less_eq_timespec_def)
  show "fst (sched_perform_job demo_proto demo_garbage (demo_agent []) setup_task (Timespec 1 0)
      demo_env) \<noteq> TASK_NOT_ELAPSED"
    by (simp add: sched_job_due_iff setup_task_def ts_diff_to_ms_def task_init_def)
qed

text \<open>
  Sending.  A message over the limit is not sent, costs no sequence number and is reported as
  done; any other is sent once, with the current sequence number written into it, and the counter
  moves on by one, modulo \<open>2^32\<close>.  The result is an error exactly when \<open>send\<close> failed.
\<close>

theorem sched_send_msg_correct:
  "sched_send_msg P a msg sz w =
     (if EM_BUF_SIZE < unat sz
      then (TASK_CONSUMED, msg, a,
        EMLOG (Some (enb_id a)) ''sched_send_msg'' ''Message too long, msg=%lu, limit=%d!'' w)
      else (if send_ret w (sends w) < 0 then TASK_NET_ERROR else TASK_CONSUMED,
        epf_seq P msg (nt_seq (net a)),
        a\<lparr>net := (net a)\<lparr>nt_seq := nt_seq (net a) + 1\<rparr>\<rparr>,
        emit (EvSend (nt_sockfd (net a)) (take (unat sz) (epf_seq P msg (nt_seq (net a)))))
          (w\<lparr>sends := Suc (sends w)\<rparr>)))"
  by (simp add: sched_send_msg_def net_send_def send_def Let_def)

lemma ue_measure_calls_trace:
  "trace (ue_measure_calls a t m n w) = trace w @
     map (\<lambda>i. EvCall (enb_id a) (CbUeMeasure (tr_mod t) (tr_id t) (meas_id (m i)) (rnti (m i))
        (earfcn (m i)) (interval (m i)) (max_cells (m i)) (max_meas (m i)))) (rev [0..<n])"
  by (induction n arbitrary: w) (simp_all add: call_def)

lemma calls_of_map: "calls_of (map (\<lambda>i. EvCall e (f i)) xs) = map f xs"
  by (induction xs) simp_all

text \<open>
  A measurement task calls the wrapper once for every measure of the request of its trigger,
  from the last to the first, always with the module and the identifier of the trigger; without
  the trigger, or with a request that cannot be read, it calls nothing.
\<close>

theorem sched_perform_ue_measure_calls:
  assumes "sched_perform_ue_measure P g a task w = (r, w')"
  shows "r = TASK_CONSUMED \<and> calls_of (trace w') = calls_of (trace w) @
    (case trig_find_by_id (trig a) (tk_trig task) of
       None \<Rightarrow> []
     | Some t \<Rightarrow>
         let (e, m) = epp_trigger_uemeas_req P (buf_of (tr_msg t)) (g_meas g) in
         if \<not> has_op a op_ue_measure \<or> e \<noteq> 0 then []
         else map (\<lambda>i. CbUeMeasure (tr_mod t) (tr_id t) (meas_id (rrc m i)) (rnti (rrc m i))
                (earfcn (rrc m i)) (interval (rrc m i)) (max_cells (rrc m i))
                (max_meas (rrc m i))) (rev [0..<nof_rrc m]))"
  using assms
  by (auto simp: sched_perform_ue_measure_def ue_measure_calls_trace calls_of_map Let_def
      split: if_splits option.splits prod.splits)

theorem sched_perform_ue_measure_calls_witness:
  "calls_of (trace (snd (sched_perform_ue_measure demo_proto demo_garbage (demo_agent [])
     hello_task demo_env))) = []"
  using sched_perform_ue_measure_calls [of demo_proto demo_garbage "demo_agent []" hello_task demo_env]
  by (cases "sched_perform_ue_measure demo_proto demo_garbage (demo_agent []) hello_task demo_env")
    (simp add: demo_agent_def hello_task_def task_init_def trig_find_by_id_def trig_ctx_init_def
      demo_env_def)

lemma copy_users_append:
  assumes "length us = EP_RAN_USERS_MAX P" and "i \<le> k"
    and "k = min (nat (sd_nof_users det)) (EP_RAN_USERS_MAX P)"
  shows "copy_users P det i us = take i us @ map (sd_users det) [i..<k] @ drop k us"
  using assms
proof (induction P det i us rule: copy_users.induct)
  case (1 P det i us)
  show ?case
  proof (cases "i < k")
    case True
    then have go: "int i < sd_nof_users det \<and> i < EP_RAN_USERS_MAX P"
      using "1.prems" by (auto simp: min_def split: if_splits)
    have "copy_users P det (Suc i) (us[i := sd_users det i])
        = take (Suc i) (us[i := sd_users det i]) @ map (sd_users det) [Suc i..<k]
          @ drop k (us[i := sd_users det i])"
      using "1.IH" [OF go] "1.prems" True by simp
    also have "\<dots> = take i us @ map (sd_users det) [i..<k] @ drop k us"
      using True "1.prems" by (simp add: take_Suc_conv_app_nth upt_conv_Cons)
    finally show ?thesis using go by (simp add: copy_users.simps [of P det i us])
  next
    case False
    then have stop: "(int i < sd_nof_users det \<and> i < EP_RAN_USERS_MAX P) = False" and "i = k"
      using "1.prems" by (auto simp: min_def split: if_splits)
    then show ?thesis unfolding copy_users.simps [of P det i us] stop by simp
  qed
qed

text \<open>
  The configuration of a slice handed to the wrapper: its user array holds the users of the
  message, as many as fit, then zeros; the array never grows; the count is that of the message
  even where it is larger than the array.
\<close>

theorem sched_to_RANconf_correct:
  "sched_to_RANconf P det (zero_conf P) =
     \<lparr>nof_users = sd_nof_users det,
      users = map (sd_users det) [0..<min (nat (sd_nof_users det)) (EP_RAN_USERS_MAX P)]
        @ replicate (EP_RAN_USERS_MAX P - nat (sd_nof_users det)) 0,
      l2 = \<lparr>user_sched = sd_usched det, rbg = sd_rbgs det\<rparr>\<rparr>"
proof -
  let ?k = "min (nat (sd_nof_users det)) (EP_RAN_USERS_MAX P)"
  have "copy_users P det 0 (replicate (EP_RAN_USERS_MAX P) 0)
      = map (sd_users det) [0..<?k] @ replicate (EP_RAN_USERS_MAX P - nat (sd_nof_users det)) 0"
    using copy_users_append [of "replicate (EP_RAN_USERS_MAX P) 0" P 0 ?k det]
    by (simp add: min_def)
  then show ?thesis by (simp add: sched_to_RANconf_def zero_conf_def)
qed

text \<open>
  When a network error ends a pass, the wrapper is told exactly once and last: the calls of the
  error branch are those made before plus one \<open>disconnected\<close>, nothing more is sent, both queues and
  the triggers are gone, and the memory of all of them is returned.
\<close>

theorem sched_net_error_correct:
  "dropped (fst (sched_net_error a w))
   \<and> calls_of (trace (snd (sched_net_error a w))) =
       calls_of (trace w) @ (if has_op a op_disconnected then [CbDisconnected] else [])
   \<and> sends_of (trace (snd (sched_net_error a w))) = sends_of (trace w)
   \<and> task_mem (snd (sched_net_error a w)) =
       task_mem w - tasks_bytes w (sc_todo (sched a)) - tasks_bytes w (sc_jobs (sched a))
   \<and> trig_mem (snd (sched_net_error a w)) = trig_mem w - trigs_bytes w (tx_ts (trig a))"
  by (simp add: dropped_def sched_net_error_mem sched_net_error_calls)

end
