(* ===== verification/Net.thy ===== *)
theory Net
  imports Agent
begin

text \<open>
  \<open>src/agent/net.c\<close>, first half: what the network listener does with one message.  The handlers
  \<open>net_se_*\<close> (single), \<open>net_sc_*\<close> (scheduled) and \<open>net_te_*\<close> (triggered) turn it into tasks and
  triggers; \<open>net_process_*\<close> choose the handler.  A message and its length, which the code passes
  together, are the bytes they delimit.
\<close>

section \<open>Connection established\<close>

definition net_connected :: "emage \<Rightarrow> env \<Rightarrow> int \<times> emage \<times> env" where
  "net_connected a w =
     (let (h, w) = task_alloc TASK_TYPE_HELLO 2000 (- 1) 0 None 0 w in
      case h of
        None \<Rightarrow> (- 1, a, w)
      | Some h \<Rightarrow>
          let (r, a, w) = agent_add_task a h w
          in if r \<noteq> 0 then (- 1, a, task_free h w)
             else (0, a\<lparr>net := (net a)\<lparr>nt_status := NET_STATUS_CONNECTED\<rparr>\<rparr>, w))"

definition net_sched_task :: "emage \<Rightarrow> emtask \<Rightarrow> env \<Rightarrow> int \<times> emage \<times> env" where
  "net_sched_task a t w = agent_add_task a t w"

section \<open>Handlers\<close>

definition msg_size :: "bytes \<Rightarrow> u32" where
  "msg_size msg = word_of_nat (length msg)"

definition net_sc_hello :: "emage \<Rightarrow> bytes \<Rightarrow> env \<Rightarrow> int \<times> emage \<times> env" where
  "net_sc_hello a msg w = (0, a, w)"

definition net_se_enb_setup :: "emage \<Rightarrow> bytes \<Rightarrow> env \<Rightarrow> int \<times> emage \<times> env" where
  "net_se_enb_setup a msg w =
     (let (t, w) = task_alloc TASK_TYPE_ENB_SETUP 1 0 0 (Some msg) (msg_size msg) w in
      case t of None \<Rightarrow> (- 1, a, w) | Some t \<Rightarrow> net_sched_task a t w)"

definition net_se_ho :: "emage \<Rightarrow> bytes \<Rightarrow> env \<Rightarrow> int \<times> emage \<times> env" where
  "net_se_ho a msg w =
     (let (t, w) = task_alloc TASK_TYPE_HO 1 0 0 (Some msg) (msg_size msg) w in
      case t of None \<Rightarrow> (- 1, a, w) | Some t \<Rightarrow> net_sched_task a t w)"

definition net_se_rans :: "emage \<Rightarrow> bytes \<Rightarrow> env \<Rightarrow> int \<times> emage \<times> env" where
  "net_se_rans a msg w =
     (let (t, w) = task_alloc TASK_TYPE_RAN_SETUP 1 0 0 (Some msg) (msg_size msg) w in
      case t of None \<Rightarrow> (- 1, a, w) | Some t \<Rightarrow> net_sched_task a t w)"

definition net_se_ranslice :: "emage \<Rightarrow> bytes \<Rightarrow> env \<Rightarrow> int \<times> emage \<times> env" where
  "net_se_ranslice a msg w =
     (let (t, w) = task_alloc TASK_TYPE_RAN_SLICE 1 0 0 (Some msg) (msg_size msg) w in
      case t of None \<Rightarrow> (- 1, a, w) | Some t \<Rightarrow> net_sched_task a t w)"

definition net_sc_cell_meas_report ::
    "emproto \<Rightarrow> emage \<Rightarrow> bytes \<Rightarrow> env \<Rightarrow> int \<times> emage \<times> env" where
  "net_sc_cell_meas_report P a msg w =
     (let (t, w) = task_alloc TASK_TYPE_CELL_MEASURE (epp_sched_interval P msg) (- 1) 0
                     (Some msg) (msg_size msg) w in
      case t of None \<Rightarrow> (- 1, a, w) | Some t \<Rightarrow> net_sched_task a t w)"

text \<open>\<open>mod\<close> as \<open>epp_head\<close> leaves it: the status is not looked at.\<close>

definition msg_mod :: "emproto \<Rightarrow> stack_garbage \<Rightarrow> bytes \<Rightarrow> u32" where
  "msg_mod P g msg = hd_mod (snd (epp_head P msg (g_hdr g)))"

text \<open>The removal loop of \<open>net_te_ue_measure\<close>, \<open>n\<close> entries to go.\<close>

fun ue_measure_del ::
    "u32 \<Rightarrow> (nat \<Rightarrow> ep_rrc) \<Rightarrow> nat \<Rightarrow> trctx \<Rightarrow> env \<Rightarrow> trctx \<times> env" where
  "ue_measure_del m rs 0 ctx w = (ctx, w)"
| "ue_measure_del m rs (Suc n) ctx w =
     (let (r, ctx, w) = trig_del_by_inst ctx m TR_TYPE_UE_MEAS (uint (meas_id (rs n))) w
      in ue_measure_del m rs n ctx w)"

text \<open>The insertion loop; the result of \<open>net_sched_task\<close> is not looked at.\<close>

fun ue_measure_add ::
    "u32 \<Rightarrow> (nat \<Rightarrow> ep_rrc) \<Rightarrow> bytes \<Rightarrow> nat \<Rightarrow> emage \<Rightarrow> env \<Rightarrow> emage \<times> env" where
  "ue_measure_add m rs msg 0 a w = (a, w)"
| "ue_measure_add m rs msg (Suc n) a w =
     (let (t, w) = trig_alloc m TR_TYPE_UE_MEAS (uint (meas_id (rs n))) (Some msg) (msg_size msg) w
      in case t of
           None \<Rightarrow> (a, EMLOG (Some (enb_id a)) ''net_te_ue_measure'' ''Trigger creation failed!'' w)
         | Some t \<Rightarrow>
             let (i, t, ctx) = trig_add (trig a) t;
                 a = a\<lparr>trig := ctx\<rparr>;
                 (s, w) = task_alloc TASK_TYPE_UE_MEASURE 1 0 (tr_id t) None 0 w
             in case s of
                  None \<Rightarrow>
                    let w = EMLOG (Some (enb_id a)) ''net_te_ue_measure'' ''Cannot create task!'' w;
                        (r, ctx, w) = trig_del_by_id (trig a) (tr_id t) w
                    in (a\<lparr>trig := ctx\<rparr>, w)
                | Some s \<Rightarrow>
                    let (r, a, w) = net_sched_task a s w
                    in ue_measure_add m rs msg n a w)"

definition net_te_ue_measure ::
    "emproto \<Rightarrow> stack_garbage \<Rightarrow> emage \<Rightarrow> bytes \<Rightarrow> env \<Rightarrow> int \<times> emage \<times> env" where
  "net_te_ue_measure P g a msg w =
     (let m = msg_mod P g msg;
          op = epp_trigger_op P msg;
          q = snd (epp_trigger_uemeas_req P msg (g_meas g))
      in if op \<noteq> EP_OPERATION_ADD P
         then (let (ctx, w) = ue_measure_del m (rrc q) (nof_rrc q) (trig a) w
               in (0, a\<lparr>trig := ctx\<rparr>, w))
         else (let (a, w) = ue_measure_add m (rrc q) msg (nof_rrc q) a w in (0, a, w)))"

definition net_te_ue_report ::
    "emproto \<Rightarrow> stack_garbage \<Rightarrow> emage \<Rightarrow> bytes \<Rightarrow> env \<Rightarrow> int \<times> emage \<times> env" where
  "net_te_ue_report P g a msg w =
     (let m = msg_mod P g msg;
          op = epp_trigger_op P msg
      in if op = EP_OPERATION_ADD P
         then
           let (t, w) = trig_alloc m TR_TYPE_UE_REP 0 (Some msg) (msg_size msg) w
           in case t of
                None \<Rightarrow> (0, a, EMLOG (Some (enb_id a)) ''net_te_ue_report'' ''Trigger creation failed!'' w)
              | Some t \<Rightarrow>
                  let (i, t, ctx) = trig_add (trig a) t;
                      a = a\<lparr>trig := ctx\<rparr>;
                      (s, w) = task_alloc TASK_TYPE_UE_REPORT 1 0 (tr_id t) None 0 w
                  in case s of
                       None \<Rightarrow>
                         let w = EMLOG (Some (enb_id a)) ''net_te_ue_report'' ''Cannot create task!'' w;
                             (r, ctx, w) = trig_del_by_id (trig a) (tr_id t) w
                         in (0, a\<lparr>trig := ctx\<rparr>, w)
                     | Some s \<Rightarrow> net_sched_task a s w
         else
           let (r, ctx, w) = trig_del_by_inst (trig a) m TR_TYPE_UE_REP 0 w
           in (r, a\<lparr>trig := ctx\<rparr>, w))"

text \<open>
  Here the trigger is made with the type of the task, \<open>TASK_TYPE_CELL_MEASURE\<close>, and looked for with
  \<open>TR_TYPE_MAC_REP\<close>.
\<close>

definition net_te_cell_meas_report ::
    "emproto \<Rightarrow> stack_garbage \<Rightarrow> emage \<Rightarrow> bytes \<Rightarrow> env \<Rightarrow> int \<times> emage \<times> env" where
  "net_te_cell_meas_report P g a msg w =
     (let m = msg_mod P g msg;
          op = epp_trigger_op P msg
      in if op = EP_OPERATION_ADD P
         then
           let (t, w) = trig_alloc m TASK_TYPE_CELL_MEASURE 0 (Some msg) (msg_size msg) w
           in case t of
                None \<Rightarrow> (0, a, EMLOG (Some (enb_id a)) ''net_te_cell_meas_report''
                                ''Trigger creation failed!'' w)
              | Some t \<Rightarrow>
                  let (i, t, ctx) = trig_add (trig a) t;
                      a = a\<lparr>trig := ctx\<rparr>;
                      (s, w) = task_alloc TASK_TYPE_CELL_MEASURE 1 0 (tr_id t) None 0 w
                  in case s of
                       None \<Rightarrow>
                         let w = EMLOG (Some (enb_id a)) ''net_te_cell_meas_report''
                                   ''Cannot create task!'' w;
                             (r, ctx, w) = trig_del_by_id (trig a) (tr_id t) w
                         in (0, a\<lparr>trig := ctx\<rparr>, w)
                     | Some s \<Rightarrow> net_sched_task a s w
         else
           let (r, ctx, w) = trig_del_by_inst (trig a) m TR_TYPE_MAC_REP 0 w
           in (r, a\<lparr>trig := ctx\<rparr>, w))"

section \<open>Dispatch\<close>

definition net_process_sched_event ::
    "emproto \<Rightarrow> emage \<Rightarrow> bytes \<Rightarrow> env \<Rightarrow> int \<times> emage \<times> env" where
  "net_process_sched_event P a msg w =
     (let s = epp_schedule_type P msg in
      if s = EP_ACT_INVALID P then (- 1, a, w)
      else if s = EP_ACT_HELLO P then
        (if epp_dir P msg = EP_HDR_FLAG_DIR_REP P then net_sc_hello a msg w else (0, a, w))
      else if s = EP_ACT_CELL_MEASURE P then
        (if epp_dir P msg = EP_HDR_FLAG_DIR_REQ P then net_sc_cell_meas_report P a msg w
         else (0, a, w))
      else (0, a, w))"

definition net_process_single_event ::
    "emproto \<Rightarrow> emage \<Rightarrow> bytes \<Rightarrow> env \<Rightarrow> int \<times> emage \<times> env" where
  "net_process_single_event P a msg w =
     (let s = epp_single_type P msg; req = (epp_dir P msg = EP_HDR_FLAG_DIR_REQ P) in
      if s = EP_ACT_INVALID P then (- 1, a, w)
      else if s = EP_ACT_HELLO P then (0, a, w)
      else if s = EP_ACT_ECAP P then (if req then net_se_enb_setup a msg w else (0, a, w))
      else if s = EP_ACT_HANDOVER P then (if req then net_se_ho a msg w else (0, a, w))
      else if s = EP_ACT_RAN_SETUP P then (if req then net_se_rans a msg w else (0, a, w))
      else if s = EP_ACT_RAN_SLICE P then (if req then net_se_ranslice a msg w else (0, a, w))
      else (0, a, w))"

definition net_process_trigger_event ::
    "emproto \<Rightarrow> stack_garbage \<Rightarrow> emage \<Rightarrow> bytes \<Rightarrow> env \<Rightarrow> int \<times> emage \<times> env" where
  "net_process_trigger_event P g a msg w =
     (let t = epp_trigger_type P msg in
      if t = EP_ACT_INVALID P then (- 1, a, w)
      else if t = EP_ACT_UE_REPORT P then net_te_ue_report P g a msg w
      else if t = EP_ACT_UE_MEASURE P then net_te_ue_measure P g a msg w
      else if t = EP_ACT_CELL_MEASURE P then net_te_cell_meas_report P g a msg w
      else (0, a, w))"

definition net_process_message ::
    "emproto \<Rightarrow> stack_garbage \<Rightarrow> emage \<Rightarrow> bytes \<Rightarrow> env \<Rightarrow> int \<times> emage \<times> env" where
  "net_process_message P g a msg w =
     (let mt = epp_msg_type P msg in
      if mt = EP_TYPE_SINGLE_MSG P then net_process_single_event P a msg w
      else if mt = EP_TYPE_SCHEDULE_MSG P then net_process_sched_event P a msg w
      else if mt = EP_TYPE_TRIGGER_MSG P then net_process_trigger_event P g a msg w
      else (0, a, w))"

end
