(* ===== verification/NetFacts.thy ===== *)
theory NetFacts
  imports Net SchedFacts
begin

text \<open>
  Lemmas on the message handlers: each is a sequence of three moves (post a task, enter a trigger,
  remove a trigger), and what holds of the moves holds of the handlers.
\<close>

section \<open>The moves\<close>

text \<open>Allocate a task and hand it to the scheduler.\<close>

definition post_task ::
    "int \<Rightarrow> int \<Rightarrow> int \<Rightarrow> i32 \<Rightarrow> bytes option \<Rightarrow> u32 \<Rightarrow> emage \<Rightarrow> env \<Rightarrow> int \<times> emage \<times> env" where
  "post_task ty intv res trg msg sz a w =
     (let (t, w) = task_alloc ty intv res trg msg sz w in
      case t of None \<Rightarrow> (- 1, a, w) | Some t \<Rightarrow> net_sched_task a t w)"

definition set_trig :: "trctx \<Rightarrow> emage \<Rightarrow> emage" where
  "set_trig ctx a = a\<lparr>trig := ctx\<rparr>"

definition drop_inst :: "u32 \<Rightarrow> int \<Rightarrow> int \<Rightarrow> emage \<Rightarrow> env \<Rightarrow> int \<times> emage \<times> env" where
  "drop_inst m ty inst a w =
     (let (r, ctx, w) = trig_del_by_inst (trig a) m ty inst w in (r, a\<lparr>trig := ctx\<rparr>, w))"

text \<open>
  Make a trigger, enter it, post a task for it; roll the trigger back when there is no memory for
  the task.
\<close>

definition watch ::
    "string \<Rightarrow> u32 \<Rightarrow> int \<Rightarrow> int \<Rightarrow> int \<Rightarrow> bytes \<Rightarrow> emage \<Rightarrow> env \<Rightarrow> (int option) \<times> emage \<times> env" where
  "watch proc m ty inst tty msg a w =
     (let (t, w) = trig_alloc m ty inst (Some msg) (msg_size msg) w
      in case t of
           None \<Rightarrow> (None, a, EMLOG (Some (enb_id a)) proc ''Trigger creation failed!'' w)
         | Some t \<Rightarrow>
             let (i, t, ctx) = trig_add (trig a) t;
                 a = a\<lparr>trig := ctx\<rparr>;
                 (s, w) = task_alloc tty 1 0 (tr_id t) None 0 w
             in case s of
                  None \<Rightarrow>
                    let w = EMLOG (Some (enb_id a)) proc ''Cannot create task!'' w;
                        (r, ctx, w) = trig_del_by_id (trig a) (tr_id t) w
                    in (None, a\<lparr>trig := ctx\<rparr>, w)
                | Some s \<Rightarrow> let (r, a, w) = net_sched_task a s w in (Some r, a, w))"

lemma net_single_post:
  "net_se_enb_setup a msg w = post_task TASK_TYPE_ENB_SETUP 1 0 0 (Some msg) (msg_size msg) a w"
  "net_se_ho a msg w = post_task TASK_TYPE_HO 1 0 0 (Some msg) (msg_size msg) a w"
  "net_se_rans a msg w = post_task TASK_TYPE_RAN_SETUP 1 0 0 (Some msg) (msg_size msg) a w"
  "net_se_ranslice a msg w = post_task TASK_TYPE_RAN_SLICE 1 0 0 (Some msg) (msg_size msg) a w"
  "net_sc_cell_meas_report P a msg w =
     post_task TASK_TYPE_CELL_MEASURE (epp_sched_interval P msg) (- 1) 0 (Some msg) (msg_size msg) a w"
  by (simp_all add: post_task_def net_se_enb_setup_def net_se_ho_def net_se_rans_def
      net_se_ranslice_def net_sc_cell_meas_report_def)

lemma net_trigger_watch:
  "net_te_ue_report P g a msg w =
     (if epp_trigger_op P msg = EP_OPERATION_ADD P
      then let (r, a, w) = watch ''net_te_ue_report'' (msg_mod P g msg) TR_TYPE_UE_REP 0
                 TASK_TYPE_UE_REPORT msg a w
           in (case r of None \<Rightarrow> 0 | Some r \<Rightarrow> r, a, w)
      else drop_inst (msg_mod P g msg) TR_TYPE_UE_REP 0 a w)"
  "net_te_cell_meas_report P g a msg w =
     (if epp_trigger_op P msg = EP_OPERATION_ADD P
      then let (r, a, w) = watch ''net_te_cell_meas_report'' (msg_mod P g msg)
                 TASK_TYPE_CELL_MEASURE 0 TASK_TYPE_CELL_MEASURE msg a w
           in (case r of None \<Rightarrow> 0 | Some r \<Rightarrow> r, a, w)
      else drop_inst (msg_mod P g msg) TR_TYPE_MAC_REP 0 a w)"
  by (simp_all add: net_te_ue_report_def net_te_cell_meas_report_def watch_def drop_inst_def Let_def
      split_beta split: option.split)

lemma ue_measure_add_watch:
  "ue_measure_add m rs msg (Suc n) a w =
     (let (r, a, w) = watch ''net_te_ue_measure'' m TR_TYPE_UE_MEAS (uint (meas_id (rs n)))
            TASK_TYPE_UE_MEASURE msg a w
      in case r of None \<Rightarrow> (a, w) | Some _ \<Rightarrow> ue_measure_add m rs msg n a w)"
  by (simp add: watch_def Let_def split_beta split: option.split)

lemma ue_measure_del_drop:
  "ue_measure_del m rs (Suc n) (trig a) w =
     (let (r, b, w) = drop_inst m TR_TYPE_UE_MEAS (uint (meas_id (rs n))) a w
      in ue_measure_del m rs n (trig b) w)"
  by (simp add: drop_inst_def Let_def split_beta)

section \<open>What every move leaves alone\<close>

text \<open>
  \<open>calm a w b v\<close>: going from the first state to the second, nothing was sent, the wrapper was not
  called, the connection is as it was, and the queue has only grown at its end.
\<close>

definition calm :: "emage \<Rightarrow> env \<Rightarrow> emage \<Rightarrow> env \<Rightarrow> bool" where
  "calm a w b v \<longleftrightarrow> enb_id b = enb_id a \<and> ops b = ops a \<and> net b = net a
     \<and> sc_stop (sched b) = sc_stop (sched a) \<and> sc_todo (sched b) = sc_todo (sched a)
     \<and> sc_thread (sched b) = sc_thread (sched a)
     \<and> (\<exists>ts. sc_jobs (sched b) = sc_jobs (sched a) @ ts)
     \<and> calls_of (trace v) = calls_of (trace w) \<and> sends_of (trace v) = sends_of (trace w)
     \<and> log_fd v = log_fd w \<and> sizeof_emtask v = sizeof_emtask w \<and> sizeof_emtri v = sizeof_emtri w
     \<and> (log_fd w \<noteq> None \<longrightarrow> faults_of (trace v) = faults_of (trace w))"

lemma calm_refl [simp]: "calm a w a w"
  by (simp add: calm_def)

lemma calm_trans [trans]: "calm a w b v \<Longrightarrow> calm b v c u \<Longrightarrow> calm a w c u"
  unfolding calm_def by clarsimp

lemma calm_env:
  "same_but_mem w v \<Longrightarrow> calm a w a v"
  "calm a w a (EMLOG e p x w)"
  by (auto simp: calm_def EMLOG_fault_iff dest: same_but_memD)

lemma calm_set_trig: "calm a w (a\<lparr>trig := ctx\<rparr>) w"
  by (simp add: calm_def)

lemma calm_add_task:
  assumes "agent_add_task a t w = (r, b, v)"
  shows "calm a w b v"
  using agent_add_task_simps [of a t w, unfolded assms fst_conv snd_conv] by (simp add: calm_def)

lemma calm_task_alloc: "task_alloc ty intv res trg msg sz w = (t, v) \<Longrightarrow> calm a w a v"
  using task_alloc_env(1) [of w ty intv res trg msg sz] by (simp add: calm_env)

lemma calm_trig_alloc: "trig_alloc m ty inst msg sz w = (t, v) \<Longrightarrow> calm a w a v"
  using trig_alloc_env(1) [of w m ty inst msg sz] by (simp add: calm_env)

lemma calm_post:
  assumes "post_task ty intv res trg msg sz a w = (r, b, v)"
  shows "calm a w b v"
proof -
  obtain t u where t: "task_alloc ty intv res trg msg sz w = (t, u)" by fastforce
  with assms show ?thesis
    by (auto simp: post_task_def net_sched_task_def split: option.splits
        intro: calm_task_alloc calm_trans [OF calm_task_alloc calm_add_task])
qed

lemma same_but_mem_del:
  "trig_del_by_id ctx i w = (r, c, v) \<Longrightarrow> same_but_mem w v"
  "trig_del_by_inst ctx m ty n w = (r, c, v) \<Longrightarrow> same_but_mem w v"
  by (auto simp: trig_del_by_id_def trig_del_by_inst_def split: option.splits)

lemma calm_drop_inst:
  assumes "drop_inst m ty n a w = (r, b, v)"
  shows "calm a w b v"
  using assms
  by (auto simp: drop_inst_def split: prod.splits
      intro: calm_trans [OF calm_env(1) [OF same_but_mem_del(2)] calm_set_trig])

lemma calm_watch:
  assumes "watch proc m ty n tty msg a w = (r, b, v)"
  shows "calm a w b v"
proof -
  obtain t u where t: "trig_alloc m ty n (Some msg) (msg_size msg) w = (t, u)" by fastforce
  have u: "calm a w a u" using t by (rule calm_trig_alloc)
  show ?thesis
  proof (cases t)
    case None
    then show ?thesis using assms t calm_trans [OF u calm_env(2)] by (auto simp: watch_def)
  next
    case (Some t')
    obtain i t2 ctx where add: "trig_add (trig a) t' = (i, t2, ctx)" by (rule prod_cases3)
    let ?a = "a\<lparr>trig := ctx\<rparr>"
    have a: "calm a w ?a u" by (rule calm_trans [OF u calm_set_trig])
    obtain s x where s: "task_alloc tty 1 0 (tr_id t2) None 0 u = (s, x)" by fastforce
    have x: "calm a w ?a x" by (rule calm_trans [OF a calm_task_alloc [OF s]])
    show ?thesis
    proof (cases s)
      case None
      let ?y = "EMLOG (Some (enb_id a)) proc ''Cannot create task!'' x"
      obtain r' c y where del: "trig_del_by_id ctx (tr_id t2) ?y = (r', c, y)" by (rule prod_cases3)
      have "calm a w ?a ?y" by (rule calm_trans [OF x calm_env(2)])
      also have "calm ?a ?y ?a y" by (rule calm_env(1) [OF same_but_mem_del(1) [OF del]])
      also have "calm ?a y (?a\<lparr>trig := c\<rparr>) y" by (rule calm_set_trig)
      finally show ?thesis using assms t Some add s None del by (auto simp: watch_def)
    next
      case (Some s')
      then show ?thesis using assms t \<open>t = Some t'\<close> add s calm_trans [OF x calm_add_task]
        by (auto simp: watch_def net_sched_task_def split: prod.splits)
    qed
  qed
qed

lemma calm_ue_measure_add: "ue_measure_add m rs msg n a w = (b, v) \<Longrightarrow> calm a w b v"
proof (induction n arbitrary: a w)
  case (Suc n)
  obtain r c u where s: "watch ''net_te_ue_measure'' m TR_TYPE_UE_MEAS (uint (meas_id (rs n)))
      TASK_TYPE_UE_MEASURE msg a w = (r, c, u)" by (rule prod_cases3)
  note wa = calm_watch [OF s]
  show ?case
  proof (cases r)
    case None
    then show ?thesis using Suc.prems s wa
      by (simp add: ue_measure_add_watch del: ue_measure_add.simps)
  next
    case (Some k)
    then have "ue_measure_add m rs msg n c u = (b, v)"
      using Suc.prems s by (simp add: ue_measure_add_watch del: ue_measure_add.simps)
    from calm_trans [OF wa Suc.IH [OF this]] show ?thesis .
  qed
qed simp

lemma calm_ue_measure_del: "ue_measure_del m rs n ctx w = (c, v) \<Longrightarrow> same_but_mem w v"
  by (induction n arbitrary: ctx w)
    (auto split: prod.splits intro: same_but_mem_trans [OF same_but_mem_del(2)])

lemma calm_net_process_message:
  assumes "net_process_message P g a msg w = (r, b, v)"
  shows "calm a w b v"
proof -
  have report: "calm a w b v" if "net_te_ue_report P g a msg w = (r, b, v)"
    using that
    by (auto simp: net_trigger_watch(1) split: if_splits prod.splits
        intro: calm_watch calm_drop_inst)
  have cell: "calm a w b v" if "net_te_cell_meas_report P g a msg w = (r, b, v)"
    using that
    by (auto simp: net_trigger_watch(2) split: if_splits prod.splits
        intro: calm_watch calm_drop_inst)
  have meas: "calm a w b v" if "net_te_ue_measure P g a msg w = (r, b, v)"
    using that
    by (auto simp: net_te_ue_measure_def Let_def split: if_splits prod.splits
        intro: calm_ue_measure_add
          calm_trans [OF calm_env(1) [OF calm_ue_measure_del] calm_set_trig])
  show ?thesis
    using assms
    by (auto simp: net_process_message_def net_process_single_event_def net_sc_hello_def
        net_process_sched_event_def net_process_trigger_event_def net_single_post Let_def
        split: if_splits intro: calm_post report cell meas)
qed

section \<open>What every move does\<close>

lemma post_task_eq:
  "post_task ty intv res trg msg sz a w =
     (if alloc_ok w msg
      then agent_add_task a (task_init ty intv res trg msg sz)
             (snd (task_alloc ty intv res trg msg sz w))
      else (- 1, a, snd (task_alloc ty intv res trg msg sz w)))"
  by (cases "task_alloc ty intv res trg msg sz w")
    (use fst_task_alloc [of ty intv res trg msg sz w] in
      \<open>auto simp: post_task_def net_sched_task_def\<close>)

text \<open>The agent after a task is added depends on the clock only.\<close>

lemma agent_add_task_cong:
  "clocks v = clocks w \<Longrightarrow> clock v = clock w \<Longrightarrow>
     fst (snd (agent_add_task a t v)) = fst (snd (agent_add_task a t w))"
  by (simp add: agent_add_task_def sched_add_task_def clock_gettime_def)

text \<open>The state of the process after an attempt to allocate a task.\<close>

lemma task_alloc_after:
  assumes "task_alloc ty intv res trg msg sz w = (t, v)"
  shows "t = (if alloc_ok w msg then Some (task_init ty intv res trg msg sz) else None)"
    and "same_but_mem w v" and "trig_mem v = trig_mem w"
    and "task_mem v = task_mem w + (if alloc_ok w msg then block_cost (sizeof_emtask w) sz else 0)"
  using fst_task_alloc [of ty intv res trg msg sz w] assms
    task_alloc_env [where w = w and ty = ty and intv = intv and res = res and trg = trg
      and msg = msg and sz = sz]
  by simp_all

lemma trig_alloc_after:
  assumes "trig_alloc m ty n msg sz w = (t, v)"
  shows "t = (if alloc_ok w msg then Some (trig_init m ty n msg sz) else None)"
    and "same_but_mem w v" and "task_mem v = task_mem w"
    and "trig_mem v = trig_mem w + (if alloc_ok w msg then block_cost (sizeof_emtri w) sz else 0)"
  using fst_trig_alloc [of m ty n msg sz w] assms
    trig_alloc_env [where w = w and ty = ty and m = m and inst = n and msg = msg and sz = sz]
  by simp_all

text \<open>The trigger that is entered for a message, and the context with it.\<close>

definition new_trig :: "trctx \<Rightarrow> u32 \<Rightarrow> int \<Rightarrow> int \<Rightarrow> bytes \<Rightarrow> emtri" where
  "new_trig ctx m ty n msg = (trig_init m ty n (Some msg) (msg_size msg))\<lparr>tr_id := tx_next ctx\<rparr>"

definition trig_enter :: "emtri \<Rightarrow> trctx \<Rightarrow> trctx" where
  "trig_enter t ctx = ctx\<lparr>tx_ts := t # tx_ts ctx, tx_next := tx_next ctx + 1\<rparr>"

lemma trig_add_new:
  "trig_add ctx (trig_init m ty n (Some msg) (msg_size msg)) =
     (tx_next ctx, new_trig ctx m ty n msg, trig_enter (new_trig ctx m ty n msg) ctx)"
  by (simp add: trig_add_def new_trig_def trig_enter_def Let_def)

lemma trig_enter_simps [simp]:
  "tx_ts (trig_enter t ctx) = t # tx_ts ctx" "tx_next (trig_enter t ctx) = tx_next ctx + 1"
  by (simp_all add: trig_enter_def)

lemma new_trig_simps [simp]:
  "tr_id (new_trig ctx m ty n msg) = tx_next ctx" "tr_type (new_trig ctx m ty n msg) = ty"
  "tr_mod (new_trig ctx m ty n msg) = m" "tr_instance (new_trig ctx m ty n msg) = n"
  "tr_msg (new_trig ctx m ty n msg) = Some (take (unat (msg_size msg)) msg)"
  "tr_msg_size (new_trig ctx m ty n msg) = msg_size msg"
  by (simp_all add: new_trig_def)

lemma trig_price_new [simp]:
  "trig_price w (new_trig ctx m ty n msg) = block_cost (sizeof_emtri w) (msg_size msg)"
  by (simp add: trig_price_def)

text \<open>The task that carries a new trigger.\<close>

definition trig_task :: "int \<Rightarrow> i32 \<Rightarrow> emtask" where
  "trig_task tty i = task_init tty 1 0 i None 0"

lemma trig_task_price [simp]: "task_price w (trig_task tty i) = block_cost (sizeof_emtask w) 0"
  by (simp add: trig_task_def task_price_def)

text \<open>A trigger whose task cannot be made is taken out again.\<close>

lemma watch_undone:
  assumes "watch proc m ty n tty msg a w = (r, b, v)"
    and "trig_alloc m ty n (Some msg) (msg_size msg) w = (Some (trig_init m ty n (Some msg) (msg_size msg)), u)"
    and "task_alloc tty 1 0 (tx_next (trig a)) None 0 u = (None, x)"
  shows "r = None" and "b = a\<lparr>trig := (trig a)\<lparr>tx_next := tx_next (trig a) + 1\<rparr>\<rparr>"
    and "v = trig_free (new_trig (trig a) m ty n msg) (EMLOG (Some (enb_id a)) proc ''Cannot create task!'' x)"
proof -
  let ?t = "new_trig (trig a) m ty n msg" and ?y = "EMLOG (Some (enb_id a)) proc ''Cannot create task!'' x"
  have del: "trig_del_by_id (trig_enter ?t (trig a)) (tx_next (trig a)) ?y
      = (0, (trig a)\<lparr>tx_next := tx_next (trig a) + 1\<rparr>, trig_free ?t ?y)"
    by (simp add: trig_del_by_id_def trig_enter_def)
  have "(r, b, v) = (None, a\<lparr>trig := (trig a)\<lparr>tx_next := tx_next (trig a) + 1\<rparr>\<rparr>, trig_free ?t ?y)"
    using assms del by (simp add: watch_def trig_add_new)
  then show "r = None" and "b = a\<lparr>trig := (trig a)\<lparr>tx_next := tx_next (trig a) + 1\<rparr>\<rparr>"
    and "v = trig_free ?t ?y" by simp_all
qed

lemma watch_cases:
  assumes "watch proc m ty n tty msg a w = (r, b, v)"
  obtains (nomem) "\<not> alloc_ok w (Some msg)" "r = None" "b = a"
      "task_mem v = task_mem w" "trig_mem v = trig_mem w"
    | (undone) n where "alloc_ok w (Some msg)" "\<not> malloc_ok w n" "r = None"
      "b = a\<lparr>trig := (trig a)\<lparr>tx_next := tx_next (trig a) + 1\<rparr>\<rparr>"
      "task_mem v = task_mem w" "trig_mem v = trig_mem w"
    | (made) "alloc_ok w (Some msg)" "r = Some (if sc_stop (sched a) then - 1 else 0)"
      "b = fst (snd (agent_add_task (a\<lparr>trig := trig_enter (new_trig (trig a) m ty n msg) (trig a)\<rparr>)
             (trig_task tty (tx_next (trig a))) w))"
      "task_mem v = task_mem w + block_cost (sizeof_emtask w) 0"
      "trig_mem v = trig_mem w + block_cost (sizeof_emtri w) (msg_size msg)"
      "clocks v = Suc (clocks w)" "clock v = clock w" "malloc_ok v = malloc_ok w"
proof -
  let ?t = "new_trig (trig a) m ty n msg"
  let ?ctx = "trig_enter ?t (trig a)"
  let ?a = "a\<lparr>trig := ?ctx\<rparr>"
  obtain t u where t: "trig_alloc m ty n (Some msg) (msg_size msg) w = (t, u)" by fastforce
  note ta = trig_alloc_after [OF t]
  obtain s x where s: "task_alloc tty 1 0 (tx_next (trig a)) None 0 u = (s, x)" by fastforce
  note sa = task_alloc_after [OF s]
  show thesis
  proof (cases "alloc_ok w (Some msg)")
    case False
    then show ?thesis using assms t ta by (intro nomem) (auto simp: watch_def)
  next
    case True
    then have t': "t = Some (trig_init m ty n (Some msg) (msg_size msg))" using ta(1) by simp
    show ?thesis
    proof (cases s)
      case None
      note w' = watch_undone [OF assms t [unfolded t'] s [unfolded None]]
      moreover have "\<not> alloc_ok u None" using sa(1) None by (auto split: if_splits)
      moreover have "sizeof_emtri x = sizeof_emtri w"
        using same_but_memD(3) [OF ta(2)] same_but_memD(3) [OF sa(2)] by simp
      moreover have "malloc_ok u = malloc_ok w" using same_but_memD(9) [OF ta(2)] .
      ultimately show ?thesis using True ta sa w'
        by (intro undone [of "mallocs u"]) (simp_all add: alloc_ok_def)
    next
      case (Some s')
      then have ok: "alloc_ok u None" and s': "s' = trig_task tty (tx_next (trig a))"
        using sa(1) by (auto simp: trig_task_def split: if_splits)
      have w': "clocks x = clocks w" "clock x = clock w" "sizeof_emtask u = sizeof_emtask w"
        "malloc_ok x = malloc_ok w"
        using ta(2) sa(2) by (simp_all add: same_but_mem_def)
      obtain r' b' v' where q: "agent_add_task ?a s' x = (r', b', v')" by (rule prod_cases3)
      have e: "r = Some r'" "b = b'" "v = v'"
        using assms t t' s Some q by (simp_all add: watch_def trig_add_new net_sched_task_def)
      have b': "b' = fst (snd (agent_add_task ?a s' w))"
        using q agent_add_task_cong [OF w'(1,2), of ?a s'] by simp
      show ?thesis
        using e b' ok True ta sa w' agent_add_task_simps(1,2) [of ?a s' x, unfolded q fst_conv snd_conv]
        by (intro made) (simp_all add: s')
    qed
  qed
qed

end
