(* ===== verification/NetBooks.thy ===== *)
theory NetBooks
  imports NetFacts
begin

text \<open>
  What a message does to the accounts and to the trigger registry.
\<close>

section \<open>Accounts\<close>

text \<open>The scheduler refuses tasks once it is stopping; what was posted then is lost.\<close>

definition lost :: "emage \<Rightarrow> env \<Rightarrow> u32 \<Rightarrow> u32" where
  "lost a w sz = (if sc_stop (sched a) then block_cost (sizeof_emtask w) sz else 0)"

lemma calm_sizes:
  assumes "calm a w b v"
  shows "tasks_bytes v ts = tasks_bytes w ts" and "trigs_bytes v rs = trigs_bytes w rs"
    and "sc_stop (sched b) = sc_stop (sched a)"
    and "sizeof_emtask v = sizeof_emtask w" and "sizeof_emtri v = sizeof_emtri w"
  using assms by (simp_all add: calm_def tasks_bytes_cong [of v w] trigs_bytes_cong [of v w])

lemma task_price_issued [simp]: "task_price w (t\<lparr>tk_issued := x\<rparr>) = task_price w t"
  by (simp add: task_price_def)

lemma books_post:
  assumes "books k l a w" and post: "post_task ty intv res trg msg sz a w = (r, b, v)"
    and "msg = None \<longrightarrow> sz = 0"
  shows "books (k + (if alloc_ok w msg then lost a w sz else 0)) l b v"
proof -
  obtain t u where t: "task_alloc ty intv res trg msg sz w = (t, u)" by fastforce
  note ta = task_alloc_after [OF t]
  note sizes = calm_sizes [OF calm_post [OF post]]
  have u: "sizeof_emtask u = sizeof_emtask w" using same_but_memD [OF ta(2)] by simp
  have price: "task_price w (task_init ty intv res trg msg sz) = block_cost (sizeof_emtask w) sz"
    using assms(3) by (simp add: task_price_def)
  show ?thesis
  proof (cases "alloc_ok w msg")
    case False
    then show ?thesis using assms(1) post t ta sizes(1,2) by (simp add: post_task_eq books_def)
  next
    case True
    then have q: "agent_add_task a (task_init ty intv res trg msg sz) u = (r, b, v)"
      using post t by (simp add: post_task_eq)
    note e = agent_add_task_simps [of a "task_init ty intv res trg msg sz" u,
        unfolded q fst_conv snd_conv]
    show ?thesis
      using assms(1) True ta(3,4) e(2,3,8,10) sizes(1,2) price
      by (simp add: books_def lost_def algebra_simps)
  qed
qed

lemma books_watch:
  assumes "books k l a w" and watch: "watch proc m ty n tty msg a w = (r, b, v)"
  shows "books (k + (if r = None then 0 else lost a w 0)) l b v"
proof -
  note sizes = calm_sizes(1,2,4,5) [OF calm_watch [OF watch]]
  show ?thesis
    using watch
  proof (cases rule: watch_cases)
    case made
    then show ?thesis using assms(1) sizes
      by (simp add: books_def lost_def algebra_simps)
  qed (use assms(1) sizes in \<open>simp_all add: books_def\<close>)
qed

lemma trig_del_by_inst_mem:
  assumes "trig_del_by_inst ctx m ty n w = (r, c, v)"
  shows "trig_mem v - trigs_bytes w (tx_ts c) = trig_mem w - trigs_bytes w (tx_ts ctx)"
    and "task_mem v = task_mem w"
  using assms
  by (auto simp: trig_del_by_inst_def trigs_bytes_def sum_delete_first split: option.splits)

lemma trig_del_by_id_mem:
  assumes "trig_del_by_id ctx i w = (r, c, v)"
  shows "trig_mem v - trigs_bytes w (tx_ts c) = trig_mem w - trigs_bytes w (tx_ts ctx)"
    and "task_mem v = task_mem w"
  using assms
  by (auto simp: trig_del_by_id_def trigs_bytes_def sum_delete_first split: option.splits)

lemma books_drop_inst:
  assumes "books k l a w" and drop: "drop_inst m ty n a w = (r, b, v)"
  shows "books k l b v"
proof -
  obtain c where d: "trig_del_by_inst (trig a) m ty n w = (r, c, v)" and b: "b = a\<lparr>trig := c\<rparr>"
    using drop by (auto simp: drop_inst_def split: prod.splits)
  note mem = trig_del_by_inst_mem [OF d]
  show ?thesis
    using assms(1) mem calm_sizes(1,2) [OF calm_drop_inst [OF drop]]
    by (simp add: books_def b diff_eq_eq)
qed

lemma trig_self [simp]: "(a :: emage)\<lparr>trig := trig a\<rparr> = a"
  by (cases a) simp

lemma books_ue_measure_del:
  assumes "books k l a w" and "ue_measure_del m rs n (trig a) w = (c, v)"
  shows "books k l (a\<lparr>trig := c\<rparr>) v"
  using assms
proof (induction n arbitrary: a w)
  case (Suc n)
  obtain r b u where d: "drop_inst m TR_TYPE_UE_MEAS (uint (meas_id (rs n))) a w = (r, b, u)"
    by (rule prod_cases3)
  have b: "a\<lparr>trig := c\<rparr> = b\<lparr>trig := c\<rparr>" using d by (auto simp: drop_inst_def split: prod.splits)
  have "ue_measure_del m rs n (trig b) u = (c, v)"
    using Suc.prems(2) d by (simp add: ue_measure_del_drop del: ue_measure_del.simps)
  from Suc.IH [OF books_drop_inst [OF Suc.prems(1) d] this] show ?case by (simp only: b)
qed auto

lemma books_ue_measure_add:
  assumes "books k l a w" and "\<not> sc_stop (sched a)" and "ue_measure_add m rs msg n a w = (b, v)"
  shows "books k l b v"
  using assms
proof (induction n arbitrary: a w)
  case (Suc n)
  obtain r c u where s: "watch ''net_te_ue_measure'' m TR_TYPE_UE_MEAS (uint (meas_id (rs n)))
      TASK_TYPE_UE_MEASURE msg a w = (r, c, u)" by (rule prod_cases3)
  have c: "books k l c u" "\<not> sc_stop (sched c)"
    using books_watch [OF Suc.prems(1) s] Suc.prems(2) calm_sizes(3) [OF calm_watch [OF s]]
    by (simp_all add: lost_def split: if_splits)
  show ?case
    using Suc.prems(3) s c Suc.IH [OF c]
    by (cases r) (simp_all add: ue_measure_add_watch del: ue_measure_add.simps)
qed simp

lemma books_process_message:
  assumes books: "books k l a w" and run: "\<not> sc_stop (sched a)"
    and "net_process_message P g a msg w = (r, b, v)"
  shows "books k l b v"
proof -
  have none: "lost a w sz = 0" for sz using run by (simp add: lost_def)
  have post: "books k l b v" if "post_task ty intv res trg (Some msg) sz a w = (r, b, v)"
    for ty intv res trg sz r b v
    using books_post [OF books that] by (simp add: none split: if_splits)
  have watch: "books k l b v" if "watch proc m ty n tty msg a w = (r, b, v)"
    for proc m ty n tty r b v
    using books_watch [OF books that] by (simp add: none split: if_splits)
  have meas: "books k l b v" if "net_te_ue_measure P g a msg w = (r, b, v)"
    using that books_ue_measure_del [OF books] books_ue_measure_add [OF books run]
    by (auto simp: net_te_ue_measure_def Let_def split: if_splits prod.splits)
  show ?thesis
    using assms(3) books
    by (auto simp: net_process_message_def net_process_single_event_def net_sc_hello_def
        net_process_sched_event_def net_process_trigger_event_def net_single_post
        net_trigger_watch Let_def
        split: if_splits prod.splits intro: post watch meas books_drop_inst)
qed

section \<open>The registry\<close>

lemma trig_enter_add: "trig_enter (t\<lparr>tr_id := tx_next ctx\<rparr>) ctx = snd (snd (trig_add ctx t))"
  by (simp add: trig_enter_def trig_add_def Let_def)

lemma trig_wf_next:
  assumes "trig_wf ctx" and "trig_room ctx"
  shows "trig_wf (ctx\<lparr>tx_next := tx_next ctx + 1\<rparr>)"
  using assms by (auto simp: trig_wf_def trig_room_def unat_next)

lemma watch_trig:
  assumes watch: "watch proc m ty n tty msg a w = (r, b, v)" and "trig_wf (trig a)" and "trig_room (trig a)"
  shows "trig_wf (trig b)" and "unat (tx_next (trig b)) \<le> unat (tx_next (trig a)) + 1"
    and "r = None \<Longrightarrow> trig_find_by_id (trig b) = trig_find_by_id (trig a)"
    and "r \<noteq> None \<Longrightarrow> trig b = snd (snd (trig_add (trig a) (trig_init m ty n (Some msg) (msg_size msg))))"
proof -
  have next': "unat (tx_next (trig a) + 1) = unat (tx_next (trig a)) + 1"
    using assms(3) by (intro unat_next) (simp add: trig_room_def)
  have n: "trig_enter (new_trig (trig a) m ty n msg) (trig a)
      = snd (snd (trig_add (trig a) (trig_init m ty n (Some msg) (msg_size msg))))"
    by (simp add: new_trig_def trig_enter_add)
  have "trig_wf (trig b) \<and> unat (tx_next (trig b)) \<le> unat (tx_next (trig a)) + 1
    \<and> (r = None \<longrightarrow> trig_find_by_id (trig b) = trig_find_by_id (trig a))
    \<and> (r \<noteq> None \<longrightarrow> trig b = snd (snd (trig_add (trig a) (trig_init m ty n (Some msg) (msg_size msg)))))"
    using watch
  proof (cases rule: watch_cases)
    case nomem
    then show ?thesis using assms(2) by simp
  next
    case undone
    then show ?thesis using trig_wf_next [OF assms(2,3)] next'
      by (simp add: trig_find_by_id_def fun_eq_iff)
  next
    case made
    then show ?thesis
      using trig_wf_add [OF assms(2,3)] next' trig_enter_simps(2) [of _ "trig a"]
      by (simp add: n [symmetric] del: trig_enter_simps) (simp add: n)
  qed
  then show "trig_wf (trig b)" and "unat (tx_next (trig b)) \<le> unat (tx_next (trig a)) + 1"
    and "r = None \<Longrightarrow> trig_find_by_id (trig b) = trig_find_by_id (trig a)"
    and "r \<noteq> None \<Longrightarrow> trig b = snd (snd (trig_add (trig a) (trig_init m ty n (Some msg) (msg_size msg))))"
    by simp_all
qed

lemma trig_wf_ue_measure_del:
  "trig_wf ctx \<Longrightarrow> trig_wf (fst (ue_measure_del m rs n ctx w))"
proof (induction n arbitrary: ctx w)
  case (Suc n)
  show ?case using Suc.IH [OF trig_wf_del_by_inst [OF Suc.prems]] by (simp add: split_beta)
qed simp

lemma trig_wf_ue_measure_add:
  assumes "ue_measure_add m rs msg n a w = (b, v)" and "trig_wf (trig a)"
    and "unat (tx_next (trig a)) + n < 2 ^ 31"
  shows "trig_wf (trig b)"
  using assms
proof (induction n arbitrary: a w)
  case (Suc n)
  obtain r c u where s: "watch ''net_te_ue_measure'' m TR_TYPE_UE_MEAS (uint (meas_id (rs n)))
      TASK_TYPE_UE_MEASURE msg a w = (r, c, u)" by (rule prod_cases3)
  have room: "trig_room (trig a)" using Suc.prems(3) by (simp add: trig_room_def)
  note c = watch_trig(1,2) [OF s Suc.prems(2) room]
  show ?case
  proof (cases r)
    case None
    then show ?thesis using Suc.prems(1) s c(1)
      by (simp add: ue_measure_add_watch del: ue_measure_add.simps)
  next
    case (Some k)
    then have "ue_measure_add m rs msg n c u = (b, v)"
      using Suc.prems(1) s by (simp add: ue_measure_add_watch del: ue_measure_add.simps)
    from Suc.IH [OF this c(1)] show ?thesis using c(2) Suc.prems(3) by simp
  qed
qed simp

end
