(* ===== verification/NetProps.thy ===== *)
theory NetProps
  imports NetBooks Demo
begin

text \<open>
  The properties of the message handlers.
\<close>

section \<open>All messages\<close>

text \<open>
  Whatever message arrives, handling it is quiet: nothing is sent, the wrapper is not called,
  the connection and the deferred tasks are as they were, the job queue has only grown at its end,
  and, with the log open, nothing undefined happens.
\<close>

theorem net_process_message_quiet:
  "calm a w (fst (snd (net_process_message P g a msg w))) (snd (snd (net_process_message P g a msg w)))"
  by (rule calm_net_process_message [of P g a msg w "fst (net_process_message P g a msg w)"]) simp

text \<open>
  Whatever message arrives while the scheduler runs, and whichever allocations fail, the
  counters of task and trigger memory agree with the queues and the registry afterwards: no handler
  leaks and none frees twice.
\<close>

theorem net_process_message_books:
  assumes "books k l a w" and "\<not> sc_stop (sched a)"
    and "net_process_message P g a msg w = (r, b, v)"
  shows "books k l b v"
  using assms by (rule books_process_message)

definition report_msg :: "u8 \<Rightarrow> bytes" where
  "report_msg op = [3, 5, 6, op, 0]"

definition measure_msg :: "u8 \<Rightarrow> u8 \<Rightarrow> bytes" where
  "measure_msg op n = [3, 5, 7, op, n]"

theorem net_process_message_books_witness:
  "trig_mem (snd (snd (net_process_message demo_proto demo_garbage (demo_agent [])
     (report_msg 1) demo_env)))
   = trigs_bytes (snd (snd (net_process_message demo_proto demo_garbage (demo_agent [])
        (report_msg 1) demo_env)))
     (tx_ts (trig (fst (snd (net_process_message demo_proto demo_garbage (demo_agent [])
        (report_msg 1) demo_env)))))"
proof -
  obtain r b v where m: "net_process_message demo_proto demo_garbage (demo_agent [])
      (report_msg 1) demo_env = (r, b, v)" by (rule prod_cases3)
  have "books 0 0 (demo_agent []) demo_env"
    by (simp add: books_def trig_ctx_init_def)
  from net_process_message_books [OF this _ m] show ?thesis
    by (simp add: m books_def)
qed

section \<open>Connection\<close>

text \<open>
  A new connection starts the Hello task or is refused, never half of it.  On success the status
  is set and exactly one task is appended, a Hello every 2000 ms for ever; without memory, or with
  the scheduler stopping, the agent is as before and what was allocated is freed.
\<close>

theorem net_connected_correct:
  "(let (r, b, v) = net_connected a w in
     if alloc_ok w None \<and> \<not> sc_stop (sched a)
     then r = 0
       \<and> b = a\<lparr>net := (net a)\<lparr>nt_status := NET_STATUS_CONNECTED\<rparr>,
           sched := (sched a)\<lparr>sc_jobs := sc_jobs (sched a)
             @ [(task_init TASK_TYPE_HELLO 2000 (- 1) 0 None 0)\<lparr>tk_issued := clock w (clocks w)\<rparr>]\<rparr>\<rparr>
       \<and> task_mem v = task_mem w + block_cost (sizeof_emtask w) 0
     else r = - 1 \<and> b = a \<and> task_mem v = task_mem w)"
proof -
  obtain t u where t: "task_alloc TASK_TYPE_HELLO 2000 (- 1) 0 None 0 w = (t, u)" by fastforce
  note ta = task_alloc_after [OF t]
  have u: "clock u = clock w" "clocks u = clocks w" "sizeof_emtask u = sizeof_emtask w"
    using ta(2) by (simp_all add: same_but_mem_def)
  show ?thesis
    using ta u
    by (cases "alloc_ok w None")
      (simp_all add: net_connected_def t agent_add_task_def sched_add_task_def clock_gettime_def
        task_price_def Let_def)
qed

section \<open>Single requests\<close>

text \<open>The task a single-event message asks for.\<close>

definition single_task :: "emproto \<Rightarrow> int \<Rightarrow> int option" where
  "single_task P s =
     (if s = EP_ACT_INVALID P \<or> s = EP_ACT_HELLO P then None
      else if s = EP_ACT_ECAP P then Some TASK_TYPE_ENB_SETUP
      else if s = EP_ACT_HANDOVER P then Some TASK_TYPE_HO
      else if s = EP_ACT_RAN_SETUP P then Some TASK_TYPE_RAN_SETUP
      else if s = EP_ACT_RAN_SLICE P then Some TASK_TYPE_RAN_SLICE
      else None)"

lemma net_process_single_post:
  "net_process_single_event P a msg w =
     (if epp_single_type P msg = EP_ACT_INVALID P then (- 1, a, w)
      else case single_task P (epp_single_type P msg) of
          Some ty \<Rightarrow>
            if epp_dir P msg = EP_HDR_FLAG_DIR_REQ P
            then post_task ty 1 0 0 (Some msg) (msg_size msg) a w else (0, a, w)
        | None \<Rightarrow> (0, a, w))"
  by (simp add: net_process_single_event_def single_task_def net_single_post Let_def)

lemma agent_add_task_running:
  assumes "\<not> sc_stop (sched a)"
  shows "agent_add_task a t w =
    (0, a\<lparr>sched := (sched a)\<lparr>sc_jobs := sc_jobs (sched a) @ [t\<lparr>tk_issued := clock w (clocks w)\<rparr>]\<rparr>\<rparr>,
     w\<lparr>clocks := Suc (clocks w)\<rparr>)"
  using assms by (simp add: agent_add_task_def sched_add_task_def clock_gettime_def)

text \<open>
  A single-event message is either a request the agent knows, and then exactly one task of the
  right type is queued with a copy of the whole message, due after a millisecond and never repeated;
  or it leaves the agent exactly as it was: replies, greetings, unknown and malformed messages, and
  requests for which there is no memory.
\<close>

theorem net_single_event_correct:
  assumes "epp_msg_type P msg = EP_TYPE_SINGLE_MSG P" and "\<not> sc_stop (sched a)"
    and "length msg < 2 ^ 32" and "net_process_message P g a msg w = (r, b, v)"
  shows "case single_task P (epp_single_type P msg) of
      Some ty \<Rightarrow>
        if epp_dir P msg \<noteq> EP_HDR_FLAG_DIR_REQ P then r = 0 \<and> b = a
        else if alloc_ok w (Some msg)
        then r = 0 \<and> b = a\<lparr>sched := (sched a)\<lparr>sc_jobs := sc_jobs (sched a) @
            [\<lparr>tk_id = 0, tk_type = ty, tk_mod = 0, tk_msg = Some msg, tk_msg_size = msg_size msg,
              tk_trig = 0, tk_resch = 0, tk_issued = clock w (clocks w), tk_elapse = 1\<rparr>]\<rparr>\<rparr>
        else r = - 1 \<and> b = a
    | None \<Rightarrow> r = (if epp_single_type P msg = EP_ACT_INVALID P then - 1 else 0) \<and> b = a"
proof -
  have size: "take (unat (msg_size msg)) msg = msg"
    using assms(3) by (simp add: msg_size_def unat_of_nat take_all)
  have s: "net_process_single_event P a msg w = (r, b, v)"
    using assms(1,4) by (simp add: net_process_message_def Let_def)
  have inv: "single_task P (EP_ACT_INVALID P) = None" by (simp add: single_task_def)
  have q: "post_task ty 1 0 0 (Some msg) (msg_size msg) a w =
      (if alloc_ok w (Some msg)
       then agent_add_task a \<lparr>tk_id = 0, tk_type = ty, tk_mod = 0, tk_msg = Some msg,
              tk_msg_size = msg_size msg, tk_trig = 0, tk_resch = 0, tk_issued = Timespec 0 0,
              tk_elapse = 1\<rparr> (snd (task_alloc ty 1 0 0 (Some msg) (msg_size msg) w))
       else (- 1, a, snd (task_alloc ty 1 0 0 (Some msg) (msg_size msg) w)))" for ty
    by (simp add: post_task_eq task_init_def size)
  have cl: "clock (snd (task_alloc ty 1 0 0 (Some msg) (msg_size msg) w)) = clock w"
    "clocks (snd (task_alloc ty 1 0 0 (Some msg) (msg_size msg) w)) = clocks w" for ty
    using task_alloc_env(1) [of w ty 1 0 0 "Some msg" "msg_size msg"]
    by (simp_all add: same_but_mem_def)
  show ?thesis
    using s inv
    by (auto simp: net_process_single_post q agent_add_task_running [OF assms(2)] cl
        split: option.splits if_splits)
qed

theorem net_single_event_correct_witness:
  "fst (net_process_message demo_proto demo_garbage (demo_agent []) [1, 5, 2, 0, 0] demo_env) = 0
   \<and> map tk_type (sc_jobs (sched (fst (snd (net_process_message demo_proto demo_garbage
        (demo_agent []) [1, 5, 2, 0, 0] demo_env))))) = [TASK_TYPE_ENB_SETUP]"
proof -
  obtain r b v where m: "net_process_message demo_proto demo_garbage (demo_agent [])
      [1, 5, 2, 0, 0] demo_env = (r, b, v)" by (rule prod_cases3)
  from net_single_event_correct [OF _ _ _ m] show ?thesis
    by (simp add: m single_task_def const_simps)
qed

end
