(* ===== verification/NetTrigProps.thy ===== *)
theory NetTrigProps
  imports NetBooks Demo
begin

text \<open>
  The properties of the handlers of triggered requests, alone and together with the tasks they
  lead to.
\<close>

section \<open>UE reports\<close>

lemma watch_made:
  assumes "watch proc m ty n tty msg a w = (r, b, v)" and "\<forall>n. malloc_ok w n"
  shows "r = Some (if sc_stop (sched a) then - 1 else 0)"
    and "b = fst (snd (agent_add_task (a\<lparr>trig := trig_enter (new_trig (trig a) m ty n msg) (trig a)\<rparr>)
             (trig_task tty (tx_next (trig a))) w))"
    and "task_mem v = task_mem w + block_cost (sizeof_emtask w) 0"
    and "trig_mem v = trig_mem w + block_cost (sizeof_emtri w) (msg_size msg)"
    and "clocks v = Suc (clocks w)" and "clock v = clock w" and "malloc_ok v = malloc_ok w"
proof -
  have "\<not> (\<exists>n. \<not> malloc_ok w n)" "alloc_ok w (Some msg)"
    using assms(2) by (simp_all add: alloc_ok_def)
  then show "r = Some (if sc_stop (sched a) then - 1 else 0)"
    and "b = fst (snd (agent_add_task (a\<lparr>trig := trig_enter (new_trig (trig a) m ty n msg) (trig a)\<rparr>)
             (trig_task tty (tx_next (trig a))) w))"
    and "task_mem v = task_mem w + block_cost (sizeof_emtask w) 0"
    and "trig_mem v = trig_mem w + block_cost (sizeof_emtri w) (msg_size msg)"
    and "clocks v = Suc (clocks w)" and "clock v = clock w" and "malloc_ok v = malloc_ok w"
    using assms(1) by (auto elim!: watch_cases)
qed

lemma drop_inst_first:
  assumes "inst_key m ty n t" and "tx_ts (trig a) = t # ts"
    and "drop_inst m ty n a w = (r, b, v)"
  shows "r = 0 \<and> b = a\<lparr>trig := (trig a)\<lparr>tx_ts := ts\<rparr>\<rparr> \<and> trig_mem v = trig_mem w - trig_price w t"
  using assms by (auto simp: drop_inst_def trig_del_by_inst_def)

text \<open>
  (C38) Requesting UE reports and cancelling them with a second message of the same module brings the
  registry back, when there is memory for the trigger and its task and the scheduler is not told to
  stop: the same triggers in the same order and the same trigger memory as before, only
  the next identifier is one higher.  In between the trigger is found under the identifier that was
  next, and one task that carries it is queued.
\<close>

theorem ue_report_add_then_remove:
  assumes "net_te_ue_report P g a on w = (r, b, v)" and "net_te_ue_report P g b off v = (s, c, u)"
    and "epp_trigger_op P on = EP_OPERATION_ADD P" and "epp_trigger_op P off \<noteq> EP_OPERATION_ADD P"
    and "msg_mod P g off = msg_mod P g on" and "\<forall>n. malloc_ok w n" and "\<not> sc_stop (sched a)"
  shows "r = 0 \<and> s = 0
    \<and> trig_find_by_id (trig b) (tx_next (trig a)) = Some (new_trig (trig a) (msg_mod P g on) TR_TYPE_UE_REP 0 on)
    \<and> sc_jobs (sched b) = sc_jobs (sched a)
        @ [(trig_task TASK_TYPE_UE_REPORT (tx_next (trig a)))\<lparr>tk_issued := clock w (clocks w)\<rparr>]
    \<and> trig c = (trig a)\<lparr>tx_next := tx_next (trig a) + 1\<rparr> \<and> sched c = sched b
    \<and> trig_mem u = trig_mem w"
proof -
  let ?t = "new_trig (trig a) (msg_mod P g on) TR_TYPE_UE_REP 0 on"
  obtain q where s: "watch ''net_te_ue_report'' (msg_mod P g on) TR_TYPE_UE_REP 0
      TASK_TYPE_UE_REPORT on a w = (q, b, v)" and r: "r = (case q of None \<Rightarrow> 0 | Some r \<Rightarrow> r)"
    using assms(1,3) by (auto simp: net_trigger_watch(1) split: prod.splits)
  note b = watch_made [OF s assms(6)]
  have tb: "trig b = trig_enter ?t (trig a)" using b(2) by simp
  have d: "drop_inst (msg_mod P g on) TR_TYPE_UE_REP 0 b v = (s, c, u)"
    using assms(2,4,5) by (simp add: net_trigger_watch(1))
  have c: "s = 0 \<and> c = b\<lparr>trig := (trig b)\<lparr>tx_ts := tx_ts (trig a)\<rparr>\<rparr>
      \<and> trig_mem u = trig_mem v - trig_price v ?t"
    by (rule drop_inst_first [OF _ _ d]) (simp_all add: inst_key_def tb)
  have "sizeof_emtri v = sizeof_emtri w" using calm_sizes(5) [OF calm_watch [OF s]] .
  then have "trig_mem u = trig_mem w" using c b(4) by simp
  then show ?thesis
    using r b(1,2) c assms(7) by (simp add: tb trig_find_by_id_def trig_enter_def)
qed

theorem ue_report_add_then_remove_witness:
  "tx_ts (trig (fst (snd (net_te_ue_report demo_proto demo_garbage
      (fst (snd (net_te_ue_report demo_proto demo_garbage (demo_agent []) [3, 5, 6, 1] demo_env)))
      [3, 5, 6, 2]
      (snd (snd (net_te_ue_report demo_proto demo_garbage (demo_agent []) [3, 5, 6, 1] demo_env)))))))
   = []"
proof -
  obtain r b v where on: "net_te_ue_report demo_proto demo_garbage (demo_agent []) [3, 5, 6, 1]
      demo_env = (r, b, v)" by (rule prod_cases3)
  obtain s c u where off: "net_te_ue_report demo_proto demo_garbage b [3, 5, 6, 2] v = (s, c, u)"
    by (rule prod_cases3)
  from ue_report_add_then_remove [OF on off] show ?thesis
    by (simp add: on off msg_mod_def trig_ctx_init_def)
qed

text \<open>
  The rollback.  When there is memory for the trigger but not for its task, the request is
  answered with 0 like a success, but nothing of it remains: the registry, its memory, the queue and
  the task memory are as before, only the identifier is used up.
\<close>

theorem ue_report_rolled_back:
  assumes "net_te_ue_report P g a msg w = (r, b, v)" and "epp_trigger_op P msg = EP_OPERATION_ADD P"
    and "malloc_ok w (mallocs w)" and "malloc_ok w (Suc (mallocs w))"
    and "\<not> malloc_ok w (Suc (Suc (mallocs w)))"
  shows "r = 0 \<and> b = a\<lparr>trig := (trig a)\<lparr>tx_next := tx_next (trig a) + 1\<rparr>\<rparr>
    \<and> trig_mem v = trig_mem w \<and> task_mem v = task_mem w"
proof -
  let ?p = "''net_te_ue_report''"
  obtain q where s: "watch ?p (msg_mod P g msg) TR_TYPE_UE_REP 0
      TASK_TYPE_UE_REPORT msg a w = (q, b, v)" and r: "r = (case q of None \<Rightarrow> 0 | Some r \<Rightarrow> r)"
    using assms(1,2) by (auto simp: net_trigger_watch(1) split: prod.splits)
  have "fst (task_alloc TASK_TYPE_UE_REPORT 1 0 i None 0
      (snd (trig_alloc m ty n (Some msg) (msg_size msg) w))) = None" for i m ty n
    using assms(3-5) trig_alloc_env(1) [of w m ty n "Some msg" "msg_size msg"]
    by (simp add: alloc_ok_def same_but_mem_def snd_trig_alloc trig_mem_add_def Let_def)
  then have "q = None"
    using s fst_trig_alloc [of _ _ _ "Some msg" "msg_size msg" w]
    by (auto simp: watch_def Let_def split_beta split: option.splits)
  then show ?thesis
    using s r assms(3,4) by (auto elim!: watch_cases simp: alloc_ok_def)
qed

definition short_env :: env where
  "short_env = demo_env\<lparr>malloc_ok := (\<lambda>n. n < 2)\<rparr>"

theorem ue_report_rolled_back_witness:
  "tx_ts (trig (fst (snd (net_te_ue_report demo_proto demo_garbage (demo_agent []) [3, 5, 6, 1]
      short_env)))) = []"
proof -
  obtain r b v where on: "net_te_ue_report demo_proto demo_garbage (demo_agent []) [3, 5, 6, 1]
      short_env = (r, b, v)" by (rule prod_cases3)
  from ue_report_rolled_back [OF on] have "tx_ts (trig b) = []"
    by (simp add: short_env_def trig_ctx_init_def)
  then show ?thesis by (simp add: on)
qed

section \<open>Cell measurements\<close>

text \<open>No trigger of the type that the cancellation of a cell measurement looks for.\<close>

definition no_mac_rep :: "emage \<Rightarrow> bool" where
  "no_mac_rep a \<longleftrightarrow> (\<forall>t \<in> set (tx_ts (trig a)). tr_type t \<noteq> TR_TYPE_MAC_REP)"

lemma no_mac_rep_watch:
  assumes "no_mac_rep a" and "ty \<noteq> TR_TYPE_MAC_REP" and "watch proc m ty n tty msg a w = (r, b, v)"
  shows "no_mac_rep b"
  using assms(3,1,2) by (cases rule: watch_cases) (auto simp: no_mac_rep_def)

lemma no_mac_rep_del:
  "\<forall>t \<in> set (tx_ts ctx). tr_type t \<noteq> TR_TYPE_MAC_REP \<Longrightarrow>
     \<forall>t \<in> set (tx_ts (fst (snd (trig_del_by_inst ctx m ty n w)))). tr_type t \<noteq> TR_TYPE_MAC_REP"
  by (auto simp: trig_del_by_inst_def split: option.split dest: delete_first_subset [THEN subsetD])

lemma no_mac_rep_drop:
  "no_mac_rep a \<Longrightarrow> drop_inst m ty n a w = (r, b, v) \<Longrightarrow> no_mac_rep b"
  using no_mac_rep_del [of "trig a" m ty n w]
  by (auto simp: no_mac_rep_def drop_inst_def split: prod.splits)

lemma no_mac_rep_ue_measure_del:
  "\<forall>t \<in> set (tx_ts ctx). tr_type t \<noteq> TR_TYPE_MAC_REP \<Longrightarrow>
     \<forall>t \<in> set (tx_ts (fst (ue_measure_del m rs n ctx w))). tr_type t \<noteq> TR_TYPE_MAC_REP"
proof (induction n arbitrary: ctx w)
  case (Suc n)
  show ?case using Suc.IH [OF no_mac_rep_del [OF Suc.prems]] by (simp add: split_beta)
qed simp

lemma no_mac_rep_ue_measure_add:
  "no_mac_rep a \<Longrightarrow> ue_measure_add m rs msg n a w = (b, v) \<Longrightarrow> no_mac_rep b"
proof (induction n arbitrary: a w)
  case (Suc n)
  obtain r c u where s: "watch ''net_te_ue_measure'' m TR_TYPE_UE_MEAS (uint (meas_id (rs n)))
      TASK_TYPE_UE_MEASURE msg a w = (r, c, u)" by (rule prod_cases3)
  have "no_mac_rep c" by (rule no_mac_rep_watch [OF Suc.prems(1) _ s]) (simp add: const_simps)
  then show ?case using Suc.prems(2) s Suc.IH
    by (cases r) (simp_all add: ue_measure_add_watch del: ue_measure_add.simps)
qed simp

lemma agent_add_task_trig: "agent_add_task a t w = (r, b, v) \<Longrightarrow> trig b = trig a"
  by (metis agent_add_task_simps(3) fst_conv snd_conv)

lemma post_task_trig: "post_task ty intv res trg msg sz a w = (r, b, v) \<Longrightarrow> trig b = trig a"
  by (auto simp: post_task_eq split: if_splits dest: agent_add_task_trig)

lemma no_mac_rep_process:
  assumes "no_mac_rep a" and "net_process_message P g a msg w = (r, b, v)"
  shows "no_mac_rep b"
proof -
  have post: "no_mac_rep b" if "post_task ty intv res trg (Some msg) sz a w = (r, b, v)"
    for ty intv res trg sz r b v
    using post_task_trig [OF that] assms(1) by (simp add: no_mac_rep_def)
  have watch: "no_mac_rep b"
    if "watch proc m ty n tty msg a w = (r, b, v)" "ty \<noteq> TR_TYPE_MAC_REP" for proc m ty n tty r b v
    using that(1) by (rule no_mac_rep_watch [OF assms(1) that(2)])
  have meas: "no_mac_rep b" if "net_te_ue_measure P g a msg w = (r, b, v)"
    using that assms(1) no_mac_rep_ue_measure_add [OF assms(1)]
      no_mac_rep_ue_measure_del [of "trig a"]
    by (auto simp: net_te_ue_measure_def Let_def no_mac_rep_def split: if_splits prod.splits)
       (metis fst_conv)
  show ?thesis
    using assms
    by (auto simp: net_process_message_def net_process_single_event_def net_sc_hello_def
        net_process_sched_event_def net_process_trigger_event_def net_single_post
        net_trigger_watch Let_def const_simps
        split: if_splits prod.splits intro: post watch [unfolded const_simps] meas no_mac_rep_drop)
qed

lemma no_mac_rep_run:
  "no_mac_rep a \<Longrightarrow>
     no_mac_rep (fst (fold (\<lambda>m (a, w). snd (net_process_message P g a m w)) ms (a, w)))"
proof (induction ms arbitrary: a w)
  case (Cons m ms)
  obtain r b v where e: "net_process_message P g a m w = (r, b, v)" by (rule prod_cases3)
  from Cons.IH [OF no_mac_rep_process [OF Cons.prems e]] show ?case by (simp add: e)
qed simp

text \<open>
  (C39) A cell measurement cannot be cancelled.  The trigger of such a request carries the type of its
  task, the cancellation looks for another type, and no message ever makes a trigger of that other
  type: after any sequence of messages to a new agent, every cancellation fails with - 1 and
  changes nothing.
\<close>

theorem cell_measure_never_cancelled:
  "let (a, w) = fold (\<lambda>m (a, w). snd (net_process_message P g a m w)) ms (a0, w0) in
     trig a0 = trig_ctx_init \<and> epp_trigger_op P off \<noteq> EP_OPERATION_ADD P
     \<longrightarrow> net_te_cell_meas_report P g a off w = (- 1, a, w)"
proof -
  obtain a w where f: "fold (\<lambda>m (a, w). snd (net_process_message P g a m w)) ms (a0, w0) = (a, w)"
    by fastforce
  have "net_te_cell_meas_report P g a off w = (- 1, a, w)"
    if "trig a0 = trig_ctx_init" and "epp_trigger_op P off \<noteq> EP_OPERATION_ADD P"
  proof -
    have "no_mac_rep a0" by (simp add: that(1) no_mac_rep_def trig_ctx_init_def)
    from no_mac_rep_run [OF this, of P g ms w0] have "no_mac_rep a" by (simp add: f)
    then have "List.find (inst_key m TR_TYPE_MAC_REP 0) (tx_ts (trig a)) = None" for m
      by (auto simp: find_None_iff_ball inst_key_def no_mac_rep_def)
    then show ?thesis using that(2)
      by (simp add: net_te_cell_meas_report_def trig_del_by_inst_def Let_def)
  qed
  then show ?thesis by (simp add: f)
qed

theorem cell_measure_never_cancelled_witness:
  "let (a, w) = fold (\<lambda>m (a, w). snd (net_process_message demo_proto demo_garbage a m w))
      [[3, 5, 8, 1, 0]] (demo_agent [], demo_env) in
     net_te_cell_meas_report demo_proto demo_garbage a [3, 5, 8, 2, 0] w = (- 1, a, w)
     \<and> length (tx_ts (trig a)) = 1"
proof -
  obtain a w where f: "fold (\<lambda>m (a, w). snd (net_process_message demo_proto demo_garbage a m w))
      [[3, 5, 8, 1, 0]] (demo_agent [], demo_env) = (a, w)" by fastforce
  have on: "net_te_cell_meas_report demo_proto demo_garbage (demo_agent []) [3, 5, 8, 1, 0] demo_env
      = (fst (net_process_message demo_proto demo_garbage (demo_agent []) [3, 5, 8, 1, 0] demo_env), a, w)"
    using f by (simp add: net_process_message_def net_process_trigger_event_def prod_eq_iff Let_def)
  then obtain q where "watch ''net_te_cell_meas_report'' (msg_mod demo_proto demo_garbage [3, 5, 8, 1, 0])
      TASK_TYPE_CELL_MEASURE 0 TASK_TYPE_CELL_MEASURE [3, 5, 8, 1, 0] (demo_agent []) demo_env = (q, a, w)"
    by (auto simp: net_trigger_watch(2) split: prod.splits)
  from watch_made(2) [OF this] have "length (tx_ts (trig a)) = 1" by (simp add: trig_ctx_init_def)
  then show ?thesis
    using cell_measure_never_cancelled [of demo_proto demo_garbage "[[3, 5, 8, 1, 0]]" "demo_agent []"
        demo_env "[3, 5, 8, 2, 0]"] f by simp
qed

end
