(* ===== verification/NetMeasure.thy ===== *)
theory NetMeasure
  imports NetTrigProps Sched
begin

text \<open>
  A UE measurement request with several measures: what the handler makes of it, and what the tasks
  it queues do when they run.
\<close>

section \<open>The insertion loop in closed form\<close>

text \<open>The triggers, newest first, and the tasks, oldest first, for \<open>n\<close> measures.\<close>

definition meas_trigs :: "i32 \<Rightarrow> u32 \<Rightarrow> (nat \<Rightarrow> ep_rrc) \<Rightarrow> bytes \<Rightarrow> nat \<Rightarrow> emtri list" where
  "meas_trigs i m rs msg n =
     map (\<lambda>k. (trig_init m TR_TYPE_UE_MEAS (uint (meas_id (rs k))) (Some msg) (msg_size msg))
            \<lparr>tr_id := i + word_of_nat (n - 1 - k)\<rparr>) [0..<n]"

definition meas_tasks :: "i32 \<Rightarrow> (nat \<Rightarrow> timespec) \<Rightarrow> nat \<Rightarrow> nat \<Rightarrow> emtask list" where
  "meas_tasks i cl c n =
     map (\<lambda>j. (trig_task TASK_TYPE_UE_MEASURE (i + word_of_nat j))\<lparr>tk_issued := cl (c + j)\<rparr>) [0..<n]"

lemma meas_trigs_Suc:
  "meas_trigs i m rs msg (Suc n) = meas_trigs (i + 1) m rs msg n
     @ [(trig_init m TR_TYPE_UE_MEAS (uint (meas_id (rs n))) (Some msg) (msg_size msg))\<lparr>tr_id := i\<rparr>]"
proof -
  have "i + word_of_nat (n - k) = i + 1 + word_of_nat (n - Suc k)" if "k < n" for k
  proof -
    have "n - k = Suc (n - Suc k)" using that by simp
    then show ?thesis by (simp only: of_nat_Suc add.assoc)
  qed
  then show ?thesis by (simp add: meas_trigs_def)
qed

lemma meas_tasks_Suc:
  "meas_tasks i cl c (Suc n) =
     (trig_task TASK_TYPE_UE_MEASURE i)\<lparr>tk_issued := cl c\<rparr> # meas_tasks (i + 1) cl (Suc c) n"
proof -
  have "[0..<Suc n] = 0 # map Suc [0..<n]" by (simp add: upt_conv_Cons map_Suc_upt del: upt_Suc)
  then show ?thesis by (simp add: meas_tasks_def add.assoc del: upt_Suc)
qed

lemma ue_measure_add_closed:
  assumes "ue_measure_add m rs msg n a w = (b, v)" and "\<forall>k. malloc_ok w k" and "\<not> sc_stop (sched a)"
  shows "trig b = \<lparr>tx_ts = meas_trigs (tx_next (trig a)) m rs msg n @ tx_ts (trig a),
                   tx_next = tx_next (trig a) + word_of_nat n\<rparr>"
    and "sc_jobs (sched b) = sc_jobs (sched a)
          @ meas_tasks (tx_next (trig a)) (clock w) (clocks w) n"
proof -
  have "trig b = \<lparr>tx_ts = meas_trigs (tx_next (trig a)) m rs msg n @ tx_ts (trig a),
                   tx_next = tx_next (trig a) + word_of_nat n\<rparr>
    \<and> sc_jobs (sched b) = sc_jobs (sched a)
          @ meas_tasks (tx_next (trig a)) (clock w) (clocks w) n"
    using assms
  proof (induction n arbitrary: a w)
    case 0
    then show ?case by (simp add: meas_trigs_def meas_tasks_def)
  next
    case (Suc n)
    obtain r c u where s: "watch ''net_te_ue_measure'' m TR_TYPE_UE_MEAS (uint (meas_id (rs n)))
        TASK_TYPE_UE_MEASURE msg a w = (r, c, u)" by (rule prod_cases3)
    note wm = watch_made [OF s Suc.prems(2)]
    have go: "ue_measure_add m rs msg n c u = (b, v)"
      using Suc.prems(1) s wm(1) by (simp add: ue_measure_add_watch del: ue_measure_add.simps)
    have mem: "\<forall>k. malloc_ok u k" using wm(7) Suc.prems(2) by simp
    have run: "\<not> sc_stop (sched c)" using wm(2) Suc.prems(3) by simp
    show ?case
      using Suc.IH [OF go mem run] wm(2,5,6) Suc.prems(3)
      by (simp add: meas_trigs_Suc meas_tasks_Suc new_trig_def add.assoc)
  qed
  then show "trig b = \<lparr>tx_ts = meas_trigs (tx_next (trig a)) m rs msg n @ tx_ts (trig a),
                   tx_next = tx_next (trig a) + word_of_nat n\<rparr>"
    and "sc_jobs (sched b) = sc_jobs (sched a)
          @ meas_tasks (tx_next (trig a)) (clock w) (clocks w) n" by simp_all
qed

section \<open>Properties\<close>

text \<open>
  A request for \<open>n\<close> measures, with memory at hand, enters \<open>n\<close> triggers with consecutive
  identifiers, one per measure and each with a copy of the whole request, the last measure first,
  and queues \<open>n\<close> tasks, one per trigger in the order of the identifiers.
\<close>

theorem ue_measure_request_correct:
  assumes "net_te_ue_measure P g a msg w = (r, b, v)"
    and "epp_trigger_op P msg = EP_OPERATION_ADD P"
    and "epp_trigger_uemeas_req P msg (g_meas g) = (e, q)"
    and "\<forall>k. malloc_ok w k" and "\<not> sc_stop (sched a)"
  shows "r = 0
    \<and> tx_ts (trig b) = meas_trigs (tx_next (trig a)) (msg_mod P g msg) (rrc q) msg (nof_rrc q)
        @ tx_ts (trig a)
    \<and> sc_jobs (sched b) = sc_jobs (sched a)
        @ meas_tasks (tx_next (trig a)) (clock w) (clocks w) (nof_rrc q)"
proof -
  have u: "ue_measure_add (msg_mod P g msg) (rrc q) msg (nof_rrc q) a w = (b, v)" and "r = 0"
    using assms(1-3) by (auto simp: net_te_ue_measure_def Let_def split: prod.splits)
  then show ?thesis using ue_measure_add_closed [OF u assms(4,5)] by simp
qed

theorem ue_measure_request_correct_witness:
  "map tr_id (tx_ts (trig (fst (snd (net_te_ue_measure demo_proto demo_garbage (demo_agent [])
      [3, 5, 7, 1, 3] demo_env))))) = [3, 2, 1]
   \<and> map tk_trig (sc_jobs (sched (fst (snd (net_te_ue_measure demo_proto demo_garbage (demo_agent [])
      [3, 5, 7, 1, 3] demo_env))))) = [1, 2, 3]"
proof -
  obtain r b v where on: "net_te_ue_measure demo_proto demo_garbage (demo_agent []) [3, 5, 7, 1, 3]
      demo_env = (r, b, v)" by (rule prod_cases3)
  have l: "[0..<3] = [0, 1, 2 :: nat]" by (simp add: upt_rec)
  from ue_measure_request_correct [OF on] show ?thesis
    by (simp add: on trig_ctx_init_def meas_trigs_def meas_tasks_def trig_task_def l)
qed

lemma meas_trigs_find:
  assumes "trig_wf \<lparr>tx_ts = meas_trigs i m rs msg n @ ts, tx_next = nx\<rparr>" and "j < n"
  shows "\<exists>t. List.find (\<lambda>t. tr_id t = i + word_of_nat j) (meas_trigs i m rs msg n @ ts) = Some t
    \<and> tr_msg t = Some (take (unat (msg_size msg)) msg) \<and> tr_mod t = m"
proof -
  let ?k = "n - 1 - j"
  let ?t = "(trig_init m TR_TYPE_UE_MEAS (uint (meas_id (rs ?k))) (Some msg) (msg_size msg))
    \<lparr>tr_id := i + word_of_nat j\<rparr>"
  have k: "?k < n" "n - 1 - ?k = j" using assms(2) by simp_all
  have "?t \<in> set (meas_trigs i m rs msg n)"
    unfolding meas_trigs_def using k by (auto intro!: image_eqI [where x = ?k])
  then have "List.find (\<lambda>t. tr_id t = tr_id ?t) (meas_trigs i m rs msg n @ ts) = Some ?t"
    using assms(1) by (intro find_key) (simp_all add: trig_wf_def)
  then show ?thesis by simp
qed

text \<open>
  (C40) The work grows with the square of the request.  Each of the \<open>n\<close> tasks reads the whole request
  again, so each makes \<open>n\<close> calls.  With memory at hand, a scheduler that is not told to stop, a wrapper
  that has the callback, identifiers left and a request that the library can read, a request for \<open>n\<close>
  measures leads to \<open>n * n\<close> calls of the wrapper,
  with every measure reported under every identifier.
\<close>

theorem ue_measure_calls_squared:
  assumes "net_te_ue_measure P g a msg w = (r, b, v)"
    and "epp_trigger_op P msg = EP_OPERATION_ADD P"
    and "epp_trigger_uemeas_req P msg (g_meas g) = (0, q)"
    and "\<forall>k. malloc_ok w k" and "\<not> sc_stop (sched a)"
    and "trig_wf (trig a)" and "unat (tx_next (trig a)) + nof_rrc q < 2 ^ 31"
    and "length msg < 2 ^ 32" and "has_op a op_ue_measure"
  shows "let ts = drop (length (sc_jobs (sched a))) (sc_jobs (sched b)) in
    length ts = nof_rrc q
    \<and> (\<forall>t \<in> set ts. \<forall>x. length (calls_of (trace (snd (sched_perform_ue_measure P g b t x))))
          = length (calls_of (trace x)) + nof_rrc q)"
proof -
  let ?n = "nof_rrc q" and ?i = "tx_next (trig a)"
  have u: "ue_measure_add (msg_mod P g msg) (rrc q) msg ?n a w = (b, v)"
    using assms(1-3) by (auto simp: net_te_ue_measure_def Let_def split: prod.splits)
  note b = ue_measure_add_closed [OF u assms(4,5)]
  have wf: "trig_wf (trig b)" by (rule trig_wf_ue_measure_add [OF u assms(6,7)])
  have op: "has_op b op_ue_measure"
    using calm_ue_measure_add [OF u] assms(9) by (simp add: calm_def has_op_def)
  have size: "take (unat (msg_size msg)) msg = msg"
    using assms(8) by (simp add: msg_size_def unat_of_nat)
  have calls: "length (calls_of (trace (ue_measure_calls b t rs n x))) = length (calls_of (trace x)) + n"
    for t rs n x
    by (induction n arbitrary: x) (simp_all add: call_def)
  have "length (calls_of (trace (snd (sched_perform_ue_measure P g b t x))))
      = length (calls_of (trace x)) + ?n" if t: "t \<in> set (meas_tasks ?i (clock w) (clocks w) ?n)" for t x
  proof -
    from t obtain j where "j < ?n" and j: "tk_trig t = ?i + word_of_nat j"
      by (auto simp: meas_tasks_def trig_task_def)
    then obtain t' where "trig_find_by_id (trig b) (tk_trig t) = Some t'" and "tr_msg t' = Some msg"
      using meas_trigs_find [OF wf [unfolded b(1)] \<open>j < ?n\<close>] by (auto simp: trig_find_by_id_def b(1) size)
    then show ?thesis
      using op assms(3) by (simp add: sched_perform_ue_measure_def buf_of_def calls)
  qed
  then show ?thesis by (simp add: b(2) meas_tasks_def Let_def)
qed

theorem ue_measure_calls_squared_witness:
  "length (sc_jobs (sched (fst (snd (net_te_ue_measure demo_proto demo_garbage (demo_agent [])
      [3, 5, 7, 1, 3] demo_env))))) = 3"
proof -
  obtain r b v where on: "net_te_ue_measure demo_proto demo_garbage (demo_agent []) [3, 5, 7, 1, 3]
      demo_env = (r, b, v)" by (rule prod_cases3)
  let ?q = "(g_meas demo_garbage)\<lparr>nof_rrc := 3\<rparr>"
  have "has_op (demo_agent []) op_ue_measure" by (simp add: has_op_def all_ops_def)
  then show ?thesis
    using ue_measure_calls_squared [OF on, of ?q] trig_wf_init
    by (simp add: on Let_def trig_ctx_init_def)
qed

section \<open>Requests to a stopping agent\<close>

text \<open>
  While the agent stops, requests leak: a UE report request that arrives after the scheduler was
  told to stop is refused with - 1, but its task is neither queued nor freed (the memory stays
  charged), and its trigger stays in the registry without any task.
\<close>

theorem ue_report_leaks_when_stopping:
  assumes "net_te_ue_report P g a msg w = (r, b, v)" and "epp_trigger_op P msg = EP_OPERATION_ADD P"
    and "\<forall>k. malloc_ok w k" and "sc_stop (sched a)"
  shows "r = - 1 \<and> sched b = sched a \<and> task_mem v = task_mem w + block_cost (sizeof_emtask w) 0
    \<and> tx_ts (trig b) = new_trig (trig a) (msg_mod P g msg) TR_TYPE_UE_REP 0 msg # tx_ts (trig a)"
proof -
  obtain q where s: "watch ''net_te_ue_report'' (msg_mod P g msg) TR_TYPE_UE_REP 0
      TASK_TYPE_UE_REPORT msg a w = (q, b, v)" and r: "r = (case q of None \<Rightarrow> 0 | Some r \<Rightarrow> r)"
    using assms(1,2) by (auto simp: net_trigger_watch(1) split: prod.splits)
  show ?thesis
    using watch_made [OF s assms(3)] r assms(4)
    by (simp add: agent_add_task_def sched_add_task_def clock_gettime_def)
qed

definition stopping_agent :: emage where
  "stopping_agent = (demo_agent [])\<lparr>sched := (sched (demo_agent []))\<lparr>sc_stop := True\<rparr>\<rparr>"

theorem ue_report_leaks_when_stopping_witness:
  "fst (net_te_ue_report demo_proto demo_garbage stopping_agent [3, 5, 6, 1] demo_env) = - 1
   \<and> task_mem (snd (snd (net_te_ue_report demo_proto demo_garbage stopping_agent [3, 5, 6, 1] demo_env))) = 80"
proof -
  obtain r b v where on: "net_te_ue_report demo_proto demo_garbage stopping_agent [3, 5, 6, 1]
      demo_env = (r, b, v)" by (rule prod_cases3)
  from ue_report_leaks_when_stopping [OF on] have "r = - 1 \<and> task_mem v = 80"
    by (simp add: stopping_agent_def block_cost_def demo_env_def)
  then show ?thesis by (simp add: on)
qed

end
