(* ===== verification/NetLoop.thy ===== *)
theory NetLoop
  imports Net
begin

text \<open>
  \<open>src/agent/net.c\<close>, second half: the thread of the network listener.  \<open>net_loop\<close> blocks, is told
  to stop by another thread and shares the status of the connection with the scheduler, so it is a
  machine: one step goes from one point where the code looks at the shared state to the next.
  What the kernel answers in a step is its input.
\<close>

section \<open>System calls\<close>

definition EBADF :: int where [const_simps]: "EBADF = 9"
definition EAGAIN :: int where [const_simps]: "EAGAIN = 11"
definition EALREADY :: int where [const_simps]: "EALREADY = 114"

text \<open>The answer to a \<open>recv\<close>: some bytes (none when the peer has closed) or an error.\<close>

datatype recv_answer = RecvData bytes | RecvFail int

record sysin =
  in_getfl :: int \<comment> \<open>\<open>fcntl(F_GETFL)\<close>\<close>
  in_setfl :: int \<comment> \<open>\<open>fcntl(F_SETFL)\<close>\<close>
  in_sockopt :: int \<comment> \<open>\<open>setsockopt\<close>\<close>
  in_host :: "bytes option" \<comment> \<open>\<open>gethostbyname\<close>\<close>
  in_connect :: "int \<times> int" \<comment> \<open>result of \<open>connect\<close>, and \<open>errno\<close> when it is negative\<close>
  in_recv :: recv_answer

definition net_noblock_socket :: "sysin \<Rightarrow> int \<Rightarrow> env \<Rightarrow> int \<times> env" where
  "net_noblock_socket i fd w =
     (if in_getfl i < 0 then (- 1, w) else (in_setfl i, emit (EvNonblock fd) w))"

definition net_nodelay_socket :: "sysin \<Rightarrow> int \<Rightarrow> env \<Rightarrow> int \<times> env" where
  "net_nodelay_socket i fd w =
     (let w = emit (EvNodelay fd) w
      in if in_sockopt i < 0 then (in_sockopt i, w) else (0, w))"

text \<open>
  \<open>recv\<close> puts at most \<open>n\<close> bytes at the given place of the buffer; it returns their number and
  leaves \<open>errno\<close> alone when it succeeds.  A closed descriptor is an error.  Bytes that fall behind
  the end of the array are lost here and overwrite something else in the process.
\<close>

definition buf_write :: "nat \<Rightarrow> bytes \<Rightarrow> bytes \<Rightarrow> bytes" where
  "buf_write pos bs buf = take EM_BUF_SIZE (take pos buf @ bs @ drop (pos + length bs) buf)"

definition net_recv ::
    "netctx \<Rightarrow> nat \<Rightarrow> nat \<Rightarrow> recv_answer \<Rightarrow> int \<Rightarrow> env \<Rightarrow> int \<times> netctx \<times> int \<times> env" where
  "net_recv ctx pos n ans err w =
     (if nt_sockfd ctx < 0 then (- 1, ctx, EBADF, w)
      else case ans of
          RecvFail e \<Rightarrow> (- 1, ctx, e, w)
        | RecvData bs \<Rightarrow>
            let bs = take n bs;
                w = (if pos + length bs > EM_BUF_SIZE then emit (EvFault BufferOverflow) w else w)
            in (int (length bs), ctx\<lparr>nt_buf := buf_write pos bs (nt_buf ctx)\<rparr>, err, w))"

section \<open>Waiting times\<close>

text \<open>\<open>while(wi >= 1000) { wi -= 1000; wt.tv_sec += 1; } wt.tv_nsec = wi * 1000000\<close>\<close>

function wait_time :: "u32 \<Rightarrow> int \<Rightarrow> timespec" where
  "wait_time wi sec =
     (if wi \<ge> 1000 then wait_time (wi - 1000) (sec + 1)
      else Timespec sec (uint (wi * 1000000)))"
  by pat_completeness auto
termination
proof (relation "measure (unat \<circ> fst)")
  fix wi :: u32 and sec :: int
  assume "1000 \<le> wi"
  then have "unat (wi - 1000) = unat wi - 1000" "1000 \<le> unat wi"
    by (simp_all add: unat_sub word_le_nat_alt)
  then show "((wi - 1000, sec + 1), (wi, sec)) \<in> measure (unat \<circ> fst)" by simp
qed simp

declare wait_time.simps [simp del]

definition reconnect_time :: "timespec \<Rightarrow> timespec" where
  "reconnect_time wt = Timespec (1 + tv_sec wt) (tv_nsec wt)"

section \<open>Connecting\<close>

text \<open>\<open>net_connect_to_controller\<close> up to the label \<open>again\<close>; the address when it gets there.\<close>

definition net_connect_prepare ::
    "sysin \<Rightarrow> emage \<Rightarrow> env \<Rightarrow> bytes option \<times> emage \<times> env" where
  "net_connect_prepare i a w =
     (let (a, w) =
        (if nt_sockfd (net a) < 0
         then let (fd, w) = socket w;
                  a = a\<lparr>net := (net a)\<lparr>nt_sockfd := fd\<rparr>\<rparr>
              in if fd < 0
                 then (a, EMLOG (Some (enb_id a)) ''net_connect_to_controller'' ''Cannot create socket'' w)
                 else let (r, w) = net_noblock_socket i fd w;
                          (r, w) = net_nodelay_socket i fd w
                      in (a, w)
         else (a, w))
      in if nt_sockfd (net a) < 0 then (None, a, w)
         else case in_host i of
             None \<Rightarrow> (None, a, EMLOG (Some (enb_id a)) ''net_connect_to_controller''
                               ''Cannot resolve controller %.16s'' w)
           | Some addr \<Rightarrow> (Some addr, a, w))"

text \<open>
  From the label on: what to do next (\<open>None\<close> is \<open>goto again\<close>), and the new \<open>errno\<close>.
\<close>

definition net_connect_try ::
    "sysin \<Rightarrow> bytes \<Rightarrow> emage \<Rightarrow> int \<Rightarrow> env \<Rightarrow> int option \<times> int \<times> env" where
  "net_connect_try i addr a err w =
     (if nt_stop (net a)
      then (Some (- 1), err,
            EMLOG (Some (enb_id a)) ''net_connect_to_controller'' ''Network is stopping!'' w)
      else
        let (st, e) = in_connect i;
            w = emit (EvConnect (nt_sockfd (net a)) addr (nt_port (net a))) w
        in if st < 0
           then if e = EALREADY then (None, e, emit (EvSleep (Timespec 0 100000000)) w)
                else (Some (- 1), e, EMLOG (Some (enb_id a)) ''net_connect_to_controller''
                                      ''Cannot connect to %.16s, error=%d'' w)
           else (Some 0, err, w))"

section \<open>The loop\<close>

text \<open>
  Where the thread is: at the top of \<open>while(1)\<close>, at \<open>again\<close> with the resolved address, at the head
  of the loop that collects the header or the rest of a message with \<open>bread\<close> bytes in the buffer,
  or gone.
\<close>

datatype net_phase = AtTop | AtConnect bytes | AtHeader nat | AtBody nat int | AtEnd

record netloop =
  nl_agent :: emage
  nl_env :: env
  nl_errno :: int
  nl_phase :: net_phase

definition relax :: "timespec \<Rightarrow> env \<Rightarrow> env" where
  "relax t w = emit (EvSleep t) w"

text \<open>\<open>net_not_connected(net); goto next;\<close>\<close>

definition net_reset :: "netloop \<Rightarrow> netloop" where
  "net_reset s =
     (let (a, w) = agent_not_connected (nl_agent s) (nl_env s)
      in s\<lparr>nl_agent := a, nl_env := w, nl_phase := AtTop\<rparr>)"

text \<open>After \<open>recv\<close>: more bytes, wait and try again, or give the connection up.\<close>

definition net_collect ::
    "sysin \<Rightarrow> nat \<Rightarrow> nat \<Rightarrow> (nat \<Rightarrow> net_phase) \<Rightarrow> netloop \<Rightarrow> netloop" where
  "net_collect i bread n phase s =
     (let a = nl_agent s;
          (op, ctx, err, w) = net_recv (net a) bread n (in_recv i) (nl_errno s) (nl_env s);
          s = s\<lparr>nl_agent := a\<lparr>net := ctx\<rparr>, nl_env := w, nl_errno := err\<rparr>
      in if op \<le> 0
         then if err = EAGAIN
              then s\<lparr>nl_env := relax (wait_time (nt_interval (net a)) 0) w\<rparr>
              else net_reset s
         else s\<lparr>nl_phase := phase (bread + nat op)\<rparr>)"

text \<open>
  One step.  The header loop ends with \<open>bread = EP_HEADER_SIZE\<close>; then the length of the message is
  read off the buffer.  The interval is read once when the thread starts and never changes.
\<close>

fun net_step :: "emproto \<Rightarrow> stack_garbage \<Rightarrow> sysin \<Rightarrow> netloop \<Rightarrow> netloop" where
  "net_step P g i s =
     (let a = nl_agent s; w = nl_env s;
          wc = reconnect_time (wait_time (nt_interval (net a)) 0)
      in case nl_phase s of
           AtEnd \<Rightarrow> s
         | AtTop \<Rightarrow>
             if nt_status (net a) = NET_STATUS_NOT_CONNECTED
             then if nt_stop (net a) then s\<lparr>nl_phase := AtEnd\<rparr>
                  else
                    let (addr, a, w) = net_connect_prepare i a w in
                    (case addr of
                       None \<Rightarrow> s\<lparr>nl_agent := a, nl_env := relax wc w\<rparr>
                     | Some addr \<Rightarrow> s\<lparr>nl_agent := a, nl_env := w, nl_phase := AtConnect addr\<rparr>)
             else s\<lparr>nl_phase := AtHeader 0\<rparr>
         | AtConnect addr \<Rightarrow>
             let (r, err, w) = net_connect_try i addr a (nl_errno s) w;
                 s = s\<lparr>nl_env := w, nl_errno := err\<rparr>
             in (case r of
                   None \<Rightarrow> s
                 | Some r \<Rightarrow>
                     if r \<noteq> 0 then s\<lparr>nl_env := relax wc w, nl_phase := AtTop\<rparr>
                     else
                       let (c, a, w) = net_connected a w in
                       if c \<noteq> 0
                       then let (a, w) = agent_not_connected a w
                            in s\<lparr>nl_agent := a, nl_env := relax wc w, nl_phase := AtTop\<rparr>
                       else s\<lparr>nl_agent := a, nl_env := w, nl_phase := AtHeader 0\<rparr>)
         | AtHeader bread \<Rightarrow>
             if bread < EP_HEADER_SIZE P
             then if nt_stop (net a) then s\<lparr>nl_phase := AtEnd\<rparr>
                  else net_collect i bread (EP_HEADER_SIZE P - bread) AtHeader s
             else if bread \<noteq> EP_HEADER_SIZE P then net_reset s
             else s\<lparr>nl_phase := AtBody bread (epp_msg_length P (take bread (nt_buf (net a))))\<rparr>
         | AtBody bread mlen \<Rightarrow>
             if int bread < mlen
             then if nt_stop (net a) then s\<lparr>nl_phase := AtEnd\<rparr>
                  else net_collect i bread (nat mlen - bread) (\<lambda>b. AtBody b mlen) s
             else if int bread \<noteq> mlen then net_reset s
             else
               let (r, a, w) = net_process_message P g a (take bread (nt_buf (net a))) w
               in s\<lparr>nl_agent := a, nl_env := w, nl_phase := AtTop\<rparr>)"

declare net_step.simps [simp del]

definition net_run :: "emproto \<Rightarrow> stack_garbage \<Rightarrow> sysin list \<Rightarrow> netloop \<Rightarrow> netloop" where
  "net_run P g is s = fold (net_step P g) is s"

section \<open>Start and stop\<close>

definition NET_WAIT_TIME :: u32 where [const_simps]: "NET_WAIT_TIME = 100"

definition net_start :: "u64 \<Rightarrow> netctx \<Rightarrow> env \<Rightarrow> int \<times> netctx \<times> env" where
  "net_start e ctx w =
     (let ctx = ctx\<lparr>nt_interval := NET_WAIT_TIME\<rparr>;
          ctx = ctx\<lparr>nt_sockfd := - 1\<rparr>;
          (ok, w) = pthread_create w;
          ctx = ctx\<lparr>nt_thread := ok\<rparr>
      in if \<not> ok then (- 1, ctx, EMLOG (Some e) ''net_start'' ''Failed to create the network thread'' w)
         else (0, ctx, w))"

text \<open>Joining waits until the thread is at its end, where it changes nothing more.\<close>

definition net_stop :: "netctx \<Rightarrow> env \<Rightarrow> int \<times> netctx \<times> env" where
  "net_stop ctx w =
     (let ctx = ctx\<lparr>nt_stop := True\<rparr>
      in (0, ctx, pthread_join (nt_thread ctx) w))"

end
