(* ===== verification/NetLoopFacts.thy ===== *)
theory NetLoopFacts
  imports NetLoop NetBooks
begin

text \<open>
  One step of the receive loop, taken apart: besides handling a message and starting the Hello task
  it only ever touches the network context and the trace.
\<close>

section \<open>Housekeeping\<close>

text \<open>
  \<open>minor a w b v\<close>: only the network context and the trace may differ; nothing was sent, no call made,
  and no fault occurred as long as the log is open.
\<close>

definition minor :: "emage \<Rightarrow> env \<Rightarrow> emage \<Rightarrow> env \<Rightarrow> bool" where
  "minor a w b v \<longleftrightarrow> sched b = sched a \<and> trig b = trig a \<and> ops b = ops a \<and> enb_id b = enb_id a
     \<and> same_heap w v \<and> clocks v = clocks w
     \<and> calls_of (trace v) = calls_of (trace w) \<and> sends_of (trace v) = sends_of (trace w)
     \<and> (log_fd w \<noteq> None \<longrightarrow> faults_of (trace v) = faults_of (trace w))"

lemma minor_refl [simp]: "minor a w a w"
  by (simp add: minor_def)

lemma minor_trans [trans]: "minor a w b v \<Longrightarrow> minor b v c u \<Longrightarrow> minor a w c u"
  by (auto simp: minor_def same_heap_def)

lemma minor_net [simp]: "minor a w (a\<lparr>net := ctx\<rparr>) w"
  by (simp add: minor_def)

lemma minor_env [simp]:
  "minor a w a (EMLOG e p x w)" "minor a w a (emit (EvSleep t) w)" "minor a w a (relax t w)"
  "minor a w a (emit (EvClose fd) w)" "minor a w a (emit (EvConnect fd ad pt) w)"
  "minor a w a (emit (EvNonblock fd) w)" "minor a w a (emit (EvNodelay fd) w)"
  by (simp_all add: minor_def EMLOG_fault_iff relax_def same_heap_def)

lemma minor_not_connected:
  "minor a w (fst (agent_not_connected a w)) (snd (agent_not_connected a w))"
  by (simp add: minor_def agent_not_connected_def net_not_connected_def same_heap_def
      split: prod.split)

lemma minor_socket_opts:
  "minor a w a (snd (net_nodelay_socket i fd (snd (net_noblock_socket i fd w))))"
  by (simp add: net_nodelay_socket_def net_noblock_socket_def Let_def minor_def same_heap_def)

lemma minor_socket: "minor a w (a\<lparr>net := ctx\<rparr>) (w\<lparr>sockets := n\<rparr>)"
  by (simp add: minor_def same_heap_def)

lemma minor_prepare:
  assumes "net_connect_prepare i a w = (ad, b, v)"
  shows "minor a w b v"
proof -
  let ?fd = "socket_ret w (sockets w)"
  let ?a = "a\<lparr>net := (net a)\<lparr>nt_sockfd := ?fd\<rparr>\<rparr>" and ?w = "w\<lparr>sockets := Suc (sockets w)\<rparr>"
  let ?v = "snd (net_nodelay_socket i ?fd (snd (net_noblock_socket i ?fd ?w)))"
  have s: "minor a w ?a ?w" by (rule minor_socket)
  have o: "minor a w ?a ?v" by (rule minor_trans [OF s minor_socket_opts])
  show ?thesis
    using assms minor_trans [OF s minor_env(1)] minor_trans [OF o minor_env(1)] o
    by (auto simp: net_connect_prepare_def socket_def split_beta Let_def split: if_splits option.splits)
qed

lemma minor_try: "net_connect_try i ad a err w = (r, e, v) \<Longrightarrow> minor a w a v"
  by (auto simp: net_connect_try_def Let_def split: if_splits prod.splits
      intro: minor_trans [OF minor_env(5) minor_env(1)] minor_trans [OF minor_env(5) minor_env(2)])

text \<open>Receiving into the space that was asked for faults only when that space is not there.\<close>

lemma minor_reset: "minor (nl_agent s) (nl_env s) (nl_agent (net_reset s)) (nl_env (net_reset s))"
  using minor_not_connected [of "nl_agent s" "nl_env s"]
  by (simp add: net_reset_def split_beta)

lemma minor_collect:
  assumes "b + n \<le> EM_BUF_SIZE"
  shows "minor (nl_agent s) (nl_env s) (nl_agent (net_collect i b n ph s)) (nl_env (net_collect i b n ph s))"
proof -
  obtain r ctx e w where q: "net_recv (net (nl_agent s)) b n (in_recv i) (nl_errno s) (nl_env s) = (r, ctx, e, w)"
    by (rule prod_cases4)
  have w: "w = nl_env s"
    using q assms by (auto simp: net_recv_def Let_def split: if_splits recv_answer.splits)
  let ?s = "s\<lparr>nl_agent := (nl_agent s)\<lparr>net := ctx\<rparr>, nl_env := w, nl_errno := e\<rparr>"
  have m: "minor (nl_agent s) (nl_env s) (nl_agent ?s) (nl_env ?s)" using w by simp
  have "minor (nl_agent s) (nl_env s) (nl_agent (net_reset ?s)) (nl_env (net_reset ?s))"
    by (rule minor_trans [OF m minor_reset])
  then show ?thesis
    using minor_trans [OF minor_net minor_env(3)] by (simp add: net_collect_def q w Let_def)
qed

text \<open>The same without the fit, for what does not depend on faults.\<close>

definition kept :: "emage \<Rightarrow> env \<Rightarrow> emage \<Rightarrow> env \<Rightarrow> bool" where
  "kept a w b v \<longleftrightarrow> sched b = sched a \<and> trig b = trig a \<and> same_heap w v"

lemma minor_kept: "minor a w b v \<Longrightarrow> kept a w b v"
  by (simp add: minor_def kept_def)

lemma kept_trans: "kept a w b v \<Longrightarrow> kept b v c u \<Longrightarrow> kept a w c u"
  by (auto simp: kept_def intro: same_heap_trans)

lemma kept_collect:
  "kept (nl_agent s) (nl_env s) (nl_agent (net_collect i b n ph s)) (nl_env (net_collect i b n ph s))"
proof -
  obtain r ctx e w where q: "net_recv (net (nl_agent s)) b n (in_recv i) (nl_errno s) (nl_env s) = (r, ctx, e, w)"
    by (rule prod_cases4)
  have w: "same_heap (nl_env s) w"
    using q by (auto simp: net_recv_def Let_def split: if_splits recv_answer.splits)
  let ?s = "s\<lparr>nl_agent := (nl_agent s)\<lparr>net := ctx\<rparr>, nl_env := w, nl_errno := e\<rparr>"
  have k: "kept (nl_agent s) (nl_env s) (nl_agent ?s) (nl_env ?s)" using w by (simp add: kept_def)
  have "kept (nl_agent s) (nl_env s) (nl_agent (net_reset ?s)) (nl_env (net_reset ?s))"
    by (rule kept_trans [OF k minor_kept [OF minor_reset]])
  moreover have "kept (nl_agent s) (nl_env s) (nl_agent ?s) (relax t (nl_env ?s))" for t
    by (rule kept_trans [OF k minor_kept [OF minor_env(3)]])
  ultimately show ?thesis using k by (simp add: net_collect_def q Let_def)
qed

lemma kept_books: "kept a w b v \<Longrightarrow> books k l a w \<Longrightarrow> books k l b v"
  by (auto simp: kept_def same_heap_def books_def tasks_bytes_cong [of v w] trigs_bytes_cong [of v w])

section \<open>Accounts over a run\<close>

lemma net_connected_books:
  assumes "net_connected a w = (r, b, v)" and "books k l a w"
  shows "books k l b v \<and> sc_stop (sched b) = sc_stop (sched a)"
proof -
  obtain t u where t: "task_alloc TASK_TYPE_HELLO 2000 (- 1) 0 None 0 w = (t, u)" by fastforce
  note ta = task_alloc_after [OF t]
  have u: "sizeof_emtask u = sizeof_emtask w" "sizeof_emtri u = sizeof_emtri w"
    using ta(2) by (simp_all add: same_but_mem_def)
  have cg: "tasks_bytes (u\<lparr>clocks := n\<rparr>) ts = tasks_bytes w ts"
    "trigs_bytes (u\<lparr>clocks := n\<rparr>) rs = trigs_bytes w rs"
    "task_price (u\<lparr>clocks := n\<rparr>) x = task_price w x"
    "tasks_bytes u ts = tasks_bytes w ts" "trigs_bytes u rs = trigs_bytes w rs" for n ts rs x
    using u tasks_bytes_cong [of "u\<lparr>clocks := n\<rparr>" w ts] trigs_bytes_cong [of "u\<lparr>clocks := n\<rparr>" w rs]
      tasks_bytes_cong [of u w ts] trigs_bytes_cong [of u w rs]
      task_price_cong [of "u\<lparr>clocks := n\<rparr>" w x] by simp_all
  have price: "task_price w (task_init TASK_TYPE_HELLO 2000 (- 1) 0 None 0) = block_cost (sizeof_emtask w) 0"
    by (simp add: task_price_def)
  show ?thesis
    using assms ta(1,3,4) cg price
    by (auto simp: net_connected_def t agent_add_task_def sched_add_task_def clock_gettime_def
        books_def split: if_splits)
qed

lemma net_step_books:
  assumes "books k l (nl_agent s) (nl_env s)" and "\<not> sc_stop (sched (nl_agent s))"
  shows "books k l (nl_agent (net_step P g i s)) (nl_env (net_step P g i s))
    \<and> \<not> sc_stop (sched (nl_agent (net_step P g i s)))"
proof -
  let ?a = "nl_agent s" and ?w = "nl_env s" and ?t = "net_step P g i s"
  let ?ok = "\<lambda>b v. books k l b v \<and> \<not> sc_stop (sched b)"
  have kept: "?ok b v" if "kept a w b v" "?ok a w" for a w b v
    using that kept_books [OF that(1)] by (simp add: kept_def)
  have ok: "?ok ?a ?w" using assms by simp
  show ?thesis
  proof (cases "nl_phase s")
    case AtTop
    obtain ad b v where p: "net_connect_prepare i ?a ?w = (ad, b, v)" by (rule prod_cases3)
    have "kept ?a ?w b v" by (rule minor_kept [OF minor_prepare [OF p]])
    then have "?ok b v" "?ok b (relax t v)" for t
      using kept [OF _ ok] kept_trans [OF _ minor_kept [OF minor_env(3)]] by blast+
    with AtTop p ok show ?thesis by (simp add: net_step.simps Let_def split: option.split)
  next
    case (AtConnect ad)
    obtain r e v where y: "net_connect_try i ad ?a (nl_errno s) ?w = (r, e, v)" by (rule prod_cases3)
    have v: "?ok ?a v" by (rule kept [OF minor_kept [OF minor_try [OF y]] ok])
    obtain c b u where n: "net_connected ?a v = (c, b, u)" by (rule prod_cases3)
    have u: "?ok b u" using net_connected_books [OF n, of k l] v by simp
    obtain b' u' where d: "agent_not_connected b u = (b', u')" by fastforce
    have u': "?ok b' u'" using kept [OF minor_kept [OF minor_not_connected] u] d by simp
    have "?ok ?a (relax t v)" "?ok b' (relax t u')" for t
      using kept [OF minor_kept [OF minor_env(3)]] v u' by blast+
    with AtConnect y n d v u u' show ?thesis
      by (simp add: net_step.simps Let_def split: option.split)
  next
    case (AtHeader b)
    then show ?thesis
      using ok kept [OF kept_collect ok] kept [OF minor_kept [OF minor_reset] ok]
      by (simp add: net_step.simps Let_def)
  next
    case (AtBody b mlen)
    obtain r c v where p: "net_process_message P g ?a (take b (nt_buf (net ?a))) ?w = (r, c, v)"
      by (rule prod_cases3)
    have "?ok c v"
      using books_process_message [OF assms p] calm_sizes(3) [OF calm_net_process_message [OF p]] assms(2)
      by simp
    with AtBody p show ?thesis
      using ok kept [OF kept_collect ok] kept [OF minor_kept [OF minor_reset] ok]
      by (simp add: net_step.simps Let_def)
  next
    case AtEnd
    with ok show ?thesis by (simp add: net_step.simps Let_def)
  qed
qed

lemma net_run_books:
  assumes "books k l (nl_agent s) (nl_env s)" and "\<not> sc_stop (sched (nl_agent s))"
  shows "books k l (nl_agent (net_run P g is s)) (nl_env (net_run P g is s))"
  using assms
proof (induction "is" arbitrary: s)
  case (Cons i "is")
  from net_step_books [OF Cons.prems] Cons.IH [of "net_step P g i s"] show ?case
    by (simp add: net_run_def)
qed (simp add: net_run_def)

end
