(* ===== verification/NetFraming.thy ===== *)
theory NetFraming
  imports NetLoop NetFacts Demo "HOL-Library.Sublist"
begin

text \<open>
  How the receive loop cuts the byte stream of the connection into messages: it neither loses,
  repeats, reorders nor merges any, however the kernel splits the stream.
\<close>

section \<open>The stream\<close>

text \<open>The message, if any, that the next step hands to \<open>net_process_message\<close>.\<close>

definition delivered :: "netloop \<Rightarrow> bytes list" where
  "delivered s = (case nl_phase s of
     AtBody bread mlen \<Rightarrow> if int bread = mlen then [take bread (nt_buf (net (nl_agent s)))] else []
   | _ \<Rightarrow> [])"

text \<open>How many bytes the next step asks the kernel for.\<close>

definition wanted :: "emproto \<Rightarrow> netloop \<Rightarrow> nat" where
  "wanted P s = (case nl_phase s of
     AtHeader bread \<Rightarrow> EP_HEADER_SIZE P - bread
   | AtBody bread mlen \<Rightarrow> nat mlen - bread
   | _ \<Rightarrow> 0)"

text \<open>
  A kernel with the rest of the stream in its socket, that has \<open>k\<close> more bytes ready at this step: it
  hands out a non-empty piece, or answers \<open>EAGAIN\<close>.
\<close>

definition stream_step ::
    "emproto \<Rightarrow> stack_garbage \<Rightarrow> sysin \<Rightarrow> nat \<Rightarrow> netloop \<times> bytes \<Rightarrow> netloop \<times> bytes" where
  "stream_step P g i k x =
     (let (s, str) = x; c = take (min (wanted P s) k) str
      in (net_step P g (i\<lparr>in_recv := if c = [] then RecvFail EAGAIN else RecvData c\<rparr>) s,
          drop (length c) str))"

fun handled ::
    "emproto \<Rightarrow> stack_garbage \<Rightarrow> sysin \<Rightarrow> nat list \<Rightarrow> netloop \<times> bytes \<Rightarrow> bytes list" where
  "handled P g i [] x = []"
| "handled P g i (k # ks) x = delivered (fst x) @ handled P g i ks (stream_step P g i k x)"

definition msg_ok :: "emproto \<Rightarrow> bytes \<Rightarrow> bool" where
  "msg_ok P m \<longleftrightarrow> EP_HEADER_SIZE P \<le> length m \<and> length m \<le> EM_BUF_SIZE
     \<and> epp_msg_length P (take (EP_HEADER_SIZE P) m) = int (length m)"

text \<open>A connection that is up and stays up.\<close>

definition up :: "netctx \<Rightarrow> bool" where
  "up ctx \<longleftrightarrow> nt_status ctx \<noteq> NET_STATUS_NOT_CONNECTED \<and> \<not> nt_stop ctx \<and> 0 \<le> nt_sockfd ctx
     \<and> length (nt_buf ctx) = EM_BUF_SIZE"

section \<open>The invariant\<close>

definition stream_inv :: "emproto \<Rightarrow> bytes list \<Rightarrow> netloop \<times> bytes \<Rightarrow> bool" where
  "stream_inv P rem x \<longleftrightarrow> (let (s, str) = x; buf = nt_buf (net (nl_agent s)) in
     up (net (nl_agent s)) \<and> (\<forall>m \<in> set rem. msg_ok P m)
     \<and> (case nl_phase s of
          AtTop \<Rightarrow> str = concat rem
        | AtHeader b \<Rightarrow> b \<le> EP_HEADER_SIZE P \<and> take b buf @ str = concat rem
        | AtBody b mlen \<Rightarrow> \<exists>m ms. rem = m # ms \<and> mlen = int (length m) \<and> b \<le> length m
             \<and> take b buf @ str = concat rem
        | _ \<Rightarrow> False))"

text \<open>Steps that are enough to handle what is left.\<close>

definition steps_left :: "bytes list \<Rightarrow> netloop \<Rightarrow> int" where
  "steps_left rem s = (\<Sum>m\<leftarrow>rem. int (length m) + 3) - (case nl_phase s of
     AtHeader b \<Rightarrow> 1 + int b | AtBody b mlen \<Rightarrow> 2 + int b | _ \<Rightarrow> 0)"

lemma up_buf: "up ctx \<Longrightarrow> length b = EM_BUF_SIZE \<Longrightarrow> up (ctx\<lparr>nt_buf := b\<rparr>)"
  by (simp add: up_def)

lemma take_buf_write:
  assumes "length buf = EM_BUF_SIZE" and "b + length c \<le> EM_BUF_SIZE"
  shows "take (b + length c) (buf_write b c buf) = take b buf @ c"
    and "length (buf_write b c buf) = EM_BUF_SIZE"
proof -
  have "b \<le> EM_BUF_SIZE" and "c = [] \<or> b < EM_BUF_SIZE" using assms(2) by (cases c; simp)+
  then show "take (b + length c) (buf_write b c buf) = take b buf @ c"
    and "length (buf_write b c buf) = EM_BUF_SIZE"
    using assms by (auto simp: buf_write_def min_def)
qed

text \<open>Receiving a non-empty piece that fits.\<close>

lemma net_collect_data:
  assumes "up (net (nl_agent s))" and "c \<noteq> []" and "length c \<le> n" and "b + length c \<le> EM_BUF_SIZE"
    and "in_recv i = RecvData c"
  shows "net_collect i b n ph s =
    s\<lparr>nl_agent := (nl_agent s)\<lparr>net := (net (nl_agent s))\<lparr>nt_buf := buf_write b c (nt_buf (net (nl_agent s)))\<rparr>\<rparr>,
      nl_phase := ph (b + length c)\<rparr>"
  using assms by (simp add: net_collect_def net_recv_def up_def Let_def)

lemma net_collect_again:
  assumes "up (net (nl_agent s))" and "in_recv i = RecvFail EAGAIN"
  shows "net_collect i b n ph s =
    s\<lparr>nl_env := relax (wait_time (nt_interval (net (nl_agent s))) 0) (nl_env s), nl_errno := EAGAIN\<rparr>"
  using assms by (cases s) (simp add: net_collect_def net_recv_def up_def Let_def)

section \<open>One step\<close>

text \<open>
  What a step owes: it hands over the next message exactly when it is complete, keeps the
  invariant for the rest, and gets nearer to the end when the kernel has bytes ready.
\<close>

definition step_ok ::
    "emproto \<Rightarrow> stack_garbage \<Rightarrow> sysin \<Rightarrow> nat \<Rightarrow> bytes list \<Rightarrow> netloop \<times> bytes \<Rightarrow> bool" where
  "step_ok P g i k rem x \<longleftrightarrow> (\<exists>rem'. rem = delivered (fst x) @ rem'
     \<and> stream_inv P rem' (stream_step P g i k x)
     \<and> (0 < k \<and> rem \<noteq> [] \<longrightarrow> steps_left rem' (fst (stream_step P g i k x)) < steps_left rem (fst x)))"

lemma step_top:
  assumes "stream_inv P rem (s, str)" and "nl_phase s = AtTop"
  shows "step_ok P g i k rem (s, str)"
  using assms
  by (simp add: step_ok_def stream_step_def wanted_def delivered_def stream_inv_def up_def
      net_step.simps Let_def steps_left_def)

text \<open>
  The two collecting loops, \<open>n\<close> bytes short of the end of a piece of the message \<open>m\<close>.
\<close>

lemma collect_some:
  assumes up: "up (net (nl_agent s))" and str: "take b (nt_buf (net (nl_agent s))) @ str = m @ rst"
    and n: "b + n \<le> length m" and m: "length m \<le> EM_BUF_SIZE"
    and c: "c = take (min n k) str" "c \<noteq> []" and i: "in_recv i = RecvData c"
  shows "\<exists>s'. net_collect i b n ph s = s' \<and> nl_phase s' = ph (b + length c)
    \<and> up (net (nl_agent s')) \<and> 0 < length c \<and> length c \<le> n
    \<and> take (b + length c) (nt_buf (net (nl_agent s'))) @ drop (length c) str = m @ rst"
proof -
  have len: "length c \<le> n" "0 < length c" using c by auto
  then have fit: "b + length c \<le> EM_BUF_SIZE" using n m by simp
  have "take (length (take q str)) str = take q str" for q by (simp add: min_def)
  then have "take (length c) str = c" using c(1) by metis
  then have "c @ drop (length c) str = str" by (metis append_take_drop_id)
  moreover note tb = take_buf_write [OF _ fit, of "nt_buf (net (nl_agent s))"]
  ultimately show ?thesis
    using up len str net_collect_data [OF up c(2) len(1) fit i, of ph]
    by (simp add: up_buf up_def)
qed

lemma collect_none:
  assumes "up (net (nl_agent s))" and "in_recv i = RecvFail EAGAIN"
  shows "\<exists>s'. net_collect i b n ph s = s' \<and> nl_phase s' = nl_phase s \<and> nl_agent s' = nl_agent s"
  using net_collect_again [OF assms] by simp

lemma step_header:
  assumes inv: "stream_inv P rem (s, str)" and ph: "nl_phase s = AtHeader b"
    and b: "b < EP_HEADER_SIZE P"
  shows "step_ok P g i k rem (s, str)"
proof -
  let ?n = "EP_HEADER_SIZE P - b"
  define c where c: "c = take (min ?n k) str"
  let ?i = "i\<lparr>in_recv := if c = [] then RecvFail EAGAIN else RecvData c\<rparr>"
  from inv ph have up: "up (net (nl_agent s))" and ok: "\<forall>m \<in> set rem. msg_ok P m"
    and str: "take b (nt_buf (net (nl_agent s))) @ str = concat rem"
    by (simp_all add: stream_inv_def)
  have go: "net_step P g ?i s = net_collect ?i b ?n AtHeader s"
    using up ph b by (simp add: net_step.simps up_def Let_def)
  have wn: "wanted P s = ?n" by (simp add: wanted_def ph)
  have x: "stream_step P g i k (s, str) = (net_collect ?i b ?n AtHeader s, drop (length c) str)"
    by (simp only: stream_step_def Let_def case_prod_conv wn go c [symmetric])
  have d: "delivered s = []" by (simp add: delivered_def ph)
  show ?thesis
  proof (cases "c = []")
    case True
    from collect_none [OF up, of ?i b ?n AtHeader] True obtain s' where
      s': "net_collect ?i b ?n AtHeader s = s'" "nl_phase s' = nl_phase s" "nl_agent s' = nl_agent s"
      by auto
    have "rem = []" if "0 < k"
    proof (cases rem)
      case (Cons m ms)
      have "str = []" using True that b by (auto simp: c min_def split: if_splits)
      then have "length (concat rem) \<le> b" using str by (metis append_Nil2 length_take min.cobounded2)
      then show ?thesis using Cons ok b by (simp add: msg_ok_def)
    qed simp
    then have e: "\<not> (0 < k \<and> rem \<noteq> [])" by blast
    have x': "stream_step P g i k (s, str) = (s', str)"
      unfolding x s'(1) by (simp add: True)
    have "stream_inv P rem (s', str)" using inv s'(2,3) by (simp add: stream_inv_def)
    then show ?thesis using e by (auto simp: step_ok_def x' d)
  next
    case False
    then have "str \<noteq> []" by (auto simp: c)
    then obtain m ms where rem: "rem = m # ms" using str by (cases rem) auto
    then have m: "b + ?n \<le> length m" "length m \<le> EM_BUF_SIZE" using ok b by (simp_all add: msg_ok_def)
    have "take b (nt_buf (net (nl_agent s))) @ str = m @ concat ms" using str rem by simp
    from collect_some [OF up this m c False, of ?i AtHeader] False obtain s' where
      s': "net_collect ?i b ?n AtHeader s = s'" "nl_phase s' = AtHeader (b + length c)"
        "up (net (nl_agent s'))" "0 < length c" "length c \<le> ?n"
        "take (b + length c) (nt_buf (net (nl_agent s'))) @ drop (length c) str = m @ concat ms"
      by auto
    show ?thesis
      unfolding step_ok_def x fst_conv d s'(1)
      using ok s'(2-6) rem ph b by (simp add: stream_inv_def steps_left_def)
  qed
qed

lemma step_header_end:
  assumes inv: "stream_inv P rem (s, str)" and ph: "nl_phase s = AtHeader (EP_HEADER_SIZE P)"
    and pos: "0 < EP_HEADER_SIZE P"
  shows "step_ok P g i k rem (s, str)"
proof -
  let ?h = "EP_HEADER_SIZE P" and ?buf = "nt_buf (net (nl_agent s))"
  from inv ph have up: "up (net (nl_agent s))" and ok: "\<forall>m \<in> set rem. msg_ok P m"
    and str: "take ?h ?buf @ str = concat rem"
    by (simp_all add: stream_inv_def)
  have "take ?h ?buf \<noteq> []" using up pos by (auto simp: up_def EM_BUF_SIZE_def)
  then obtain m ms where rem: "rem = m # ms" using str by (cases rem) auto
  then have m: "?h \<le> length m" "length m \<le> EM_BUF_SIZE" "epp_msg_length P (take ?h m) = int (length m)"
    using ok by (simp_all add: msg_ok_def)
  have "take ?h (take ?h ?buf @ str) = take ?h (m @ concat ms)" using str rem by simp
  then have "take ?h ?buf = take ?h m" using m up by (simp add: up_def)
  then show ?thesis
    using inv ph m rem
    by (simp add: step_ok_def stream_step_def wanted_def delivered_def net_step.simps Let_def
        stream_inv_def steps_left_def)
qed

lemma step_body:
  assumes inv: "stream_inv P rem (s, str)" and ph: "nl_phase s = AtBody b mlen" and b: "int b < mlen"
  shows "step_ok P g i k rem (s, str)"
proof -
  let ?n = "nat mlen - b"
  define c where c: "c = take (min ?n k) str"
  let ?ph = "\<lambda>b. AtBody b mlen"
  let ?i = "i\<lparr>in_recv := if c = [] then RecvFail EAGAIN else RecvData c\<rparr>"
  from inv ph obtain m ms where up: "up (net (nl_agent s))" and ok: "\<forall>m \<in> set rem. msg_ok P m"
    and str: "take b (nt_buf (net (nl_agent s))) @ str = m @ concat ms"
    and rem: "rem = m # ms" and mlen: "mlen = int (length m)"
    by (auto simp: stream_inv_def)
  have go: "net_step P g ?i s = net_collect ?i b ?n ?ph s"
    using up ph b by (simp add: net_step.simps up_def Let_def)
  have wn: "wanted P s = ?n" by (simp add: wanted_def ph)
  have x: "stream_step P g i k (s, str) = (net_collect ?i b ?n ?ph s, drop (length c) str)"
    by (simp only: stream_step_def Let_def case_prod_conv wn go c [symmetric])
  have d: "delivered s = []" using b by (simp add: delivered_def ph)
  show ?thesis
  proof (cases "c = []")
    case True
    from collect_none [OF up, of ?i b ?n ?ph] True obtain s' where
      s': "net_collect ?i b ?n ?ph s = s'" "nl_phase s' = nl_phase s" "nl_agent s' = nl_agent s"
      by auto
    have "\<not> 0 < k"
    proof
      assume "0 < k"
      then have "str = []" using True b mlen by (auto simp: c min_def split: if_splits)
      then have "length (m @ concat ms) \<le> b" using str by (metis append_Nil2 length_take min.cobounded2)
      then show False using b mlen by simp
    qed
    then have e: "\<not> (0 < k \<and> rem \<noteq> [])" by blast
    have x': "stream_step P g i k (s, str) = (s', str)"
      unfolding x s'(1) by (simp add: True)
    have "stream_inv P rem (s', str)" using inv s'(2,3) by (simp add: stream_inv_def)
    then show ?thesis using e by (auto simp: step_ok_def x' d)
  next
    case False
    have m: "b + ?n \<le> length m" "length m \<le> EM_BUF_SIZE" using ok b rem mlen by (simp_all add: msg_ok_def)
    from collect_some [OF up str m c False, of ?i ?ph] False obtain s' where
      s': "net_collect ?i b ?n ?ph s = s'" "nl_phase s' = AtBody (b + length c) mlen"
        "up (net (nl_agent s'))" "0 < length c" "length c \<le> ?n"
        "take (b + length c) (nt_buf (net (nl_agent s'))) @ drop (length c) str = m @ concat ms"
      by auto
    show ?thesis
      unfolding step_ok_def x fst_conv d s'(1)
      using ok s'(2-6) rem ph b mlen by (simp add: stream_inv_def steps_left_def)
  qed
qed

lemma step_body_end:
  assumes inv: "stream_inv P rem (s, str)" and ph: "nl_phase s = AtBody b mlen" and b: "int b = mlen"
  shows "step_ok P g i k rem (s, str)"
proof -
  let ?buf = "nt_buf (net (nl_agent s))"
  from inv ph obtain m ms where up: "up (net (nl_agent s))" and ok: "\<forall>m \<in> set rem. msg_ok P m"
    and str: "take b ?buf @ str = m @ concat ms"
    and rem: "rem = m # ms" and mlen: "mlen = int (length m)"
    by (auto simp: stream_inv_def)
  have l: "length m = b" "length (take b ?buf) = b"
    using ok b rem mlen up by (simp_all add: msg_ok_def up_def)
  then have m: "take b ?buf = m" and rest: "str = concat ms"
    using str append_eq_append_conv [of "take b ?buf" m str "concat ms"] by simp_all
  obtain r a v where p: "net_process_message P g (nl_agent s) m (nl_env s) = (r, a, v)"
    by (rule prod_cases3)
  have "net a = net (nl_agent s)" using calm_net_process_message [OF p] by (simp add: calm_def)
  then show ?thesis
    using inv ph b m rest rem p up
    by (simp add: step_ok_def stream_step_def wanted_def delivered_def net_step.simps Let_def
        stream_inv_def steps_left_def)
qed

lemma step_any:
  assumes "stream_inv P rem x" and "0 < EP_HEADER_SIZE P"
  shows "step_ok P g i k rem x"
proof (cases x)
  case (Pair s str)
  with assms have inv: "stream_inv P rem (s, str)" by simp
  have "step_ok P g i k rem (s, str)"
  proof (cases "nl_phase s")
    case AtTop
    with inv show ?thesis by (rule step_top)
  next
    case (AtHeader b)
    then have "b \<le> EP_HEADER_SIZE P" using inv by (simp add: stream_inv_def)
    then show ?thesis using step_header [OF inv AtHeader] step_header_end [OF inv _ assms(2)] AtHeader
      by (cases "b = EP_HEADER_SIZE P") simp_all
  next
    case (AtBody b mlen)
    then have "int b \<le> mlen" using inv by (auto simp: stream_inv_def)
    then show ?thesis using step_body [OF inv AtBody] step_body_end [OF inv AtBody]
      by (cases "int b = mlen") simp_all
  qed (use inv in \<open>simp_all add: stream_inv_def\<close>)
  with Pair show ?thesis by simp
qed

section \<open>Whole runs\<close>

lemma handled_inv:
  assumes "stream_inv P rem x" and "0 < EP_HEADER_SIZE P"
  shows "\<exists>rem'. rem = handled P g i ks x @ rem' \<and> stream_inv P rem' (fold (stream_step P g i) ks x)"
  using assms(1)
proof (induction ks arbitrary: rem x)
  case (Cons k ks)
  from step_any [OF Cons.prems assms(2)] obtain r where
    r: "rem = delivered (fst x) @ r" "stream_inv P r (stream_step P g i k x)"
    unfolding step_ok_def by blast
  from Cons.IH [OF r(2)] r(1) show ?case by auto
qed simp

lemma steps_left_pos:
  assumes "stream_inv P rem x" and "rem \<noteq> []"
  shows "0 < steps_left rem (fst x)"
proof -
  obtain m ms where rem: "rem = m # ms" using assms(2) by (cases rem) auto
  have "0 \<le> (\<Sum>m\<leftarrow>ms. int (length m) + 3)" by (rule sum_list_nonneg) auto
  then show ?thesis
    using assms(1) rem
    by (auto simp: stream_inv_def steps_left_def msg_ok_def Let_def split: net_phase.splits prod.splits)
qed

lemma handled_all:
  assumes "stream_inv P rem x" and "0 < EP_HEADER_SIZE P"
    and "\<forall>k \<in> set ks. 0 < k" and "steps_left rem (fst x) \<le> int (length ks)"
  shows "handled P g i ks x = rem"
  using assms(1,3,4)
proof (induction ks arbitrary: rem x)
  case Nil
  then show ?case using steps_left_pos [OF Nil.prems(1)] by fastforce
next
  case (Cons k ks)
  show ?case
  proof (cases "rem = []")
    case True
    then show ?thesis using handled_inv [OF Cons.prems(1) assms(2), of g i "k # ks"] by auto
  next
    case False
    from step_any [OF Cons.prems(1) assms(2)] obtain r where
      r: "rem = delivered (fst x) @ r" "stream_inv P r (stream_step P g i k x)"
      "0 < k \<and> rem \<noteq> [] \<longrightarrow> steps_left r (fst (stream_step P g i k x)) < steps_left rem (fst x)"
      unfolding step_ok_def by blast
    have "0 < k" using Cons.prems(2) by simp
    then have lt: "steps_left r (fst (stream_step P g i k x)) < steps_left rem (fst x)"
      using r(3) False by blast
    have "handled P g i ks (stream_step P g i k x) = r"
      by (rule Cons.IH [OF r(2)]) (use Cons.prems(2,3) lt in simp_all)
    then show ?thesis using r(1) by simp
  qed
qed

section \<open>Properties\<close>

text \<open>
  (C4) Framing is exact.  On a connection that is up, with well-formed messages on the wire, whatever
  pieces the kernel delivers them in and however often it has nothing to deliver, the messages
  handed to the handlers are at every moment the first ones of those sent, each whole and once.
\<close>

theorem net_framing_exact:
  assumes "nl_phase s = AtTop" and "up (net (nl_agent s))" and "0 < EP_HEADER_SIZE P"
    and "\<forall>m \<in> set ms. msg_ok P m"
  shows "prefix (handled P g i ks (s, concat ms)) ms"
proof -
  have "stream_inv P ms (s, concat ms)" using assms by (simp add: stream_inv_def)
  from handled_inv [OF this assms(3)] show ?thesis unfolding prefix_def by blast
qed

definition demo_loop :: "netloop" where
  "demo_loop = \<lparr>nl_agent = demo_agent [], nl_env = demo_env, nl_errno = 0, nl_phase = AtTop\<rparr>"

definition demo_sysin :: sysin where
  "demo_sysin = \<lparr>in_getfl = 0, in_setfl = 0, in_sockopt = 0, in_host = Some [10, 0, 0, 1],
     in_connect = (0, 0), in_recv = RecvFail EAGAIN\<rparr>"

definition demo_msg :: "u8 \<Rightarrow> bytes" where
  "demo_msg x = [1, 6, 2, 0, 9, x]"

lemma demo_loop_up: "up (net (nl_agent demo_loop))" "nl_phase demo_loop = AtTop"
  by (simp_all add: demo_loop_def up_def demo_agent_def const_simps EM_BUF_SIZE_def)

lemma demo_msg_length: "length (demo_msg x) = 6"
  by (simp add: demo_msg_def)

lemma demo_msg_ok: "msg_ok demo_proto (demo_msg x)"
  by (simp add: msg_ok_def demo_msg_def EM_BUF_SIZE_def)

theorem net_framing_exact_witness:
  "prefix (handled demo_proto demo_garbage demo_sysin [0, 3, 0, 2, 9] (demo_loop, concat [demo_msg 1, demo_msg 2]))
     [demo_msg 1, demo_msg 2]"
  by (rule net_framing_exact) (simp_all add: demo_loop_up demo_msg_ok)

text \<open>
  (C5) Framing makes progress.  When bytes are ready at every step, at most three steps more than a
  message has bytes are needed to hand it over: after that many steps all messages have been
  handed over, in their order.
\<close>

theorem net_framing_complete:
  assumes "nl_phase s = AtTop" and "up (net (nl_agent s))" and "0 < EP_HEADER_SIZE P"
    and "\<forall>m \<in> set ms. msg_ok P m" and "\<forall>k \<in> set ks. 0 < k"
    and "(\<Sum>m\<leftarrow>ms. length m + 3) \<le> length ks"
  shows "handled P g i ks (s, concat ms) = ms"
proof (rule handled_all [OF _ assms(3,5)])
  show "stream_inv P ms (s, concat ms)" using assms by (simp add: stream_inv_def)
  have "(\<Sum>m\<leftarrow>ms. int (length m) + 3) = int (\<Sum>m\<leftarrow>ms. length m + 3)"
    by (induction ms) simp_all
  then show "steps_left ms (fst (s, concat ms)) \<le> int (length ks)"
    using assms(1,6) by (simp add: steps_left_def)
qed

theorem net_framing_complete_witness:
  "handled demo_proto demo_garbage demo_sysin (replicate 18 2) (demo_loop, concat [demo_msg 1, demo_msg 2])
     = [demo_msg 1, demo_msg 2]"
  by (rule net_framing_complete) (simp_all add: demo_loop_up demo_msg_ok demo_msg_length)

end
