(* ===== verification/NetLoopProps.thy ===== *)
theory NetLoopProps
  imports NetLoopFacts NetFraming SchedFacts
begin

text \<open>
  Properties of the receive loop other than framing: accounts, buffer bounds, stopping, waiting,
  and what happens when the peer goes away.
\<close>

section \<open>Accounts\<close>

text \<open>
  The listener does not leak.  Over any run of the thread, with any answers of the kernel, any
  messages, lost and new connections and failing allocations, the memory counters agree with the
  queues and the registry, as long as the scheduler is not stopping.
\<close>

theorem net_run_accounts:
  assumes "books k l (nl_agent s) (nl_env s)" and "\<not> sc_stop (sched (nl_agent s))"
  shows "books k l (nl_agent (net_run P g is s)) (nl_env (net_run P g is s))"
  using assms by (rule net_run_books)

theorem net_run_accounts_witness:
  "task_mem (nl_env (net_run demo_proto demo_garbage [demo_sysin, demo_sysin] demo_loop))
   = tasks_bytes (nl_env (net_run demo_proto demo_garbage [demo_sysin, demo_sysin] demo_loop))
       (sc_todo (sched (nl_agent (net_run demo_proto demo_garbage [demo_sysin, demo_sysin] demo_loop))))
   + tasks_bytes (nl_env (net_run demo_proto demo_garbage [demo_sysin, demo_sysin] demo_loop))
       (sc_jobs (sched (nl_agent (net_run demo_proto demo_garbage [demo_sysin, demo_sysin] demo_loop))))"
proof -
  have "books 0 0 (nl_agent demo_loop) (nl_env demo_loop)"
    by (simp add: demo_loop_def books_def trig_ctx_init_def)
  from net_run_accounts [OF this, of demo_proto demo_garbage "[demo_sysin, demo_sysin]"]
  show ?thesis by (simp add: books_def demo_loop_def)
qed

section \<open>The buffer\<close>

text \<open>Where the loop is in the buffer.\<close>

definition in_buffer :: "emproto \<Rightarrow> netloop \<Rightarrow> bool" where
  "in_buffer P s \<longleftrightarrow> log_fd (nl_env s) \<noteq> None \<and> (case nl_phase s of
     AtHeader b \<Rightarrow> b \<le> EP_HEADER_SIZE P
   | AtBody b mlen \<Rightarrow> b \<le> EM_BUF_SIZE \<and> mlen \<le> int EM_BUF_SIZE
   | _ \<Rightarrow> True)"

lemma net_recv_count:
  "net_recv ctx b n ans err w = (r, ctx', e, v) \<Longrightarrow> r \<le> int n"
  by (auto simp: net_recv_def Let_def split: if_splits recv_answer.splits)

lemma collect_phase:
  "nl_phase (net_collect i b n ph s) \<in> {AtTop, nl_phase s} \<union> {ph (b + j) | j. j \<le> n}"
proof -
  obtain r ctx e w where q: "net_recv (net (nl_agent s)) b n (in_recv i) (nl_errno s) (nl_env s) = (r, ctx, e, w)"
    by (rule prod_cases4)
  then have "nat r \<le> n" using net_recv_count [OF q] by simp
  then show ?thesis by (auto simp: net_collect_def q Let_def net_reset_def split_beta)
qed

lemma net_connected_quiet:
  assumes "net_connected a w = (r, b, v)"
  shows "trace v = trace w \<and> log_fd v = log_fd w"
proof -
  obtain t u where t: "task_alloc TASK_TYPE_HELLO 2000 (- 1) 0 None 0 w = (t, u)" by fastforce
  then show ?thesis
    using assms task_alloc_after(2) [OF t]
    by (auto simp: net_connected_def agent_add_task_def sched_add_task_def clock_gettime_def
        same_but_mem_def split: option.splits if_splits)
qed

text \<open>The log stays open and no fault is added.\<close>

definition sound :: "env \<Rightarrow> env \<Rightarrow> bool" where
  "sound w v \<longleftrightarrow> log_fd v = log_fd w \<and> (log_fd w \<noteq> None \<longrightarrow> faults_of (trace v) = faults_of (trace w))"

lemma sound_refl [simp]: "sound w w"
  by (simp add: sound_def)

lemma sound_trans: "sound u v \<Longrightarrow> sound v w \<Longrightarrow> sound u w"
  by (simp add: sound_def)

lemma minor_sound: "minor a w b v \<Longrightarrow> sound w v"
  by (simp add: minor_def sound_def same_heap_def)

lemma net_step_sound:
  assumes "EP_HEADER_SIZE P \<le> EM_BUF_SIZE" and "\<And>h. epp_msg_length P h \<le> int EM_BUF_SIZE"
    and inv: "in_buffer P s"
  shows "sound (nl_env s) (nl_env (net_step P g i s)) \<and> in_buffer P (net_step P g i s)"
proof -
  let ?a = "nl_agent s" and ?w = "nl_env s" and ?t = "net_step P g i s"
  have relax: "sound ?w v \<Longrightarrow> sound ?w (relax t v)" for t v
    using sound_trans [OF _ minor_sound [OF minor_env(3)]] .
  have reset: "sound ?w (nl_env (net_reset s))" "nl_phase (net_reset s) = AtTop"
    using minor_sound [OF minor_reset [of s]] by (simp_all add: net_reset_def split_beta)
  have "sound ?w (nl_env ?t) \<and> (case nl_phase ?t of
     AtHeader b \<Rightarrow> b \<le> EP_HEADER_SIZE P
   | AtBody b mlen \<Rightarrow> b \<le> EM_BUF_SIZE \<and> mlen \<le> int EM_BUF_SIZE
   | _ \<Rightarrow> True)"
  proof (cases "nl_phase s")
    case AtTop
    obtain ad b v where p: "net_connect_prepare i ?a ?w = (ad, b, v)" by (rule prod_cases3)
    have "sound ?w v" by (rule minor_sound [OF minor_prepare [OF p]])
    with AtTop p relax show ?thesis by (simp add: net_step.simps Let_def split: option.split)
  next
    case (AtConnect ad)
    obtain r e v where y: "net_connect_try i ad ?a (nl_errno s) ?w = (r, e, v)" by (rule prod_cases3)
    have v: "sound ?w v" by (rule minor_sound [OF minor_try [OF y]])
    obtain c b u where n: "net_connected ?a v = (c, b, u)" by (rule prod_cases3)
    have u: "sound ?w u" using net_connected_quiet [OF n] v by (simp add: sound_def)
    obtain b' u' where d: "agent_not_connected b u = (b', u')" by fastforce
    have "sound ?w u'" using sound_trans [OF u minor_sound [OF minor_not_connected]] d by (metis snd_conv)
    with AtConnect y n d v u relax show ?thesis
      by (simp add: net_step.simps Let_def split: option.split)
  next
    case (AtHeader b)
    let ?n = "EP_HEADER_SIZE P - b"
    have b: "b \<le> EP_HEADER_SIZE P" using inv AtHeader by (simp add: in_buffer_def)
    have "sound ?w (nl_env (net_collect i b ?n AtHeader s))"
      by (rule minor_sound [OF minor_collect]) (use assms(1) b in simp)
    then show ?thesis
      using AtHeader b reset assms collect_phase [of i b ?n AtHeader s]
      by (auto simp: net_step.simps Let_def)
  next
    case (AtBody b mlen)
    let ?n = "nat mlen - b" and ?ph = "\<lambda>b. AtBody b mlen"
    have b: "b \<le> EM_BUF_SIZE" "mlen \<le> int EM_BUF_SIZE" using inv AtBody by (simp_all add: in_buffer_def)
    have "sound ?w (nl_env (net_collect i b ?n ?ph s))" if "int b < mlen"
      by (rule minor_sound [OF minor_collect]) (use b that in simp)
    moreover obtain r c v where p: "net_process_message P g ?a (take b (nt_buf (net ?a))) ?w = (r, c, v)"
      by (rule prod_cases3)
    moreover have "sound ?w v" using calm_net_process_message [OF p] by (simp add: calm_def sound_def)
    moreover have "nl_phase (net_collect i b ?n ?ph s) \<in> {AtTop, AtBody b mlen}
        \<union> {AtBody (b + j) mlen | j. b + j \<le> EM_BUF_SIZE}" if "int b < mlen"
      using collect_phase [of i b ?n ?ph s] AtBody b that by auto
    ultimately show ?thesis
      using AtBody b reset by (cases "int b < mlen") (auto simp: net_step.simps Let_def)
  next
    case AtEnd
    then show ?thesis by (simp add: net_step.simps Let_def)
  qed
  then show ?thesis using inv by (simp add: in_buffer_def sound_def split: net_phase.splits)
qed

text \<open>
  If the library never reports a message longer than the buffer, the loop never writes outside
  it: from its start, whatever the kernel answers and whatever is received, no undefined behaviour
  occurs as long as the log is open.
\<close>

theorem net_loop_in_bounds:
  assumes "EP_HEADER_SIZE P \<le> EM_BUF_SIZE" and "\<forall>h. epp_msg_length P h \<le> int EM_BUF_SIZE"
    and "log_fd (nl_env s) \<noteq> None" and "nl_phase s = AtTop"
  shows "faults_of (trace (nl_env (net_run P g is s))) = faults_of (trace (nl_env s))"
proof -
  have "sound (nl_env s) (nl_env (net_run P g is s))" if "in_buffer P s" for s
    using that
  proof (induction "is" arbitrary: s)
    case (Cons i "is")
    from net_step_sound [OF assms(1) _ Cons.prems, of g i] assms(2)
    have st: "sound (nl_env s) (nl_env (net_step P g i s))" "in_buffer P (net_step P g i s)"
      by simp_all
    from sound_trans [OF st(1) Cons.IH [OF st(2)]] show ?case by (simp add: net_run_def)
  qed (simp add: net_run_def)
  then show ?thesis using assms(3,4) by (simp add: in_buffer_def sound_def)
qed

theorem net_loop_in_bounds_witness:
  "faults_of (trace (nl_env (net_run demo_proto demo_garbage [demo_sysin, demo_sysin, demo_sysin] demo_loop))) = []"
proof -
  have "\<forall>h. epp_msg_length demo_proto h \<le> int EM_BUF_SIZE"
  proof
    fix h :: bytes
    have "uint (h ! 1) < 2 ^ LENGTH(8)" by (rule uint_bounded)
    then show "epp_msg_length demo_proto h \<le> int EM_BUF_SIZE" by (simp add: EM_BUF_SIZE_def)
  qed
  from net_loop_in_bounds [OF _ this, of demo_loop] show ?thesis
    by (simp add: demo_loop_def EM_BUF_SIZE_def)
qed

text \<open>
  (C35) Nothing in the loop itself keeps a message inside the buffer.  A peer that sends a header that
  announces more than \<open>EM_BUF_SIZE\<close> bytes, and then that many, makes the next \<open>recv\<close> write past the
  end of the array.
\<close>

theorem net_loop_overflow:
  assumes "nl_phase s = AtHeader 0" and "up (net (nl_agent s))"
    and "0 < EP_HEADER_SIZE P" and "EP_HEADER_SIZE P \<le> EM_BUF_SIZE"
    and "length h = EP_HEADER_SIZE P" and "int EM_BUF_SIZE < epp_msg_length P h"
    and "length body = nat (epp_msg_length P h) - EP_HEADER_SIZE P"
  shows "BufferOverflow \<in> set (faults_of (trace (nl_env (net_run P g
    [i\<lparr>in_recv := RecvData h\<rparr>, j, i\<lparr>in_recv := RecvData body\<rparr>] s))))"
proof -
  let ?H = "EP_HEADER_SIZE P" and ?buf = "nt_buf (net (nl_agent s))"
  let ?b = "buf_write 0 h ?buf"
  let ?s1 = "s\<lparr>nl_agent := (nl_agent s)\<lparr>net := (net (nl_agent s))\<lparr>nt_buf := ?b\<rparr>\<rparr>, nl_phase := AtHeader ?H\<rparr>"
  let ?L = "epp_msg_length P h"
  have fit: "0 + length h \<le> EM_BUF_SIZE" using assms(4,5) by simp
  have hne: "h \<noteq> []" using assms(3,5) by auto
  have up: "nt_status (net (nl_agent s)) \<noteq> NET_STATUS_NOT_CONNECTED" "\<not> nt_stop (net (nl_agent s))"
    "0 \<le> nt_sockfd (net (nl_agent s))" "length ?buf = EM_BUF_SIZE"
    using assms(2) by (simp_all add: up_def)
  have s1: "net_step P g (i\<lparr>in_recv := RecvData h\<rparr>) s = ?s1"
    using net_collect_data [OF assms(2) hne _ fit, of ?H "i\<lparr>in_recv := RecvData h\<rparr>" AtHeader]
      assms(1,3,5) up(2)
    by (simp add: net_step.simps Let_def)
  have b: "take ?H ?b = h" using take_buf_write(1) [OF up(4) fit] assms(5) by simp
  have s2: "net_step P g j ?s1 = ?s1\<lparr>nl_phase := AtBody ?H ?L\<rparr>"
    using b by (simp add: net_step.simps Let_def)
  let ?s2 = "?s1\<lparr>nl_phase := AtBody ?H ?L\<rparr>"
  have big: "int ?H < ?L" "EM_BUF_SIZE < ?H + length body" "body \<noteq> []"
    using assms(4,6,7) by auto
  have "BufferOverflow \<in> set (faults_of (trace (nl_env (net_step P g (i\<lparr>in_recv := RecvData body\<rparr>) ?s2))))"
    using big up assms(7)
    by (simp add: net_step.simps net_collect_def net_recv_def Let_def)
  then show ?thesis by (simp add: net_run_def s1 s2)
qed

definition huge_proto :: emproto where
  "huge_proto = demo_proto\<lparr>epp_msg_length := (\<lambda>_. 5000)\<rparr>"

theorem net_loop_overflow_witness:
  "BufferOverflow \<in> set (faults_of (trace (nl_env (net_run huge_proto demo_garbage
    [demo_sysin\<lparr>in_recv := RecvData [1, 1, 1, 1]\<rparr>, demo_sysin,
     demo_sysin\<lparr>in_recv := RecvData (replicate 4996 0)\<rparr>] (demo_loop\<lparr>nl_phase := AtHeader 0\<rparr>)))))"
  by (rule net_loop_overflow)
    (use demo_loop_up(1) in \<open>simp_all add: huge_proto_def EM_BUF_SIZE_def\<close>)

section \<open>Stopping\<close>

text \<open>How many steps the loop is from its end once it is told to stop.\<close>

definition to_end :: "emproto \<Rightarrow> netloop \<Rightarrow> nat" where
  "to_end P s = (case nl_phase s of
     AtEnd \<Rightarrow> 0
   | AtTop \<Rightarrow> if nt_status (net (nl_agent s)) = NET_STATUS_NOT_CONNECTED then 1 else 2
   | AtHeader b \<Rightarrow> if b < EP_HEADER_SIZE P then 1 else 4
   | AtBody b mlen \<Rightarrow> 3
   | AtConnect _ \<Rightarrow> 3)"

lemma to_end_step:
  assumes "nt_stop (net (nl_agent s))" and "0 < EP_HEADER_SIZE P"
  shows "nt_stop (net (nl_agent (net_step P g i s)))
    \<and> (to_end P (net_step P g i s) < to_end P s \<or> to_end P s = 0 \<and> net_step P g i s = s)"
proof (cases "nl_phase s")
  case (AtConnect ad)
  obtain r e v where y: "net_connect_try i ad (nl_agent s) (nl_errno s) (nl_env s) = (r, e, v)"
    by (rule prod_cases3)
  then have "r = Some (- 1)" using assms(1) by (auto simp: net_connect_try_def)
  with AtConnect y assms show ?thesis
    by (simp add: net_step.simps Let_def to_end_def)
next
  case (AtBody b mlen)
  obtain r c v where p: "net_process_message P g (nl_agent s) (take b (nt_buf (net (nl_agent s)))) (nl_env s)
      = (r, c, v)" by (rule prod_cases3)
  have "net c = net (nl_agent s)" using calm_net_process_message [OF p] by (simp add: calm_def)
  with AtBody p assms show ?thesis
    by (auto simp: net_step.simps Let_def to_end_def net_reset_def split_beta)
qed (use assms in \<open>auto simp: net_step.simps Let_def to_end_def net_reset_def split_beta\<close>)

text \<open>
  The listener stops.  Once its flag is set, and whatever the kernel answers from then on, the
  thread is at its end after four steps: no wait for a connection, a message or the rest of one
  keeps it.
\<close>

theorem net_loop_stops:
  assumes "nt_stop (net (nl_agent s))" and "0 < EP_HEADER_SIZE P" and "4 \<le> length is"
  shows "nl_phase (net_run P g is s) = AtEnd"
proof -
  have "to_end P (fold (net_step P g) is s) \<le> to_end P s - length is"
    if "nt_stop (net (nl_agent s))" for s
    using that
  proof (induction "is" arbitrary: s)
    case (Cons i "is")
    from to_end_step [OF Cons.prems assms(2), of g i] Cons.IH [of "net_step P g i s"]
    show ?case by auto
  qed simp
  moreover have "to_end P s \<le> 4" by (simp add: to_end_def split: net_phase.split)
  ultimately have "to_end P (net_run P g is s) = 0"
    using assms(1,3) by (fastforce simp: net_run_def)
  then show ?thesis by (simp add: to_end_def split: net_phase.splits if_splits)
qed

theorem net_loop_stops_witness:
  "nl_phase (net_run demo_proto demo_garbage (replicate 4 demo_sysin)
     (demo_loop\<lparr>nl_agent := fst (snd (agent_add_task ((demo_agent [])\<lparr>net := (net (demo_agent []))\<lparr>nt_stop := True\<rparr>\<rparr>)
        hello_task demo_env))\<rparr>)) = AtEnd"
  by (rule net_loop_stops) simp_all

section \<open>A peer that goes away\<close>

text \<open>
  (C36) An orderly close by the controller is noticed only if \<open>errno\<close> happens not to hold \<open>EAGAIN\<close>.
  \<open>recv\<close> returns 0 then and does not set it, so after a wait for data the old value is still
  there: the loop sleeps and reads again, for ever, with the status still connected.  With any
  other value the connection is given up at once.
\<close>

theorem net_close_unnoticed:
  assumes "nl_phase s = AtHeader b" and "b < EP_HEADER_SIZE P" and "up (net (nl_agent s))"
    and "b < EM_BUF_SIZE"
  shows "if nl_errno s = EAGAIN
    then nl_agent (net_run P g (replicate n (i\<lparr>in_recv := RecvData []\<rparr>)) s) = nl_agent s
      \<and> nl_phase (net_run P g (replicate n (i\<lparr>in_recv := RecvData []\<rparr>)) s) = AtHeader b
    else nl_phase (net_step P g (i\<lparr>in_recv := RecvData []\<rparr>) s) = AtTop
      \<and> nt_status (net (nl_agent (net_step P g (i\<lparr>in_recv := RecvData []\<rparr>) s))) = NET_STATUS_NOT_CONNECTED"
proof -
  let ?i = "i\<lparr>in_recv := RecvData []\<rparr>"
  have w: "buf_write b [] (nt_buf (net (nl_agent s))) = nt_buf (net (nl_agent s))"
    using assms(3) by (simp add: buf_write_def up_def)
  have one: "net_step P g ?i t = t\<lparr>nl_env := relax (wait_time (nt_interval (net (nl_agent s))) 0) (nl_env t)\<rparr>"
    if "nl_agent t = nl_agent s" "nl_phase t = AtHeader b" "nl_errno t = EAGAIN" for t
    using that assms w
    by (cases t) (simp add: net_step.simps net_collect_def net_recv_def up_def Let_def)
  have "nl_agent (net_run P g (replicate n ?i) t) = nl_agent s
      \<and> nl_phase (net_run P g (replicate n ?i) t) = AtHeader b"
    if "nl_agent t = nl_agent s" "nl_phase t = AtHeader b" "nl_errno t = EAGAIN" for t
    using that by (induction n arbitrary: t) (simp_all add: net_run_def one)
  moreover have "nl_phase (net_step P g ?i s) = AtTop
      \<and> nt_status (net (nl_agent (net_step P g ?i s))) = NET_STATUS_NOT_CONNECTED"
    if "nl_errno s \<noteq> EAGAIN"
    using that assms
    by (simp add: net_step.simps net_collect_def net_recv_def up_def Let_def net_reset_def split_beta)
  ultimately show ?thesis using assms(1) by simp
qed

theorem net_close_unnoticed_witness:
  "nl_phase (net_run demo_proto demo_garbage (replicate 1000 (demo_sysin\<lparr>in_recv := RecvData []\<rparr>))
     (demo_loop\<lparr>nl_errno := EAGAIN, nl_phase := AtHeader 0\<rparr>)) = AtHeader 0"
  using net_close_unnoticed [of "demo_loop\<lparr>nl_errno := EAGAIN, nl_phase := AtHeader 0\<rparr>" 0 demo_proto
      demo_garbage 1000 demo_sysin] demo_loop_up(1)
  by (simp add: EM_BUF_SIZE_def)

text \<open>
  Losing the connection while receiving and getting it back starts a second Hello task beside
  the first: only the scheduler's own error path empties the queue, the listener's does not.  Every
  such reconnection adds one more.
\<close>

theorem net_reconnect_adds_hello:
  assumes "nl_phase s = AtHeader b" and "b < EP_HEADER_SIZE P" and "up (net (nl_agent s))"
    and "0 < nt_sockfd (net (nl_agent s))"
    and "e \<noteq> EAGAIN" and "in_host j = Some ad" and "0 \<le> socket_ret (nl_env s) (sockets (nl_env s))"
    and "0 \<le> fst (in_connect j)" and "\<forall>n. malloc_ok (nl_env s) n" and "\<not> sc_stop (sched (nl_agent s))"
  shows "let t = net_run P g [i\<lparr>in_recv := RecvFail e\<rparr>, j, j] s in
    nl_phase t = AtHeader 0 \<and> nt_status (net (nl_agent t)) = NET_STATUS_CONNECTED
    \<and> map tk_type (sc_jobs (sched (nl_agent t))) = map tk_type (sc_jobs (sched (nl_agent s))) @ [TASK_TYPE_HELLO]
    \<and> map tk_resch (sc_jobs (sched (nl_agent t))) = map tk_resch (sc_jobs (sched (nl_agent s))) @ [- 1]"
proof -
  let ?s1 = "net_step P g (i\<lparr>in_recv := RecvFail e\<rparr>) s"
  have s1: "nl_phase ?s1 = AtTop" "nt_status (net (nl_agent ?s1)) = NET_STATUS_NOT_CONNECTED"
    "\<not> nt_stop (net (nl_agent ?s1))" "nt_sockfd (net (nl_agent ?s1)) = - 1"
    "sched (nl_agent ?s1) = sched (nl_agent s)" "malloc_ok (nl_env ?s1) = malloc_ok (nl_env s)"
    "sockets (nl_env ?s1) = sockets (nl_env s)" "socket_ret (nl_env ?s1) = socket_ret (nl_env s)"
    using assms(1-5)
    by (simp_all add: net_step.simps net_collect_def net_recv_def up_def Let_def net_reset_def
        net_not_connected_env emit_def split_beta)
  let ?s2 = "net_step P g j ?s1"
  obtain q a v where p: "net_connect_prepare j (nl_agent ?s1) (nl_env ?s1) = (q, a, v)"
    by (rule prod_cases3)
  have q: "q = Some ad" "sched a = sched (nl_agent s)" "malloc_ok v = malloc_ok (nl_env s)"
    "\<not> nt_stop (net a)" 
    using p s1 assms(6,7)
    by (auto simp: net_connect_prepare_def socket_def net_noblock_socket_def net_nodelay_socket_def Let_def
        split: if_splits)
  have s2: "?s2 = ?s1\<lparr>nl_agent := a, nl_env := v, nl_phase := AtConnect ad\<rparr>"
    using s1 p q(1) by (simp add: net_step.simps Let_def)
  obtain r err u where y: "net_connect_try j ad a (nl_errno ?s1) v = (r, err, u)" by (rule prod_cases3)
  have r: "r = Some 0" "malloc_ok u = malloc_ok (nl_env s)"
    using y q(3,4) assms(8) by (auto simp: net_connect_try_def Let_def split: if_splits prod.splits)
  obtain c b' w where n: "net_connected a u = (c, b', w)" by (rule prod_cases3)
  have ok: "alloc_ok u None" using r(2) assms(9) by (simp add: alloc_ok_def)
  obtain t x where t: "task_alloc TASK_TYPE_HELLO 2000 (- 1) 0 None 0 u = (t, x)" by fastforce
  have "c = 0 \<and> nt_status (net b') = NET_STATUS_CONNECTED
      \<and> map tk_type (sc_jobs (sched b')) = map tk_type (sc_jobs (sched a)) @ [TASK_TYPE_HELLO]
      \<and> map tk_resch (sc_jobs (sched b')) = map tk_resch (sc_jobs (sched a)) @ [- 1]"
    using n ok task_alloc_after(1) [OF t] assms(10) q(2)
    by (auto simp: net_connected_def t agent_add_task_def sched_add_task_def clock_gettime_def)
  then show ?thesis
    using y r n q(2) by (simp add: net_run_def s2 Let_def) (simp add: net_step.simps Let_def)
qed

theorem net_reconnect_adds_hello_witness:
  "map tk_type (sc_jobs (sched (nl_agent (net_run demo_proto demo_garbage
     [demo_sysin\<lparr>in_recv := RecvFail 104\<rparr>, demo_sysin, demo_sysin]
     (demo_loop\<lparr>nl_agent := demo_agent [hello_task], nl_phase := AtHeader 0\<rparr>)))))
   = [TASK_TYPE_HELLO, TASK_TYPE_HELLO]"
proof -
  let ?s = "demo_loop\<lparr>nl_agent := demo_agent [hello_task], nl_phase := AtHeader 0\<rparr>"
  have up: "up (net (nl_agent ?s))" by (simp add: up_def demo_agent_def const_simps EM_BUF_SIZE_def)
  have fd: "0 \<le> socket_ret (nl_env ?s) (sockets (nl_env ?s))"
    by (simp add: demo_loop_def demo_env_def)
  have mem: "\<forall>n. malloc_ok (nl_env ?s) n" by (simp add: demo_loop_def)
  have conn: "0 \<le> fst (in_connect demo_sysin)" "in_host demo_sysin = Some [10, 0, 0, 1]"
    by (simp_all add: demo_sysin_def)
  have n: "nl_phase ?s = AtHeader 0" "0 < EP_HEADER_SIZE demo_proto" "0 < nt_sockfd (net (nl_agent ?s))"
    "(104 :: int) \<noteq> EAGAIN" "\<not> sc_stop (sched (nl_agent ?s))"
    by (simp_all add: const_simps)
  show ?thesis
    using net_reconnect_adds_hello [OF n(1,2) up n(3,4) conn(2) fd conn(1) mem n(5), of demo_garbage demo_sysin]
    by (simp add: Let_def hello_task_def)
qed

section \<open>Waiting\<close>

lemma wait_time_acc: "wait_time wi sec = Timespec (sec + uint wi div 1000) (uint wi mod 1000 * 1000000)"
proof (induction wi sec rule: wait_time.induct)
  case (1 wi sec)
  show ?case
  proof (cases "1000 \<le> wi")
    case True
    then have "1000 \<le> uint wi" by (simp add: word_le_def)
    then have e: "uint (wi - 1000) = uint wi - 1000"
      using True by (simp add: uint_sub_if')
    have d: "uint (wi - 1000) div 1000 = uint wi div 1000 - 1"
      and m: "uint (wi - 1000) mod 1000 = uint wi mod 1000"
      unfolding e using div_add_self2 [of 1000 "uint wi - 1000"] by simp_all
    have "wait_time wi sec = wait_time (wi - 1000) (sec + 1)"
      unfolding wait_time.simps [of wi sec] by (simp only: True if_True)
    then show ?thesis unfolding "1.IH" [OF True] d m by simp
  next
    case False
    then have l: "uint wi < 1000" by (simp add: word_le_def)
    then have "uint (wi * 1000000) = uint wi * 1000000"
      by (simp add: uint_word_ariths take_bit_int_eq_self)
    then show ?thesis using False l unfolding wait_time.simps [of wi sec] by simp
  qed
qed

text \<open>
  The conversion of an interval in milliseconds, done by repeated subtraction in both threads,
  is exact and yields a valid time for \<open>nanosleep\<close>: the 32-bit multiplication does not wrap.
\<close>

theorem wait_time_correct:
  "ts_normal (wait_time wi 0) \<and> ts_ns (wait_time wi 0) = uint wi * 1000000
   \<and> ts_normal (reconnect_time (wait_time wi 0))
   \<and> ts_ns (reconnect_time (wait_time wi 0)) = uint wi * 1000000 + 1000000000"
proof -
  have "uint wi div 1000 * 1000000000 + uint wi mod 1000 * 1000000 = uint wi * 1000000"
    using div_mult_mod_eq [of "uint wi" 1000] by linarith
  moreover have "uint wi mod 1000 * 1000000 < 1000000000" by simp
  ultimately show ?thesis
    by (simp add: wait_time_acc ts_normal_def ts_ns_def reconnect_time_def algebra_simps)
qed

end
