(* ===== verification/SchedLoop.thy ===== *)
theory SchedLoop
  imports Sched NetLoop
begin

text \<open>
  \<open>src/agent/sched.c\<close>: the thread of the scheduler, its start and its stop.
\<close>

text \<open>What the thread does after its loop: both queues are freed, under one lock.\<close>

definition sched_loop_exit :: "schctx \<Rightarrow> env \<Rightarrow> schctx \<times> env" where
  "sched_loop_exit s w =
     (let w = task_free_all (sc_todo s) w;
          s = s\<lparr>sc_todo := []\<rparr>;
          w = task_free_all (sc_jobs s) w;
          s = s\<lparr>sc_jobs := []\<rparr>
      in (s, w))"

text \<open>
  One look at the flag: a pass and a sleep, or the end (\<open>True\<close>).
\<close>

definition sched_loop_turn ::
    "emproto \<Rightarrow> stack_garbage \<Rightarrow> emage \<Rightarrow> env \<Rightarrow> bool \<times> emage \<times> env" where
  "sched_loop_turn P g a w =
     (if \<not> sc_stop (sched a)
      then let (r, a, w) = sched_consume P g a w
           in (False, a, emit (EvSleep (wait_time (sc_interval (sched a)) 0)) w)
      else let (s, w) = sched_loop_exit (sched a) w in (True, a\<lparr>sched := s\<rparr>, w))"

definition sched_start :: "u64 \<Rightarrow> schctx \<Rightarrow> env \<Rightarrow> int \<times> schctx \<times> env" where
  "sched_start e ctx w =
     (let ctx = ctx\<lparr>sc_interval := 100\<rparr>;
          ctx = ctx\<lparr>sc_jobs := [], sc_todo := []\<rparr>;
          (ok, w) = pthread_create w;
          ctx = ctx\<lparr>sc_thread := ok\<rparr>
      in if \<not> ok then (- 1, ctx, EMLOG (Some e) ''sched_start'' ''Cannot create scheduler thread'' w)
         else (0, ctx, w))"

text \<open>
  Joining waits until the thread has seen the flag and done its part; the caller comes between two
  passes.
\<close>

definition sched_stop :: "schctx \<Rightarrow> env \<Rightarrow> int \<times> schctx \<times> env" where
  "sched_stop ctx w =
     (let ctx = ctx\<lparr>sc_stop := True\<rparr>;
          (ctx, w) = (if sc_thread ctx then sched_loop_exit ctx w else (ctx, w));
          w = pthread_join (sc_thread ctx) w
      in (0, ctx, w))"

lemma sched_loop_exit_simps [simp]:
  "sc_jobs (fst (sched_loop_exit s w)) = []" "sc_todo (fst (sched_loop_exit s w)) = []"
  "sc_stop (fst (sched_loop_exit s w)) = sc_stop s"
  "sc_thread (fst (sched_loop_exit s w)) = sc_thread s"
  by (simp_all add: sched_loop_exit_def Let_def)

end
