(* ===== verification/Core.thy ===== *)
theory Core
  imports SchedLoop
begin

text \<open>
  \<open>src/agent/core.c\<close>: the public calls.  The state of the core is whether it was initialised and the
  list of its agents.  Each critical section under \<open>core_agents_lock\<close> is one step, and the calls are
  made one after the other.
\<close>

section \<open>State\<close>

record core =
  core_init :: bool
  core_agents :: "emage list"

definition core_empty :: core where
  "core_empty = \<lparr>core_init = False, core_agents = []\<rparr>"

text \<open>The first agent with an id, and the list with that agent replaced.\<close>

definition find_agent :: "u64 \<Rightarrow> emage list \<Rightarrow> emage option" where
  "find_agent e as = List.find (\<lambda>a. enb_id a = e) as"

fun put_agent :: "u64 \<Rightarrow> emage \<Rightarrow> emage list \<Rightarrow> emage list" where
  "put_agent e b [] = []"
| "put_agent e b (a # as) = (if enb_id a = e then b # as else a # put_agent e b as)"

section \<open>Misc.\<close>

definition core_send :: "emage \<Rightarrow> bytes \<Rightarrow> u32 \<Rightarrow> env \<Rightarrow> int \<times> emage \<times> env" where
  "core_send a msg sz w =
     (let (task, w) = task_alloc TASK_TYPE_SEND 1 0 0 (Some msg) sz w in
      case task of
        None \<Rightarrow> (- 1, a, EMLOG (Some (enb_id a)) ''core_send'' ''Cannot create new SEND task'' w)
      | Some task \<Rightarrow> agent_add_task a task w)"

definition core_initialize :: "core \<Rightarrow> env \<Rightarrow> int \<times> core \<times> env" where
  "core_initialize c w =
     (if core_init c then (0, c, w)
      else let (r, w) = log_init w in (0, c\<lparr>core_init := True\<rparr>, w))"

definition core_release_agent :: "emage \<Rightarrow> env \<Rightarrow> int \<times> env" where
  "core_release_agent a w =
     (let (r, s, w) = sched_stop (sched a) w;
          (r, n, w) = net_stop (net a) w;
          (t, w) = trig_flush (trig a) w
      in (0, w))"

section \<open>Public API\<close>

definition em_has_trigger :: "u64 \<Rightarrow> i32 \<Rightarrow> core \<Rightarrow> int" where
  "em_has_trigger e tid c =
     (case find_agent e (core_agents c) of
        None \<Rightarrow> 0
      | Some a \<Rightarrow> (case trig_find_by_id (trig a) tid of None \<Rightarrow> 0 | Some _ \<Rightarrow> 1))"

text \<open>The result of \<open>trig_del_by_id\<close> is dropped; what is returned is the variable \<open>t\<close>, still null.\<close>

definition em_del_trigger :: "u64 \<Rightarrow> i32 \<Rightarrow> core \<Rightarrow> env \<Rightarrow> int \<times> core \<times> env" where
  "em_del_trigger e tid c w =
     (case find_agent e (core_agents c) of
        None \<Rightarrow> (0, c, w)
      | Some a \<Rightarrow>
          let (r, ctx, w) = trig_del_by_id (trig a) tid w
          in (0, c\<lparr>core_agents := put_agent e (a\<lparr>trig := ctx\<rparr>) (core_agents c)\<rparr>, w))"

definition em_is_connected :: "u64 \<Rightarrow> core \<Rightarrow> int" where
  "em_is_connected e c =
     (case find_agent e (core_agents c) of
        None \<Rightarrow> 0
      | Some a \<Rightarrow> if nt_status (net a) = NET_STATUS_CONNECTED then 1 else 0)"

definition em_send :: "u64 \<Rightarrow> bytes option \<Rightarrow> u32 \<Rightarrow> core \<Rightarrow> env \<Rightarrow> int \<times> core \<times> env" where
  "em_send e msg sz c w =
     (case msg of
        None \<Rightarrow> (- 1, c, w)
      | Some m \<Rightarrow>
          if sz = 0 then (- 1, c, w)
          else case find_agent e (core_agents c) of
              None \<Rightarrow> (- 1, c, w)
            | Some a \<Rightarrow>
                let (s, a, w) = core_send a m sz w
                in (s, c\<lparr>core_agents := put_agent e a (core_agents c)\<rparr>, w))"

text \<open>\<open>if(a->ops && a->ops->release) a->ops->release();\<close>\<close>

definition tell_release :: "emage \<Rightarrow> env \<Rightarrow> env" where
  "tell_release a w = (if has_op a op_release then call (enb_id a) CbRelease w else w)"

definition em_terminate_agent :: "u64 \<Rightarrow> core \<Rightarrow> env \<Rightarrow> int \<times> core \<times> env" where
  "em_terminate_agent e c w =
     (case find_agent e (core_agents c) of
        None \<Rightarrow> (0, c, w)
      | Some a \<Rightarrow>
          let c = c\<lparr>core_agents := delete_first (\<lambda>a. enb_id a = e) (core_agents c)\<rparr>;
              (r, w) = core_release_agent a (tell_release a w)
          in (0, c, w))"

text \<open>An agent after \<open>memset(a, 0, sizeof(emage))\<close>.\<close>

definition zero_agent :: emage where
  "zero_agent = \<lparr>enb_id = 0, ops = None, trig = \<lparr>tx_ts = [], tx_next = 0\<rparr>,
     net = \<lparr>nt_addr = replicate 16 0, nt_port = 0, nt_sockfd = 0, nt_stop = False, nt_status = 0,
       nt_seq = 0, nt_buf = replicate EM_BUF_SIZE 0, nt_interval = 0, nt_thread = False\<rparr>,
     sched = \<lparr>sc_stop = False, sc_jobs = [], sc_todo = [], sc_interval = 0, sc_thread = False\<rparr>\<rparr>"

text \<open>
  \<open>memcpy(a->net.addr, ctrl_addr, strlen(ctrl_addr))\<close> into the array \<open>addr\<close> of 16 at the start of
  \<open>struct netctx\<close>; the address is without its terminating zero here.  A longer address is undefined
  behaviour, the event \<open>BufferOverflow\<close>, and runs into the members behind the array, at the places
  they have where an \<open>int\<close> is four bytes, aligned, least significant first: \<open>port\<close> at 16, \<open>sockfd\<close> at
  20, \<open>stop\<close> at 24, \<open>status\<close> at 28, \<open>seq\<close> at 32, \<open>buf\<close> at 36.  The context was cleared before.  What lies
  behind \<open>buf\<close> is not followed.
\<close>

definition little :: "nat \<Rightarrow> bytes \<Rightarrow> 'a :: len word" where
  "little k bs = foldr (\<lambda>b w. ucast b + 256 * w) (take k bs) 0"

definition spill :: "bytes \<Rightarrow> netctx \<Rightarrow> netctx" where
  "spill src n =
     (let m = src @ replicate (36 + EM_BUF_SIZE - length src) 0
      in n\<lparr>nt_addr := take 16 m, nt_port := little 2 (drop 16 m),
          nt_sockfd := sint (little 4 (drop 20 m) :: u32), nt_stop := ((little 4 (drop 24 m) :: u32) \<noteq> 0),
          nt_status := sint (little 4 (drop 28 m) :: u32), nt_seq := little 4 (drop 32 m),
          nt_buf := take EM_BUF_SIZE (drop 36 m)\<rparr>)"

definition copy_addr :: "bytes \<Rightarrow> netctx \<Rightarrow> env \<Rightarrow> netctx \<times> env" where
  "copy_addr src n w = (spill src n, if length src > 16 then emit (EvFault BufferOverflow) w else w)"

definition new_agent ::
    "u64 \<Rightarrow> em_agent_ops \<Rightarrow> bytes \<Rightarrow> u16 \<Rightarrow> env \<Rightarrow> emage \<times> env" where
  "new_agent e t addr port w =
     (let a = zero_agent\<lparr>enb_id := e\<rparr>;
          (n, w) = copy_addr addr (net a) w;
          a = a\<lparr>net := n\<lparr>nt_port := port\<rparr>, ops := Some t\<rparr>;
          a = a\<lparr>trig := trig_ctx_init\<rparr>
      in (a, w))"

definition em_start ::
    "u64 \<Rightarrow> em_agent_ops option \<Rightarrow> bytes \<Rightarrow> u16 \<Rightarrow> core \<Rightarrow> env \<Rightarrow> int \<times> core \<times> env" where
  "em_start e ops' addr port c w =
     (case ops' of
        None \<Rightarrow> (- 1, c, w)
      | Some t \<Rightarrow>
          let (r, c, w) = core_initialize c w in
          if find_agent e (core_agents c) \<noteq> None
          then (- 1, c, EMLOG None ''em_start'' ''Agent eNB %d is already running...'' w)
          else
            let (ok, w) = malloc w in
            if \<not> ok then (- 1, c, w)
            else
              let (a, w) = new_agent e t addr port w;
                  (r, s, w) = sched_start e (sched a) w;
                  a = a\<lparr>sched := s\<rparr>
              in if r \<noteq> 0
                 then let w = EMLOG (Some e) ''em_start'' ''Failed to start the scheduler context'' w;
                          (q, w) = core_release_agent a w
                      in (- 1, c, w)
                 else
                   let (r, n, w) = net_start e (net a) w;
                       a = a\<lparr>net := n\<rparr>
                   in if r \<noteq> 0
                      then let w = EMLOG (Some e) ''em_start'' ''Failed to start the network context'' w;
                               (q, w) = core_release_agent a w
                           in (- 1, c, w)
                      else
                        case op_init t of
                          None \<Rightarrow> (0, c\<lparr>core_agents := a # core_agents c\<rparr>, w)
                        | Some s \<Rightarrow>
                            let w = call e CbInit w
                            in if s < 0
                               then let (q, w) = core_release_agent a w in (s, c, w)
                               else (0, c\<lparr>core_agents := a # core_agents c\<rparr>, w))"

text \<open>The loop of \<open>em_stop\<close>: release the first agent until there is none.\<close>

fun release_all :: "emage list \<Rightarrow> env \<Rightarrow> env" where
  "release_all [] w = w"
| "release_all (a # as) w =
     (let (r, w) = core_release_agent a (tell_release a w) in release_all as w)"

definition em_stop :: "core \<Rightarrow> env \<Rightarrow> int \<times> core \<times> env" where
  "em_stop c w =
     (let w = release_all (core_agents c) w;
          c = c\<lparr>core_agents := []\<rparr>;
          w = EMLOG None ''em_stop'' ''Core shut down'' w
      in (0, c, log_release w))"

end
