(* ===== verification/CoreFacts.thy ===== *)
theory CoreFacts
  imports Core NetBooks Demo
begin

text \<open>
  The core with the work of its threads: every call of the API and every step of a thread keeps the
  identity of the agents and the accounts of the process.
\<close>

section \<open>What a step of a thread leaves alone\<close>

definition same_agent :: "emage \<Rightarrow> env \<Rightarrow> emage \<Rightarrow> env \<Rightarrow> bool" where
  "same_agent a w b v \<longleftrightarrow> enb_id b = enb_id a \<and> ops b = ops a
     \<and> sc_stop (sched b) = sc_stop (sched a) \<and> sc_thread (sched b) = sc_thread (sched a)
     \<and> nt_stop (net b) = nt_stop (net a) \<and> nt_thread (net b) = nt_thread (net a)
     \<and> sizeof_emtask v = sizeof_emtask w \<and> sizeof_emtri v = sizeof_emtri w"

lemma same_agent_refl [simp]: "same_agent a w a w"
  by (simp add: same_agent_def)

lemma same_agent_trans [trans]: "same_agent a w b v \<Longrightarrow> same_agent b v c u \<Longrightarrow> same_agent a w c u"
  by (simp add: same_agent_def)

lemma sched_dispatch_net:
  assumes "sched_dispatch P g a task w = (r, b, task', v)"
  shows "nt_stop (net b) = nt_stop (net a) \<and> nt_thread (net b) = nt_thread (net a)"
  using assms
  by (auto simp: sched_dispatch_def sched_perform_send_def sched_perform_hello_def sched_send_msg_def
      Let_def split: if_splits prod.splits)

lemma same_agent_dispatch:
  assumes "sched_dispatch P g a task w = (r, b, task', v)"
  shows "same_agent a w b v"
  using sched_dispatch_frame(1) [OF assms] sched_dispatch_net [OF assms] same_heap_dispatch [OF assms]
  by (simp add: same_agent_def same_heap_def)

lemma same_agent_net_error:
  "same_agent a w (fst (sched_net_error a w)) (snd (sched_net_error a w))"
  by (simp add: same_agent_def sched_net_error_mem)
    (simp add: sched_net_error_def Let_def split_beta net_not_connected_def)

lemma same_agent_turn:
  assumes "sched_turn P g a t w = (e, b, v)"
  shows "same_agent a w b v"
proof -
  let ?w = "w\<lparr>clocks := Suc (clocks w)\<rparr>"
  obtain r c u x where j: "sched_perform_job P g a t (clock w (clocks w)) ?w = (r, c, u, x)"
    by (rule prod_cases4)
  have "same_agent a w c x"
    using j same_agent_dispatch [of P g a t ?w]
    by (auto simp: sched_perform_job_def same_agent_def Let_def split: if_splits prod.splits)
  note c = this
  have e: "same_agent a w (fst (sched_net_error c (task_free u x))) (snd (sched_net_error c (task_free u x)))"
  proof -
    note c
    also have "same_agent c x c (task_free u x)" by (simp add: same_agent_def)
    also note same_agent_net_error
    finally show ?thesis .
  qed
  show ?thesis
    using assms j c e
    by (cases r) (auto simp: sched_turn_def clock_gettime_def todo_push_def same_agent_def split_beta)
qed

lemma same_agent_consume:
  assumes "sched_consume P g a w = (r, b, v)"
  shows "same_agent a w b v"
proof -
  obtain e c u where l: "sched_consume_loop P g a w = (e, c, u)" by (rule prod_cases3)
  have "if e then same_agent a w c u else same_agent a w c u \<and> sc_jobs (sched c) = []"
  proof (rule consume_loop_rule [OF l, where E = "same_agent a w"])
    fix d t ts x b v e
    have pop: "same_agent d x (jobs_pop d) x" by (simp add: same_agent_def jobs_pop_def)
    assume "same_agent a w d x"
    then show "sched_turn P g (jobs_pop d) t x = (False, b, v) \<Longrightarrow> same_agent a w b v"
      and "sched_turn P g (jobs_pop d) t x = (True, b, v) \<Longrightarrow> same_agent a w b v"
      using same_agent_trans [OF pop same_agent_turn] same_agent_trans by blast+
  qed simp
  then have "same_agent a w c u" by (simp split: if_splits)
  then show ?thesis
    using assms l by (auto simp: sched_consume_def sched_requeue_def same_agent_def split: bool.splits)
qed

lemma same_agent_message:
  assumes "net_process_message P g a msg w = (r, b, v)"
  shows "same_agent a w b v"
  using calm_net_process_message [OF assms] by (simp add: calm_def same_agent_def)

section \<open>Releasing an agent\<close>

definition agent_tasks :: "env \<Rightarrow> emage \<Rightarrow> u32" where
  "agent_tasks w a = tasks_bytes w (sc_todo (sched a)) + tasks_bytes w (sc_jobs (sched a))"

definition agent_trigs :: "env \<Rightarrow> emage \<Rightarrow> u32" where
  "agent_trigs w a = trigs_bytes w (tx_ts (trig a))"

lemma agent_bytes_cong:
  assumes "sizeof_emtask v = sizeof_emtask w" and "sizeof_emtri v = sizeof_emtri w"
  shows "agent_tasks v = agent_tasks w" and "agent_trigs v = agent_trigs w"
  using assms
  by (simp_all add: fun_eq_iff agent_tasks_def agent_trigs_def tasks_bytes_cong [of v w]
      trigs_bytes_cong [of v w])

definition joins :: "emage \<Rightarrow> event list" where
  "joins a = (if sc_thread (sched a) then [] else [EvFault BadJoin])
     @ (if nt_thread (net a) then [] else [EvFault BadJoin])"

lemma core_release_agent_effect:
  assumes "core_release_agent a w = (r, v)"
  shows "r = 0" and "trace v = trace w @ joins a"
    and "task_mem v = task_mem w - (if sc_thread (sched a) then agent_tasks w a else 0)"
    and "trig_mem v = trig_mem w - agent_trigs w a"
    and "sizeof_emtask v = sizeof_emtask w" and "sizeof_emtri v = sizeof_emtri w"
    and "log_fd v = log_fd w"
proof -
  obtain r1 s w1 where s: "sched_stop (sched a) w = (r1, s, w1)" by (rule prod_cases3)
  have w1: "trace w1 = trace w @ (if sc_thread (sched a) then [] else [EvFault BadJoin])"
    "task_mem w1 = task_mem w - (if sc_thread (sched a) then agent_tasks w a else 0)"
    "trig_mem w1 = trig_mem w" "sizeof_emtask w1 = sizeof_emtask w" "sizeof_emtri w1 = sizeof_emtri w"
    "log_fd w1 = log_fd w"
    using s by (auto simp: sched_stop_def sched_loop_exit_def pthread_join_def agent_tasks_def
        task_free_all_mem diff_diff_eq Let_def split: if_splits)
  obtain r2 n w2 where n: "net_stop (net a) w1 = (r2, n, w2)" by (rule prod_cases3)
  have w2: "trace w2 = trace w1 @ (if nt_thread (net a) then [] else [EvFault BadJoin])"
    "task_mem w2 = task_mem w1" "trig_mem w2 = trig_mem w1" "sizeof_emtask w2 = sizeof_emtask w1"
    "sizeof_emtri w2 = sizeof_emtri w1" "log_fd w2 = log_fd w1"
    using n by (auto simp: net_stop_def pthread_join_def)
  have v: "r = 0" "v = snd (trig_flush (trig a) w2)"
    using assms s n by (auto simp: core_release_agent_def split: prod.splits)
  have "trigs_bytes w2 ts = trigs_bytes w ts" for ts
    by (rule trigs_bytes_cong) (use w1 w2 in simp)
  then show "r = 0" and "trace v = trace w @ joins a"
    and "task_mem v = task_mem w - (if sc_thread (sched a) then agent_tasks w a else 0)"
    and "trig_mem v = trig_mem w - agent_trigs w a"
    and "sizeof_emtask v = sizeof_emtask w" and "sizeof_emtri v = sizeof_emtri w"
    and "log_fd v = log_fd w"
    using v w1 w2 by (simp_all add: joins_def agent_trigs_def)
qed

section \<open>The accounts of the process\<close>

definition core_books :: "u32 \<Rightarrow> u32 \<Rightarrow> emage list \<Rightarrow> env \<Rightarrow> bool" where
  "core_books k l as w \<longleftrightarrow> task_mem w = (\<Sum>a\<leftarrow>as. agent_tasks w a) + k
     \<and> trig_mem w = (\<Sum>a\<leftarrow>as. agent_trigs w a) + l"

lemma core_books_cong:
  assumes "task_mem v = task_mem w" and "trig_mem v = trig_mem w"
    and "sizeof_emtask v = sizeof_emtask w" and "sizeof_emtri v = sizeof_emtri w"
  shows "core_books k l as v \<longleftrightarrow> core_books k l as w"
  using assms agent_bytes_cong [OF assms(3,4)] by (simp add: core_books_def)

lemma find_agent_split:
  assumes "find_agent e as = Some a"
  obtains us vs where "as = us @ a # vs" and "\<forall>u \<in> set us. enb_id u \<noteq> e" and "enb_id a = e"
    and "\<And>b. put_agent e b as = us @ b # vs"
    and "delete_first (\<lambda>a. enb_id a = e) as = us @ vs"
proof -
  obtain us vs where s: "as = us @ a # vs" "\<forall>u \<in> set us. enb_id u \<noteq> e" "enb_id a = e"
    using assms unfolding find_agent_def by (rule find_split)
  have p: "put_agent e b (us @ a # vs) = us @ b # vs" for b
    using s(2,3) by (induction us) simp_all
  show thesis
  proof (rule that [OF s])
    show "put_agent e b as = us @ b # vs" for b unfolding s(1) by (rule p)
    show "delete_first (\<lambda>a. enb_id a = e) as = us @ vs"
      unfolding s(1) by (rule delete_first_split [OF s(2,3)])
  qed
qed

text \<open>A step of one agent that keeps its own accounts keeps those of the process.\<close>

lemma core_books_put:
  assumes "find_agent e as = Some a" and "core_books k l as w" and "same_agent a w b v"
    and "\<And>k l. books k l a w \<Longrightarrow> books k l b v"
  shows "core_books k l (put_agent e b as) v"
proof -
  obtain us vs where s: "as = us @ a # vs" "\<And>b. put_agent e b as = us @ b # vs"
    using assms(1) by (rule find_agent_split) blast
  have "sizeof_emtask v = sizeof_emtask w" "sizeof_emtri v = sizeof_emtri w"
    using assms(3) by (simp_all add: same_agent_def)
  note sz = agent_bytes_cong [OF this]
  define k' where "k' = (\<Sum>a\<leftarrow>us. agent_tasks w a) + (\<Sum>a\<leftarrow>vs. agent_tasks w a) + k"
  define l' where "l' = (\<Sum>a\<leftarrow>us. agent_trigs w a) + (\<Sum>a\<leftarrow>vs. agent_trigs w a) + l"
  have "books k' l' a w"
    using assms(2) by (simp add: core_books_def s(1) books_def k'_def l'_def agent_tasks_def
        agent_trigs_def algebra_simps)
  have b: "tasks_bytes v (sc_jobs (sched b)) + tasks_bytes v (sc_todo (sched b)) = agent_tasks w b"
    using fun_cong [OF sz(1), of b] by (simp add: agent_tasks_def add.commute)
  from assms(4) [OF \<open>books k' l' a w\<close>] show ?thesis
    by (simp add: s(2) core_books_def sz b books_def k'_def l'_def agent_trigs_def [symmetric] algebra_simps)
qed

section \<open>The whole system\<close>

text \<open>
  A call of the API, a pass of the scheduler of an agent, or a message its listener received.
\<close>

datatype core_op =
    Start u64 "em_agent_ops option" bytes u16
  | Terminate u64
  | Send u64 "bytes option" u32
  | DelTrigger u64 i32
  | Stop
  | Pass u64
  | Handle u64 bytes

definition on_agent :: "u64 \<Rightarrow> (emage \<Rightarrow> env \<Rightarrow> int \<times> emage \<times> env) \<Rightarrow> core \<times> env \<Rightarrow> core \<times> env" where
  "on_agent e f x = (let (c, w) = x in
     case find_agent e (core_agents c) of
       None \<Rightarrow> (c, w)
     | Some a \<Rightarrow> let (r, a, w) = f a w in (c\<lparr>core_agents := put_agent e a (core_agents c)\<rparr>, w))"

fun core_step :: "emproto \<Rightarrow> stack_garbage \<Rightarrow> core_op \<Rightarrow> core \<times> env \<Rightarrow> core \<times> env" where
  "core_step P g (Start e ops' ad port) (c, w) = snd (em_start e ops' ad port c w)"
| "core_step P g (Terminate e) (c, w) = snd (em_terminate_agent e c w)"
| "core_step P g (Send e msg sz) (c, w) = snd (em_send e msg sz c w)"
| "core_step P g (DelTrigger e tid) (c, w) = snd (em_del_trigger e tid c w)"
| "core_step P g Stop (c, w) = snd (em_stop c w)"
| "core_step P g (Pass e) x = on_agent e (sched_consume P g) x"
| "core_step P g (Handle e msg) x = on_agent e (\<lambda>a. net_process_message P g a msg) x"

text \<open>An agent that is in the list has both its threads and was not told to stop.\<close>

definition agent_up :: "emage \<Rightarrow> bool" where
  "agent_up a \<longleftrightarrow> sc_thread (sched a) \<and> nt_thread (net a) \<and> \<not> sc_stop (sched a) \<and> \<not> nt_stop (net a)"

definition core_inv :: "u32 \<Rightarrow> u32 \<Rightarrow> core \<times> env \<Rightarrow> bool" where
  "core_inv k l x \<longleftrightarrow> distinct (map enb_id (core_agents (fst x)))
     \<and> (\<forall>a \<in> set (core_agents (fst x)). agent_up a)
     \<and> (core_agents (fst x) \<noteq> [] \<longrightarrow> core_init (fst x))
     \<and> core_books k l (core_agents (fst x)) (snd x)"

lemma core_inv_put:
  assumes inv: "core_inv k l (c, w)" and f: "find_agent e (core_agents c) = Some a"
    and "same_agent a w b v" and "\<And>k l. books k l a w \<Longrightarrow> books k l b v"
  shows "core_inv k l (c\<lparr>core_agents := put_agent e b (core_agents c)\<rparr>, v)"
proof -
  obtain us vs where s: "core_agents c = us @ a # vs" "\<And>b. put_agent e b (core_agents c) = us @ b # vs"
    using f by (rule find_agent_split) blast
  have "core_books k l (put_agent e b (core_agents c)) v"
    by (rule core_books_put [OF f _ assms(3,4)]) (use inv in \<open>simp add: core_inv_def\<close>)
  then show ?thesis
    using inv assms(3)
    by (simp add: core_inv_def s(2)) (simp add: s(1) same_agent_def agent_up_def)
qed

lemma core_inv_on_agent:
  assumes inv: "core_inv k l (c, w)"
    and "\<And>a r b v. agent_up a \<Longrightarrow> f a w = (r, b, v) \<Longrightarrow> same_agent a w b v"
    and "\<And>a r b v k l. agent_up a \<Longrightarrow> f a w = (r, b, v) \<Longrightarrow> books k l a w \<Longrightarrow> books k l b v"
  shows "core_inv k l (on_agent e f (c, w))"
proof (cases "find_agent e (core_agents c)")
  case None
  then show ?thesis using inv by (simp add: on_agent_def)
next
  case (Some a)
  then have "a \<in> set (core_agents c)" unfolding find_agent_def by (blast dest: find_SomeD)
  then have up: "agent_up a" using inv by (simp add: core_inv_def)
  obtain r b v where q: "f a w = (r, b, v)" by (rule prod_cases3)
  show ?thesis
    using core_inv_put [OF inv Some assms(2) [OF up q] assms(3) [OF up q]]
    by (simp add: on_agent_def Some q)
qed

end
