(* ===== verification/CoreStart.thy ===== *)
theory CoreStart
  imports CoreFacts
begin

text \<open>
  How \<open>em_start\<close> can end.
\<close>

section \<open>Starting an agent\<close>

text \<open>What a call may change of the process besides counters of system calls, log and trace.\<close>

definition mem_same :: "env \<Rightarrow> env \<Rightarrow> bool" where
  "mem_same w v \<longleftrightarrow> task_mem v = task_mem w \<and> trig_mem v = trig_mem w
     \<and> sizeof_emtask v = sizeof_emtask w \<and> sizeof_emtri v = sizeof_emtri w"

lemma mem_same_refl [simp]: "mem_same w w"
  by (simp add: mem_same_def)

lemma mem_same_trans [trans]: "mem_same u v \<Longrightarrow> mem_same v w \<Longrightarrow> mem_same u w"
  by (simp add: mem_same_def)

lemma mem_same_emit [simp]:
  "mem_same w (emit e w)" "mem_same w (EMLOG a p x w)" "mem_same w (call enb cb w)"
  "mem_same w (log_release w)"
  by (auto simp: mem_same_def call_def log_release_def split: option.split)

lemma mem_same_initialize: "core_initialize c w = (r, c', v) \<Longrightarrow> mem_same w v
    \<and> core_agents c' = core_agents c \<and> core_init c'"
  by (auto simp: core_initialize_def log_init_def mem_same_def Let_def split: if_splits)

text \<open>Releasing an agent that never got anything to do.\<close>

lemma release_idle:
  assumes "core_release_agent a w = (r, v)"
    and "sc_jobs (sched a) = []" and "sc_todo (sched a) = []" and "tx_ts (trig a) = []"
  shows "mem_same w v" and "trace v = trace w @ joins a" and "log_fd v = log_fd w"
  using core_release_agent_effect [OF assms(1)] assms(2-4)
  by (simp_all add: mem_same_def agent_tasks_def agent_trigs_def)

text \<open>The agent \<open>em_start\<close> builds, from the memory it clears to the start of its threads.\<close>

definition base_agent :: "u64 \<Rightarrow> em_agent_ops \<Rightarrow> bytes \<Rightarrow> u16 \<Rightarrow> emage" where
  "base_agent e t addr port = \<lparr>enb_id = e, ops = Some t, trig = trig_ctx_init,
     net = (spill addr (net zero_agent))\<lparr>nt_port := port\<rparr>,
     sched = \<lparr>sc_stop = False, sc_jobs = [], sc_todo = [], sc_interval = 0, sc_thread = False\<rparr>\<rparr>"

text \<open>An address that fits leaves the other members as they were cleared.\<close>

lemma little_zeros [simp]: "little k (replicate n 0) = 0"
proof -
  have "foldr (\<lambda>b w. ucast b + 256 * w) (replicate m (0 :: u8)) (0 :: 'a :: len word) = 0" for m
    by (induction m) simp_all
  then show ?thesis by (simp add: little_def)
qed

lemma spill_other [simp]:
  "nt_thread (spill ad n) = nt_thread n" "nt_interval (spill ad n) = nt_interval n"
  by (simp_all add: spill_def Let_def)

lemma spill_fits:
  assumes "length ad \<le> 16"
  shows "\<not> nt_stop (spill ad n)" and "nt_status (spill ad n) = NET_STATUS_NOT_CONNECTED"
  using assms by (simp_all add: spill_def Let_def const_simps)

definition with_sched :: "bool \<Rightarrow> emage \<Rightarrow> emage" where
  "with_sched ok a = a\<lparr>sched := (sched a)\<lparr>sc_interval := 100, sc_jobs := [], sc_todo := [], sc_thread := ok\<rparr>\<rparr>"

definition with_net :: "bool \<Rightarrow> emage \<Rightarrow> emage" where
  "with_net ok a = a\<lparr>net := (net a)\<lparr>nt_interval := NET_WAIT_TIME, nt_sockfd := - 1, nt_thread := ok\<rparr>\<rparr>"

text \<open>A longer one sets the flag that stops the listener.\<close>

lemma little_low:
  assumes "b \<noteq> 0"
  shows "(little (Suc k) (b # bs) :: u32) \<noteq> 0"
proof
  let ?w = "foldr (\<lambda>b w. ucast b + 256 * w) (take k bs) (0 :: u32)"
  assume "(little (Suc k) (b # bs) :: u32) = 0"
  then have "uint (ucast b + 256 * ?w) = 0" by (simp add: little_def)
  then have "(uint b + 256 * uint ?w) mod 4294967296 mod 256 = 0"
    by (simp add: uint_word_ariths mod_simps unsigned_ucast_eq take_bit_eq_mod)
  then have "uint b mod 256 = 0" by (simp add: mod_mod_cancel)
  moreover have "uint b < 256" using uint_bounded [of b] by simp
  ultimately show False using assms by (simp add: uint_0_iff)
qed

lemma spill_stops:
  assumes "24 < length ad" and "ad ! 24 \<noteq> 0"
  shows "nt_stop (spill ad n)"
proof -
  have "drop 24 (ad @ zs) = ad ! 24 # drop 25 (ad @ zs)" for zs
    using Cons_nth_drop_Suc [of 24 "ad @ zs"] assms(1) by (simp add: nth_append)
  moreover have "(little 4 (ad ! 24 # bs) :: u32) \<noteq> 0" for bs
    using little_low [OF assms(2), of 3 bs] by simp
  ultimately show ?thesis by (simp add: spill_def Let_def del: drop_append)
qed

lemma net_cleared [simp]: "nt_thread (net zero_agent) = False"
  by (simp add: zero_agent_def)

lemmas start_defs = base_agent_def with_sched_def with_net_def trig_ctx_init_def joins_def

lemma new_agent_eq:
  "new_agent e t ad port w =
     (base_agent e t ad port, if length ad > 16 then emit (EvFault BufferOverflow) w else w)"
  by (simp add: new_agent_def copy_addr_def zero_agent_def base_agent_def)

lemma sched_start_after:
  assumes "sched_start e (sched a) w = (r, s, v)"
  shows "a\<lparr>sched := s\<rparr> = with_sched (thread_ok w (threads w)) a"
    and "r = (if thread_ok w (threads w) then 0 else - 1)" and "mem_same w v"
    and "log_fd v = log_fd w" and "thread_ok v = thread_ok w" and "threads v = Suc (threads w)"
    and "faults_of (trace v) = faults_of (trace w)
      @ (if thread_ok w (threads w) \<or> log_fd w \<noteq> None then [] else [NullStream])"
  using assms
  by (auto simp: sched_start_def pthread_create_def with_sched_def mem_same_def EMLOG_fault_iff Let_def
      split: if_splits)

lemma net_start_after:
  assumes "net_start e (net a) w = (r, n, v)"
  shows "a\<lparr>net := n\<rparr> = with_net (thread_ok w (threads w)) a"
    and "r = (if thread_ok w (threads w) then 0 else - 1)" and "mem_same w v"
    and "log_fd v = log_fd w"
    and "faults_of (trace v) = faults_of (trace w)
      @ (if thread_ok w (threads w) \<or> log_fd w \<noteq> None then [] else [NullStream])"
  using assms
  by (auto simp: net_start_def pthread_create_def with_net_def mem_same_def EMLOG_fault_iff Let_def
      split: if_splits)

definition fresh_agent :: "u64 \<Rightarrow> em_agent_ops \<Rightarrow> bytes \<Rightarrow> u16 \<Rightarrow> emage" where
  "fresh_agent e t addr port = with_net True (with_sched True (base_agent e t addr port))"

lemma fresh_agent_simps [simp]:
  "enb_id (fresh_agent e t ad p) = e" "ops (fresh_agent e t ad p) = Some t"
  "trig (fresh_agent e t ad p) = trig_ctx_init"
  "sc_jobs (sched (fresh_agent e t ad p)) = []" "sc_todo (sched (fresh_agent e t ad p)) = []"
  "joins (fresh_agent e t ad p) = []"
  by (simp_all add: fresh_agent_def start_defs)

lemma fresh_agent_fits:
  assumes "length ad \<le> 16"
  shows "nt_status (net (fresh_agent e t ad p)) = NET_STATUS_NOT_CONNECTED" and "agent_up (fresh_agent e t ad p)"
  using spill_fits [OF assms] by (simp_all add: fresh_agent_def start_defs agent_up_def)

text \<open>The part of \<open>em_start\<close> after the agent was not found.\<close>

definition start_new ::
    "u64 \<Rightarrow> em_agent_ops \<Rightarrow> bytes \<Rightarrow> u16 \<Rightarrow> core \<Rightarrow> env \<Rightarrow> int \<times> core \<times> env" where
  "start_new e t addr port c w =
     (let (ok, w) = malloc w in
      if \<not> ok then (- 1, c, w)
      else
        let (a, w) = new_agent e t addr port w;
            (r, s, w) = sched_start e (sched a) w;
            a = a\<lparr>sched := s\<rparr>
        in if r \<noteq> 0
           then let w = EMLOG (Some e) ''em_start'' ''Failed to start the scheduler context'' w;
                    (q, w) = core_release_agent a w
                in (- 1, c, w)
           else
             let (r, n, w) = net_start e (net a) w;
                 a = a\<lparr>net := n\<rparr>
             in if r \<noteq> 0
                then let w = EMLOG (Some e) ''em_start'' ''Failed to start the network context'' w;
                         (q, w) = core_release_agent a w
                     in (- 1, c, w)
                else
                  case op_init t of
                    None \<Rightarrow> (0, c\<lparr>core_agents := a # core_agents c\<rparr>, w)
                  | Some s \<Rightarrow>
                      let w = call e CbInit w
                      in if s < 0
                         then let (q, w) = core_release_agent a w in (s, c, w)
                         else (0, c\<lparr>core_agents := a # core_agents c\<rparr>, w))"

lemma em_start_eq:
  "em_start e (Some t) ad port c w =
     (let (q, d, w) = core_initialize c w in
      if find_agent e (core_agents d) \<noteq> None
      then (- 1, d, EMLOG None ''em_start'' ''Agent eNB %d is already running...'' w)
      else start_new e t ad port d w)"
  by (simp only: em_start_def start_new_def option.case)

lemma start_new_started:
  assumes "start_new e t ad port c w = (0, c', v)"
  shows "c' = c\<lparr>core_agents := fresh_agent e t ad port # core_agents c\<rparr>"
proof -
  obtain ok w2 where m: "malloc w = (ok, w2)" by fastforce
  obtain w3 where a: "new_agent e t ad port w2 = (base_agent e t ad port, w3)" by (simp add: new_agent_eq)
  let ?a = "base_agent e t ad port"
  obtain r4 s w4 where s: "sched_start e (sched ?a) w3 = (r4, s, w4)" by (rule prod_cases3)
  obtain r5 n w5 where n: "net_start e (net (?a\<lparr>sched := s\<rparr>)) w4 = (r5, n, w5)" by (rule prod_cases3)
  have z: "r4 = 0" "r5 = 0" and
    c: "c' = c\<lparr>core_agents := ?a\<lparr>sched := s, net := n\<rparr> # core_agents c\<rparr>"
    using assms by (auto simp: start_new_def m a s n [simplified] Let_def split: if_splits option.splits prod.splits)
  have "thread_ok w3 (threads w3)" "thread_ok w4 (threads w4)"
    using z sched_start_after(2) [OF s] net_start_after(2) [OF n] by (auto split: if_splits)
  then show ?thesis
    using c sched_start_after(1) [OF s] net_start_after(1) [OF n] by (simp add: fresh_agent_def)
qed

text \<open>Where \<open>start_new\<close> can end; the faults are those of joining threads that do not exist.\<close>

lemma start_new_cases:
  assumes "start_new e t ad port c w = (r, c', v)" and "length ad \<le> 16"
  obtains (no_memory) "\<not> malloc_ok w (mallocs w)" "r = - 1" "c' = c" "mem_same w v"
    | (no_sched) "\<not> thread_ok w (threads w)" "r = - 1" "c' = c" "mem_same w v" "malloc_ok w (mallocs w)"
        "log_fd w \<noteq> None \<Longrightarrow> faults_of (trace v) = faults_of (trace w) @ [BadJoin, BadJoin]"
    | (no_net) "\<not> thread_ok w (Suc (threads w))" "r = - 1" "c' = c" "mem_same w v"
        "malloc_ok w (mallocs w)" "thread_ok w (threads w)"
        "log_fd w \<noteq> None \<Longrightarrow> faults_of (trace v) = faults_of (trace w) @ [BadJoin]"
    | (no_init) s where "op_init t = Some s" "s < 0" "r = s" "c' = c" "mem_same w v"
        "thread_ok w (threads w)" "thread_ok w (Suc (threads w))"
    | (started) "r = 0" "c' = c\<lparr>core_agents := fresh_agent e t ad port # core_agents c\<rparr>"
        "mem_same w v" "\<And>s. op_init t = Some s \<Longrightarrow> 0 \<le> s"
        "thread_ok w (threads w)" "thread_ok w (Suc (threads w))"
proof -
  obtain ok w2 where m: "malloc w = (ok, w2)" by fastforce
  have w2: "mem_same w w2" "thread_ok w2 = thread_ok w" "threads w2 = threads w" "log_fd w2 = log_fd w"
    "trace w2 = trace w" "ok = malloc_ok w (mallocs w)"
    using m by (auto simp: malloc_def mem_same_def)
  let ?a0 = "base_agent e t ad port"
  have a: "new_agent e t ad port w2 = (?a0, w2)" using assms(2) by (simp add: new_agent_eq)
  obtain r4 s w4 where s: "sched_start e (sched ?a0) w2 = (r4, s, w4)" by (rule prod_cases3)
  note sa = sched_start_after [OF s, unfolded w2]
  let ?a = "?a0\<lparr>sched := s\<rparr>"
  obtain r5 n w5 where n: "net_start e (net ?a) w4 = (r5, n, w5)" by (rule prod_cases3)
  note na = net_start_after [OF n, unfolded sa(5,6)]
  let ?b = "?a\<lparr>net := n\<rparr>"
  note defs = start_new_def m a s n [simplified] Let_def
  consider (1) "\<not> ok" | (2) "ok" "\<not> thread_ok w (threads w)"
    | (3) "ok" "thread_ok w (threads w)" "\<not> thread_ok w (Suc (threads w))"
    | (4) "ok" "thread_ok w (threads w)" "thread_ok w (Suc (threads w))" by blast
  then show thesis
  proof cases
    case 1
    then show thesis using assms(1) w2 by (intro no_memory) (simp_all add: defs)
  next
    case 2
    let ?y = "EMLOG (Some e) ''em_start'' ''Failed to start the scheduler context'' w4"
    obtain q x where x: "core_release_agent ?a ?y = (q, x)" by fastforce
    have i: "sc_jobs (sched ?a) = []" "sc_todo (sched ?a) = []" "tx_ts (trig ?a) = []"
      "joins ?a = [EvFault BadJoin, EvFault BadJoin]"
      using 2 unfolding sa(1) by (simp_all add: start_defs)
    have "mem_same w x"
      using w2(1) sa(3) mem_same_emit(2) release_idle(1) [OF x i(1-3)]
      by (meson mem_same_trans)
    then show thesis
      using assms(1) 2 w2 sa(2,4,7) x release_idle(2) [OF x i(1-3)] i(4)
      by (intro no_sched) (simp_all add: defs EMLOG_fault_iff)
  next
    case 3
    let ?y = "EMLOG (Some e) ''em_start'' ''Failed to start the network context'' w5"
    obtain q x where x: "core_release_agent ?b ?y = (q, x)" by fastforce
    have i: "sc_jobs (sched ?b) = []" "sc_todo (sched ?b) = []" "tx_ts (trig ?b) = []"
      "joins ?b = [EvFault BadJoin]"
      using 3 unfolding na(1) unfolding sa(1) by (simp_all add: start_defs)
    have "mem_same w x"
      using w2(1) sa(3) na(3) mem_same_emit(2) release_idle(1) [OF x i(1-3)]
      by (meson mem_same_trans)
    then show thesis
      using assms(1) 3 w2 sa(2,4,7) na(2,4,5) x release_idle(2) [OF x i(1-3)] i(4)
      by (intro no_net) (simp_all add: defs EMLOG_fault_iff)
  next
    case 4
    have b: "?b = fresh_agent e t ad port" using 4 unfolding na(1) unfolding sa(1) by (simp add: fresh_agent_def)
    have w5: "mem_same w w5" using w2(1) sa(3) na(3) by (meson mem_same_trans)
    show thesis
    proof (cases "\<exists>s. op_init t = Some s \<and> s < 0")
      case True
      then obtain k where k: "op_init t = Some k" "k < 0" by blast
      obtain q x where x: "core_release_agent ?b (call e CbInit w5) = (q, x)" by fastforce
      have i: "sc_jobs (sched ?b) = []" "sc_todo (sched ?b) = []" "tx_ts (trig ?b) = []"
        unfolding b by (simp_all add: trig_ctx_init_def)
      have "mem_same w x"
        using w5 mem_same_emit(3) release_idle(1) [OF x i] by (meson mem_same_trans)
      then show thesis
        using assms(1) 4 k sa(2) na(2) x by (intro no_init [of k]) (simp_all add: defs)
    next
      case False
      have "mem_same w (call e CbInit w5)" using w5 mem_same_emit(3) by (meson mem_same_trans)
      then show thesis
        using assms(1) 4 False sa(2) na(2) b w5
        by (intro started) (auto simp: defs split: option.splits)
    qed
  qed
qed

text \<open>All of \<open>em_start\<close>.\<close>

lemma em_start_cases:
  assumes "em_start e ops' ad port c w = (r, c', v)" and "length ad \<le> 16"
  obtains (no_ops) "ops' = None" "r = - 1" "c' = c" "v = w"
    | (exists) t where "ops' = Some t" "find_agent e (core_agents c) \<noteq> None" "r = - 1"
        "core_agents c' = core_agents c" "core_init c'" "mem_same w v"
    | (failed) t where "ops' = Some t" "find_agent e (core_agents c) = None" "r < 0"
        "core_agents c' = core_agents c" "core_init c'" "mem_same w v"
    | (started) t where "ops' = Some t" "find_agent e (core_agents c) = None" "r = 0"
        "core_agents c' = fresh_agent e t ad port # core_agents c" "core_init c'" "mem_same w v"
proof (cases ops')
  case None
  then show thesis using assms no_ops by (simp add: em_start_def)
next
  case (Some t)
  obtain q d u where i: "core_initialize c w = (q, d, u)" by (rule prod_cases3)
  note d = mem_same_initialize [OF i]
  show thesis
  proof (cases "find_agent e (core_agents c)")
    case (Some a)
    then have "r = - 1 \<and> c' = d \<and> v = EMLOG None ''em_start'' ''Agent eNB %d is already running...'' u"
      using assms \<open>ops' = Some t\<close> i d by (auto simp: em_start_eq)
    then show thesis
      using Some \<open>ops' = Some t\<close> d mem_same_trans [OF _ mem_same_emit(2), of w u] by (intro exists) auto
  next
    case None
    then have s: "start_new e t ad port d u = (r, c', v)"
      using assms \<open>ops' = Some t\<close> i d by (simp add: em_start_eq)
    from d have w: "mem_same u v \<Longrightarrow> mem_same w v" by (meson mem_same_trans)
    from s assms(2) show thesis
      by (cases rule: start_new_cases)
        (use None \<open>ops' = Some t\<close> d w failed started in auto)
  qed
qed

end
