(* ===== verification/CoreProps.thy ===== *)
theory CoreProps
  imports CoreStart
begin

text \<open>
  The properties of the public calls, and the invariant of the whole system.
\<close>

section \<open>Every step keeps the invariant\<close>

lemma core_inv_quiet:
  assumes "core_inv k l (c, w)" and "mem_same w v" and "core_agents c' = core_agents c"
    and "core_init c \<longrightarrow> core_init c'"
  shows "core_inv k l (c', v)"
  using assms core_books_cong [of v w k l "core_agents c"] by (auto simp: core_inv_def mem_same_def)

lemma core_inv_start:
  assumes "core_inv k l (c, w)" and "em_start e ops' ad port c w = (r, c', v)" and "length ad \<le> 16"
  shows "core_inv k l (c', v)"
  using assms(2,3)
proof (cases rule: em_start_cases)
  case (started t)
  let ?a = "fresh_agent e t ad port"
  have z: "agent_tasks v ?a = 0" "agent_trigs v ?a = 0"
    by (simp_all add: agent_tasks_def agent_trigs_def trig_ctx_init_def)
  have n: "e \<notin> enb_id ` set (core_agents c)"
    using started(2) by (auto simp: find_agent_def find_None_iff_ball)
  have b: "core_books k l (core_agents c) v"
    using assms(1) started(6) core_books_cong [of v w k l "core_agents c"]
    by (simp add: core_inv_def mem_same_def)
  show ?thesis
    using assms(1) n z b started(4,5) fresh_agent_fits(2) [OF assms(3)] by (simp add: core_inv_def core_books_def)
qed (use core_inv_quiet [OF assms(1)] assms(1) in auto)

lemma core_inv_release:
  assumes "find_agent e (core_agents c) = Some a" and inv: "core_inv k l (c, w)"
    and rel: "core_release_agent a (tell_release a w) = (r, v)"
  shows "core_inv k l (c\<lparr>core_agents := delete_first (\<lambda>a. enb_id a = e) (core_agents c)\<rparr>, v)"
proof -
  obtain us vs where s: "core_agents c = us @ a # vs"
    "delete_first (\<lambda>a. enb_id a = e) (core_agents c) = us @ vs"
    using assms(1) by (rule find_agent_split) blast
  have "mem_same w (tell_release a w)" by (simp add: tell_release_def)
  then have m: "task_mem (tell_release a w) = task_mem w" "trig_mem (tell_release a w) = trig_mem w"
    "sizeof_emtask (tell_release a w) = sizeof_emtask w" "sizeof_emtri (tell_release a w) = sizeof_emtri w"
    by (simp_all add: mem_same_def)
  note r = core_release_agent_effect [OF rel, unfolded m agent_bytes_cong [OF m(3,4)]]
  have up: "sc_thread (sched a)" using inv by (simp add: core_inv_def s(1) agent_up_def)
  have "core_books k l (us @ vs) v"
    using inv r up agent_bytes_cong [OF r(5,6)]
    by (simp add: core_inv_def core_books_def s(1) algebra_simps)
  then show ?thesis
    using inv by (simp add: core_inv_def s(2)) (simp add: s(1))
qed

lemma core_inv_terminate:
  assumes "core_inv k l (c, w)"
  shows "core_inv k l (snd (em_terminate_agent e c w))"
proof (cases "find_agent e (core_agents c)")
  case None
  then show ?thesis using assms by (simp add: em_terminate_agent_def)
next
  case (Some a)
  obtain r v where rel: "core_release_agent a (tell_release a w) = (r, v)" by fastforce
  from core_inv_release [OF Some assms rel] show ?thesis
    by (simp add: em_terminate_agent_def Some rel)
qed

lemma core_send_books:
  assumes "core_send a msg sz w = (r, b, v)" and "\<not> sc_stop (sched a)"
  shows "same_agent a w b v" and "books k l a w \<Longrightarrow> books k l b v"
proof -
  have post: "post_task TASK_TYPE_SEND 1 0 0 (Some msg) sz a w = (r, b, u)
      \<and> (v = u \<or> b = a \<and> v = EMLOG (Some (enb_id a)) ''core_send'' ''Cannot create new SEND task'' u)"
    if "post_task TASK_TYPE_SEND 1 0 0 (Some msg) sz a w = (r', b', u)" for r' b' u
    using assms(1) that
    by (auto simp: core_send_def post_task_def net_sched_task_def split: option.splits prod.splits)
  obtain r' b' u where p: "post_task TASK_TYPE_SEND 1 0 0 (Some msg) sz a w = (r', b', u)"
    by (rule prod_cases3)
  note q = post [OF p]
  then have p': "post_task TASK_TYPE_SEND 1 0 0 (Some msg) sz a w = (r, b, u)" by blast
  show "same_agent a w b v"
    using calm_post [OF p'] q by (auto simp: calm_def same_agent_def)
  have "books k l b u \<Longrightarrow> books k l b (EMLOG g h f u)" for g h f
    by (simp add: books_def tasks_bytes_cong [of "EMLOG g h f u" u] trigs_bytes_cong [of "EMLOG g h f u" u])
  then show "books k l a w \<Longrightarrow> books k l b v"
    using books_post [OF _ p', of k l] q assms(2) by (auto simp: lost_def split: if_splits)
qed

lemma core_inv_send:
  assumes "core_inv k l (c, w)"
  shows "core_inv k l (snd (em_send e msg sz c w))"
proof (cases "msg = None \<or> sz = 0 \<or> find_agent e (core_agents c) = None")
  case True
  then show ?thesis using assms by (auto simp: em_send_def split: option.split)
next
  case False
  then obtain m a where m: "msg = Some m" "sz \<noteq> 0" "find_agent e (core_agents c) = Some a" by auto
  then have "a \<in> set (core_agents c)" unfolding find_agent_def by (blast dest: find_SomeD)
  then have "\<not> sc_stop (sched a)" using assms by (simp add: core_inv_def agent_up_def)
  moreover obtain r b v where s: "core_send a m sz w = (r, b, v)" by (rule prod_cases3)
  ultimately have "core_inv k l (c\<lparr>core_agents := put_agent e b (core_agents c)\<rparr>, v)"
    using core_inv_put [OF assms m(3)] core_send_books [OF s] by blast
  then show ?thesis using m s by (simp add: em_send_def)
qed

lemma core_inv_del_trigger:
  assumes "core_inv k l (c, w)"
  shows "core_inv k l (snd (em_del_trigger e tid c w))"
proof (cases "find_agent e (core_agents c)")
  case None
  then show ?thesis using assms by (simp add: em_del_trigger_def)
next
  case (Some a)
  obtain r ctx v where d: "trig_del_by_id (trig a) tid w = (r, ctx, v)" by (rule prod_cases3)
  have "same_agent a w (a\<lparr>trig := ctx\<rparr>) v"
    using same_but_mem_del(1) [OF d] by (simp add: same_agent_def same_but_mem_def)
  moreover have "books k l a w \<Longrightarrow> books k l (a\<lparr>trig := ctx\<rparr>) v" for k l
  proof -
    assume "books k l a w"
    moreover have "sizeof_emtask v = sizeof_emtask w" "sizeof_emtri v = sizeof_emtri w"
      using same_but_memD [OF same_but_mem_del(1) [OF d]] by simp_all
    ultimately show "books k l (a\<lparr>trig := ctx\<rparr>) v"
      using trig_del_by_id_mem [OF d]
      by (simp add: books_def tasks_bytes_cong [of v w] trigs_bytes_cong [of v w] diff_eq_eq)
  qed
  ultimately show ?thesis
    using core_inv_put [OF assms Some] by (simp add: em_del_trigger_def Some d)
qed

lemma release_all_effect:
  assumes "\<forall>a \<in> set as. agent_up a" and "core_books k l as w"
  shows "core_books k l [] (release_all as w)"
    and "trace (release_all as w) = trace w
      @ concat (map (\<lambda>a. if has_op a op_release then [EvCall (enb_id a) CbRelease] else []) as)"
    and "log_fd (release_all as w) = log_fd w"
proof -
  have "core_books k l [] (release_all as w) \<and> trace (release_all as w) = trace w
      @ concat (map (\<lambda>a. if has_op a op_release then [EvCall (enb_id a) CbRelease] else []) as)
    \<and> log_fd (release_all as w) = log_fd w"
    using assms
  proof (induction as arbitrary: w)
    case (Cons a as)
    obtain r v where rel: "core_release_agent a (tell_release a w) = (r, v)" by fastforce
    have "mem_same w (tell_release a w)" by (simp add: tell_release_def)
    then have m: "task_mem (tell_release a w) = task_mem w" "trig_mem (tell_release a w) = trig_mem w"
      "sizeof_emtask (tell_release a w) = sizeof_emtask w" "sizeof_emtri (tell_release a w) = sizeof_emtri w"
      by (simp_all add: mem_same_def)
    note e = core_release_agent_effect [OF rel, unfolded m agent_bytes_cong [OF m(3,4)]]
    have up: "agent_up a" using Cons.prems(1) by simp
    then have j: "joins a = []" by (simp add: joins_def agent_up_def)
    have "core_books k l as v"
      using Cons.prems(2) e(3-6) up agent_bytes_cong [OF e(5,6)]
      by (simp add: core_books_def agent_up_def algebra_simps)
    from Cons.IH [OF _ this] show ?case
      using Cons.prems(1) e(2,7) rel j by (simp add: tell_release_def call_def)
  qed simp
  then show "core_books k l [] (release_all as w)"
    and "trace (release_all as w) = trace w
      @ concat (map (\<lambda>a. if has_op a op_release then [EvCall (enb_id a) CbRelease] else []) as)"
    and "log_fd (release_all as w) = log_fd w" by simp_all
qed

lemma core_inv_stop:
  assumes "core_inv k l (c, w)"
  shows "core_inv k l (snd (em_stop c w))"
proof -
  let ?v = "release_all (core_agents c) w"
  let ?u = "log_release (EMLOG None ''em_stop'' ''Core shut down'' ?v)"
  have "core_books k l [] ?v" using assms by (intro release_all_effect) (simp_all add: core_inv_def)
  moreover have "mem_same ?v ?u" by (rule mem_same_trans [OF mem_same_emit(2,4)])
  ultimately have "core_books k l [] ?u" using core_books_cong [of ?u ?v] by (simp add: mem_same_def)
  then show ?thesis by (simp add: em_stop_def core_inv_def)
qed

definition op_fits :: "core_op \<Rightarrow> bool" where
  "op_fits op = (case op of Start _ _ ad _ \<Rightarrow> length ad \<le> 16 | _ \<Rightarrow> True)"

lemma core_inv_step:
  assumes "core_inv k l x" and "op_fits op"
  shows "core_inv k l (core_step P g op x)"
proof (cases x)
  case (Pair c w)
  with assms have inv: "core_inv k l (c, w)" by simp
  have "core_inv k l (core_step P g op (c, w))"
  proof (cases op)
    case (Start e t ad port)
    then show ?thesis
      using core_inv_start [OF inv, of e t ad port] assms(2)
      by (cases "em_start e t ad port c w") (simp add: op_fits_def)
  next
    case (Pass e)
    show ?thesis unfolding Pass core_step.simps
      by (rule core_inv_on_agent [OF inv]) (auto intro: same_agent_consume books_consume)
  next
    case (Handle e msg)
    show ?thesis unfolding Handle core_step.simps
      by (rule core_inv_on_agent [OF inv])
        (auto simp: agent_up_def intro: same_agent_message books_process_message)
  qed (simp_all add: core_inv_terminate core_inv_send core_inv_del_trigger core_inv_stop inv)
  with Pair show ?thesis by simp
qed

end
