(* ===== verification/CoreApi.thy ===== *)
theory CoreApi
  imports CoreProps
begin

section \<open>The list of agents as a directory\<close>

text \<open>
  What the calls rely on: an agent is found under its id, replacing it changes that entry only, and
  removing it leaves the others.
\<close>

locale directory =
  fixes inv :: "'d \<Rightarrow> bool"
    and look :: "'d \<Rightarrow> 'k \<Rightarrow> 'v option"
    and put :: "'k \<Rightarrow> 'v \<Rightarrow> 'd \<Rightarrow> 'd"
    and drop :: "'k \<Rightarrow> 'd \<Rightarrow> 'd"
    and key :: "'v \<Rightarrow> 'k"
  assumes look_key: "look d k = Some v \<Longrightarrow> key v = k"
    and look_put: "look d k = Some v \<Longrightarrow> key u = k \<Longrightarrow> look (put k u d) = (look d)(k \<mapsto> u)"
    and look_drop: "inv d \<Longrightarrow> look (drop k d) = (look d)(k := None)"
    and inv_put: "inv d \<Longrightarrow> look d k = Some v \<Longrightarrow> key u = k \<Longrightarrow> inv (put k u d)"
    and inv_drop: "inv d \<Longrightarrow> inv (drop k d)"
begin

lemma put_same: "look d k = Some v \<Longrightarrow> key u = k \<Longrightarrow> look (put k u d) k = Some u"
  by (simp add: look_put)

lemma put_other: "look d k = Some v \<Longrightarrow> key u = k \<Longrightarrow> j \<noteq> k \<Longrightarrow> look (put k u d) j = look d j"
  by (simp add: look_put)

lemma drop_same: "inv d \<Longrightarrow> look (drop k d) k = None"
  by (simp add: look_drop)

lemma drop_other: "inv d \<Longrightarrow> j \<noteq> k \<Longrightarrow> look (drop k d) j = look d j"
  by (simp add: look_drop)

text \<open>Changing an entry does not change what is left when it is removed.\<close>

lemma put_drop:
  assumes "inv d" and "look d k = Some v" and "key u = k"
  shows "look (drop k (put k u d)) = look (drop k d)"
  using assms by (simp add: look_drop inv_put look_put)

end

definition drop_agent :: "u64 \<Rightarrow> emage list \<Rightarrow> emage list" where
  "drop_agent e as = delete_first (\<lambda>a. enb_id a = e) as"

lemma find_agent_append:
  "find_agent e (us @ vs) = (case find_agent e us of None \<Rightarrow> find_agent e vs | Some a \<Rightarrow> Some a)"
  by (induction us) (simp_all add: find_agent_def)

lemma find_agent_Cons: "find_agent e (a # as) = (if enb_id a = e then Some a else find_agent e as)"
  by (simp add: find_agent_def)

lemma find_agent_none: "find_agent e as = None \<longleftrightarrow> e \<notin> enb_id ` set as"
  by (auto simp: find_agent_def find_None_iff_ball)

interpretation ag: directory "\<lambda>as. distinct (map enb_id as)" "\<lambda>as e. find_agent e as" put_agent
  drop_agent enb_id
proof unfold_locales
  show "enb_id v = k" if "find_agent k d = Some v" for d k v
    using that unfolding find_agent_def by (blast dest: find_SomeD)
  show "(\<lambda>e. find_agent e (put_agent k u d)) = (\<lambda>e. find_agent e d)(k \<mapsto> u)"
    if f: "find_agent k d = Some v" "enb_id u = k" for d k v u
  proof -
    obtain us vs where s: "d = us @ v # vs" "enb_id v = k" "\<forall>x \<in> set us. enb_id x \<noteq> k"
      "\<And>b. put_agent k b d = us @ b # vs" using f(1) by (rule find_agent_split) blast
    have "find_agent k us = None" using s(3) by (auto simp: find_agent_none)
    then show ?thesis unfolding s(4) unfolding s(1)
      using s(2) f(2) by (auto simp: fun_eq_iff find_agent_append find_agent_Cons split: option.split)
  qed
  show "(\<lambda>e. find_agent e (drop_agent k d)) = (\<lambda>e. find_agent e d)(k := None)"
    if "distinct (map enb_id d)" for d k
    using that find_delete_first_same [OF that, of k] find_delete_first_other [of _ k enb_id d]
    by (auto simp: fun_eq_iff find_agent_def drop_agent_def)
  show "distinct (map enb_id (put_agent k u d))"
    if f: "distinct (map enb_id d)" "find_agent k d = Some v" "enb_id u = k" for d k v u
  proof -
    obtain us vs where s: "d = us @ v # vs" "enb_id v = k" "\<And>b. put_agent k b d = us @ b # vs"
      using f(2) by (rule find_agent_split) blast
    show ?thesis using f(1,3) unfolding s(3) unfolding s(1) by (simp add: s(2))
  qed
  show "distinct (map enb_id (drop_agent k d))" if "distinct (map enb_id d)" for d k
    using that by (simp add: drop_agent_def distinct_map_delete_first)
qed

section \<open>Properties\<close>

text \<open>
  (C1) The invariant of the library.  After any sequence of public calls, scheduler passes and
  received messages, for any agents, in which every \<open>em_start\<close> is given an address of at most 16
  characters, no two agents in the list have the same id, each of them has both its threads and was
  not told to stop, the core is initialised if there is one, and the two memory counters of the
  process are exactly what the queues and registries of the listed agents hold on top of what they
  showed at the start.  A longer address is copied over the end of \<open>addr\<close> and can itself tell the
  listener to stop (\<open>long_address_stops_listener\<close>).
\<close>

theorem core_invariant:
  assumes "\<forall>op \<in> set os. op_fits op"
  shows "core_inv (task_mem w) (trig_mem w) (fold (core_step P g) os (core_empty, w))"
proof -
  have "core_inv k l (fold (core_step P g) os x)" if "core_inv k l x" for k l x
    using assms that by (induction os arbitrary: x) (simp_all add: core_inv_step)
  moreover have "core_inv (task_mem w) (trig_mem w) (core_empty, w)"
    by (simp add: core_inv_def core_empty_def core_books_def)
  ultimately show ?thesis by blast
qed

definition demo_start :: core_op where
  "demo_start = Start 5 (Some all_ops) [49, 46, 49] 2210"

definition demo_core :: core where
  "demo_core = \<lparr>core_init = True, core_agents = [demo_agent []]\<rparr>"

lemma demo_core_up [simp]:
  "\<forall>a \<in> set (core_agents demo_core). agent_up a" "find_agent 5 (core_agents demo_core) = Some (demo_agent [])"
  "log_fd demo_env \<noteq> None"
  by (simp_all add: demo_core_def agent_up_def demo_agent_def find_agent_def)

theorem core_invariant_witness:
  "distinct (map enb_id (core_agents (fst (fold (core_step demo_proto demo_garbage)
     [demo_start, demo_start, Send 5 (Some [1]) 1, Pass 5, Handle 5 [3, 5, 6, 1], Terminate 5]
     (core_empty, demo_env)))))"
  using core_invariant [of "[demo_start, demo_start, Send 5 (Some [1]) 1, Pass 5, Handle 5 [3, 5, 6, 1],
      Terminate 5]" demo_env demo_proto demo_garbage]
  by (simp add: core_inv_def op_fits_def demo_start_def del: fold.simps)

text \<open>
  (C33) Shutting down releases everything.  Whatever was done before, \<open>em_stop\<close> returns 0 and leaves no
  agent, the two counters are back at what they were before the first call, the wrapper of each
  agent is told once, in the order of the list, and the log is closed.
\<close>

theorem em_stop_releases_all:
  assumes "core_inv k l (c, w)" and "em_stop c w = (r, c', v)"
  shows "r = 0 \<and> core_agents c' = [] \<and> task_mem v = k \<and> trig_mem v = l \<and> log_fd v = None
    \<and> calls_of (trace v) = calls_of (trace w)
        @ concat (map (\<lambda>a. if has_op a op_release then [CbRelease] else []) (core_agents c))"
proof -
  let ?u = "release_all (core_agents c) w"
  have v: "r = 0" "c' = c\<lparr>core_agents := []\<rparr>"
    "v = log_release (EMLOG None ''em_stop'' ''Core shut down'' ?u)"
    using assms(2) by (simp_all add: em_stop_def)
  note a = release_all_effect [of "core_agents c" k l w]
  have inv: "\<forall>a \<in> set (core_agents c). agent_up a" "core_books k l (core_agents c) w"
    using assms(1) by (simp_all add: core_inv_def)
  have cs: "calls_of (concat (map (\<lambda>a. if has_op a op_release then [EvCall (enb_id a) CbRelease] else []) as))
      = concat (map (\<lambda>a. if has_op a op_release then [CbRelease] else []) as)" for as
    by (induction as) simp_all
  have "mem_same ?u v" unfolding v(3) by (rule mem_same_trans [OF mem_same_emit(2,4)])
  moreover have "calls_of (trace v) = calls_of (trace ?u)" "log_fd v = None"
    by (auto simp: v(3) log_release_def split: option.split)
  ultimately show ?thesis
    using v(1,2) a(1,2) [OF inv] by (simp add: core_books_def mem_same_def cs)
qed

theorem em_stop_releases_all_witness:
  "core_agents (fst (snd (em_stop demo_core demo_env))) = []
    \<and> calls_of (trace (snd (snd (em_stop demo_core demo_env)))) = [CbRelease]"
proof -
  obtain r c v where s: "em_stop demo_core demo_env = (r, c, v)" by (rule prod_cases3)
  have "core_inv 0 0 (demo_core, demo_env)"
    by (simp add: core_inv_def core_books_def agent_tasks_def agent_trigs_def demo_core_def
        agent_up_def trig_ctx_init_def) (simp add: demo_agent_def)
  moreover have "calls_of (trace demo_env) = []" "core_agents demo_core = [demo_agent []]"
    by (simp_all add: demo_env_def demo_core_def)
  ultimately show ?thesis
    using em_stop_releases_all [OF _ s] by (simp add: s has_op_def all_ops_def demo_agent_def)
qed

text \<open>
  (C32) Starting an agent is all or nothing, for the list of agents and for the memory counters.  With
  an address of at most 16 characters: on success the list has one more agent, at its front, under an
  id that was free, with nothing queued, no triggers, not connected; on any failure (no callbacks, the
  id taken, no memory, no thread, an initialisation the wrapper refuses) the list is as before.  In no
  case is task or trigger memory left charged.  A failed call can leave other traces: once the
  callbacks are given the core stays initialised, with its log open, and the log, the calls of the
  wrapper and the joins of the error path are what they are.
\<close>

theorem em_start_all_or_nothing:
  assumes "em_start e ops' ad port c w = (r, c', v)" and "length ad \<le> 16"
  shows "task_mem v = task_mem w \<and> trig_mem v = trig_mem w
    \<and> core_init c' = (core_init c \<or> ops' \<noteq> None)
    \<and> (if r = 0 then find_agent e (core_agents c) = None
         \<and> (\<exists>a. core_agents c' = a # core_agents c \<and> enb_id a = e \<and> ops a = ops' \<and> ops' \<noteq> None
              \<and> trig a = trig_ctx_init \<and> sc_jobs (sched a) = [] \<and> sc_todo (sched a) = []
              \<and> em_is_connected e c' = 0 \<and> agent_up a)
       else r < 0 \<and> core_agents c' = core_agents c)"
  using assms
proof (cases rule: em_start_cases)
  case (started t)
  then show ?thesis
    using fresh_agent_fits [OF assms(2)] by (simp add: mem_same_def em_is_connected_def find_agent_Cons const_simps)
qed (simp_all add: mem_same_def)

text \<open>The id is taken, and then it is free.\<close>

theorem em_start_all_or_nothing_witness:
  "core_agents (fst (snd (em_start 5 (Some all_ops) [49, 46, 49] 2210 demo_core demo_env))) = core_agents demo_core
    \<and> task_mem (snd (snd (em_start 6 (Some all_ops) [49, 46, 49] 2210 demo_core demo_env))) = 0"
proof -
  obtain r c v where s: "em_start 5 (Some all_ops) [49, 46, 49] 2210 demo_core demo_env = (r, c, v)"
    by (rule prod_cases3)
  obtain q d u where t: "em_start 6 (Some all_ops) [49, 46, 49] 2210 demo_core demo_env = (q, d, u)"
    by (rule prod_cases3)
  have "find_agent 5 (core_agents demo_core) \<noteq> None" by (simp add: demo_core_def demo_agent_def find_agent_def)
  then show ?thesis
    using em_start_all_or_nothing [OF s] em_start_all_or_nothing [OF t] by (simp add: s t split: if_splits)
qed

text \<open>
  A long name stops its own listener.  When the address has a character other than zero at place 24, which
  any name of 25 characters has, \<open>em_start\<close> overwrites \<open>stop\<close>, and the agent is started, and listed, with a
  listener that is told to stop before its first look.
\<close>

theorem long_address_stops_listener:
  assumes "em_start e ops' ad port c w = (0, c', v)" and "24 < length ad" and "ad ! 24 \<noteq> 0"
  shows "\<exists>a. core_agents c' = a # core_agents c \<and> nt_stop (net a)"
proof -
  obtain t q d u where t: "ops' = Some t" and i: "core_initialize c w = (q, d, u)"
    and s: "start_new e t ad port d u = (0, c', v)"
    using assms(1) by (cases ops'; cases "core_initialize c w")
      (auto simp: em_start_def [of _ None] em_start_eq split: if_splits)
  have "core_agents c' = fresh_agent e t ad port # core_agents c"
    using start_new_started [OF s] mem_same_initialize [OF i] by simp
  moreover have "nt_stop (net (fresh_agent e t ad port))"
    using spill_stops [OF assms(2,3)] by (simp add: fresh_agent_def start_defs)
  ultimately show ?thesis by blast
qed

theorem long_address_stops_listener_witness:
  "nt_stop (net (hd (core_agents (fst (snd (em_start 6 (Some quiet_ops) (replicate 25 97) 2210 demo_core demo_env))))))"
proof -
  obtain r c v where s: "em_start 6 (Some quiet_ops) (replicate 25 97) 2210 demo_core demo_env = (r, c, v)"
    by (rule prod_cases3)
  have "r = 0"
    using s by (auto simp: em_start_def core_initialize_def demo_core_def find_agent_def malloc_def new_agent_def
        copy_addr_def sched_start_def net_start_def pthread_create_def quiet_ops_def demo_env_def demo_agent_def Let_def
        split: if_splits)
  with long_address_stops_listener [of 6 "Some quiet_ops" "replicate 25 97" 2210 demo_core demo_env c v] s
  show ?thesis by (auto simp: nth_replicate)
qed

text \<open>
  The error path of \<open>em_start\<close> joins threads that were never created.  When the thread of the
  scheduler cannot be created, \<open>pthread_join\<close> is called on two thread identifiers that are still
  zero; when only that of the network cannot, on one.
\<close>

theorem em_start_joins_nothing:
  assumes "em_start e (Some t) ad port c w = (r, c', v)" and "length ad \<le> 16"
    and "core_init c" and "log_fd w \<noteq> None" and "find_agent e (core_agents c) = None"
    and "malloc_ok w (mallocs w)"
    and "\<not> thread_ok w (threads w) \<or> \<not> thread_ok w (Suc (threads w))"
  shows "r = - 1 \<and> faults_of (trace v) = faults_of (trace w)
    @ (if thread_ok w (threads w) then [BadJoin] else [BadJoin, BadJoin])"
proof -
  have s: "start_new e t ad port c w = (r, c', v)"
    using assms(1,3,5) by (simp add: em_start_eq core_initialize_def)
  from s assms(2) show ?thesis
    by (cases rule: start_new_cases) (use assms(4,6,7) in auto)
qed

definition no_threads :: env where
  "no_threads = demo_env\<lparr>thread_ok := (\<lambda>n. n \<noteq> 1)\<rparr>"

theorem em_start_joins_nothing_witness:
  "faults_of (trace (snd (snd (em_start 5 (Some all_ops) [49] 2210 (core_empty\<lparr>core_init := True\<rparr>) no_threads))))
   = [BadJoin]"
proof -
  obtain r c v where s: "em_start 5 (Some all_ops) [49] 2210 (core_empty\<lparr>core_init := True\<rparr>) no_threads
    = (r, c, v)" by (rule prod_cases3)
  have "threads no_threads = 0" "trace no_threads = []" "log_fd no_threads \<noteq> None"
    "malloc_ok no_threads = (\<lambda>_. True)" "thread_ok no_threads = (\<lambda>n. n \<noteq> 1)"
    by (simp_all add: no_threads_def demo_env_def)
  then have "faults_of (trace v) = [BadJoin]"
    using em_start_joins_nothing [OF s] by (simp add: core_empty_def find_agent_def)
  then show ?thesis by (simp add: s)
qed

section \<open>Calls on one agent\<close>

lemma em_send_core:
  assumes "em_send e msg sz c w = (r, c', v)" and "\<forall>a \<in> set (core_agents c). agent_up a"
  shows "case (msg, find_agent e (core_agents c)) of
      (Some m, Some a) \<Rightarrow>
        if sz = 0 then r = - 1 \<and> c' = c
        else if alloc_ok w (Some m)
        then r = 0
          \<and> find_agent e (core_agents c') = Some (a\<lparr>sched := (sched a)\<lparr>sc_jobs := sc_jobs (sched a)
              @ [(task_init TASK_TYPE_SEND 1 0 0 (Some m) sz)\<lparr>tk_issued := clock w (clocks w)\<rparr>]\<rparr>\<rparr>)
          \<and> (\<forall>j. j \<noteq> e \<longrightarrow> find_agent j (core_agents c') = find_agent j (core_agents c))
        else r = - 1 \<and> find_agent e (core_agents c') = Some a
    | _ \<Rightarrow> r = - 1 \<and> c' = c"
proof (cases "msg = None \<or> sz = 0 \<or> find_agent e (core_agents c) = None")
  case True
  then show ?thesis using assms(1) by (auto simp: em_send_def split: option.splits)
next
  case False
  then obtain m a where m: "msg = Some m" "sz \<noteq> 0" "find_agent e (core_agents c) = Some a" by auto
  then have "a \<in> set (core_agents c)" unfolding find_agent_def by (blast dest: find_SomeD)
  then have run: "\<not> sc_stop (sched a)" using assms(2) by (simp add: agent_up_def)
  obtain s b u where cs: "core_send a m sz w = (s, b, u)" by (rule prod_cases3)
  have c': "r = s" "c' = c\<lparr>core_agents := put_agent e b (core_agents c)\<rparr>"
    using assms(1) m cs by (simp_all add: em_send_def)
  obtain t x where t: "task_alloc TASK_TYPE_SEND 1 0 0 (Some m) sz w = (t, x)" by fastforce
  note ta = task_alloc_after [OF t]
  have cl: "clock x = clock w" "clocks x = clocks w" using ta(2) by (simp_all add: same_but_mem_def)
  have b: "if alloc_ok w (Some m)
      then s = 0 \<and> b = a\<lparr>sched := (sched a)\<lparr>sc_jobs := sc_jobs (sched a)
              @ [(task_init TASK_TYPE_SEND 1 0 0 (Some m) sz)\<lparr>tk_issued := clock w (clocks w)\<rparr>]\<rparr>\<rparr>
      else s = - 1 \<and> b = a"
    using cs t ta(1) run cl
    by (auto simp: core_send_def agent_add_task_def sched_add_task_def clock_gettime_def)
  then have "enb_id b = e" using ag.look_key [OF m(3)] by (auto split: if_splits)
  from ag.put_same [OF m(3) this] ag.put_other [OF m(3) this] show ?thesis
    using b m c' by (auto split: if_splits)
qed

lemma task_after_init [simp]:
  "tk_msg ((task_init ty iv rs tg msg sz)\<lparr>tk_issued := x\<rparr>) = map_option (take (unat sz)) msg"
  "tk_msg_size ((task_init ty iv rs tg msg sz)\<lparr>tk_issued := x\<rparr>) = (if msg = None then 0 else sz)"
  by simp_all

text \<open>
  What \<open>em_send\<close> does.  A null or empty message, or an unknown agent, is refused and nothing
  changes; otherwise, with memory at hand, one task with a copy of the first bytes is queued at that
  agent, and every other agent is found unchanged.
\<close>

theorem em_send_correct:
  assumes "em_send e msg sz c w = (r, c', v)" and "\<forall>a \<in> set (core_agents c). agent_up a"
  shows "case (msg, find_agent e (core_agents c)) of
      (Some m, Some a) \<Rightarrow>
        if sz = 0 then r = - 1 \<and> c' = c
        else if alloc_ok w (Some m)
        then r = 0
          \<and> find_agent e (core_agents c') = Some (a\<lparr>sched := (sched a)\<lparr>sc_jobs := sc_jobs (sched a)
              @ [(task_init TASK_TYPE_SEND 1 0 0 (Some m) sz)\<lparr>tk_issued := clock w (clocks w)\<rparr>]\<rparr>\<rparr>)
          \<and> (\<forall>j. j \<noteq> e \<longrightarrow> find_agent j (core_agents c') = find_agent j (core_agents c))
        else r = - 1 \<and> find_agent e (core_agents c') = Some a
    | _ \<Rightarrow> r = - 1 \<and> c' = c"
  using assms by (rule em_send_core)

theorem em_send_correct_witness:
  "fst (em_send 5 (Some [1, 2, 3]) 3 demo_core demo_env) = 0"
proof -
  obtain r c v where s: "em_send 5 (Some [1, 2, 3]) 3 demo_core demo_env = (r, c, v)"
    by (rule prod_cases3)
  from em_send_correct [OF s] show ?thesis by (simp add: s)
qed

text \<open>
  Success of \<open>em_send\<close> is not success of sending.  A message over the buffer size is accepted with
  0 like any other, and when its task runs nothing is sent and the task is done with.
\<close>

theorem em_send_too_long:
  assumes "em_send e (Some m) sz c w = (r, c', v)" and "\<forall>a \<in> set (core_agents c). agent_up a"
    and "find_agent e (core_agents c) = Some a" and "alloc_ok w (Some m)"
    and "EM_BUF_SIZE < unat sz"
  shows "r = 0 \<and> (\<exists>b t. find_agent e (core_agents c') = Some b \<and> last (sc_jobs (sched b)) = t
    \<and> (\<forall>x. fst (sched_perform_send P b t x) = TASK_CONSUMED
         \<and> sends_of (trace (snd (snd (snd (sched_perform_send P b t x))))) = sends_of (trace x)))"
proof -
  have "sz \<noteq> 0" using assms(5) by auto
  with em_send_core [OF assms(1,2)] assms(3,4)
  have b: "r = 0" "find_agent e (core_agents c') = Some (a\<lparr>sched := (sched a)\<lparr>sc_jobs := sc_jobs (sched a)
      @ [(task_init TASK_TYPE_SEND 1 0 0 (Some m) sz)\<lparr>tk_issued := clock w (clocks w)\<rparr>]\<rparr>\<rparr>)"
    by simp_all
  then show ?thesis
    using assms(5) by (simp add: sched_perform_send_def sched_send_msg_def)
qed

definition huge_msg :: bytes where
  "huge_msg = replicate 5000 7"

theorem em_send_too_long_witness:
  "fst (em_send 5 (Some huge_msg) 5000 demo_core demo_env) = 0"
proof -
  obtain r c v where s: "em_send 5 (Some huge_msg) 5000 demo_core demo_env = (r, c, v)"
    by (rule prod_cases3)
  from em_send_too_long [OF s] show ?thesis by (simp add: s EM_BUF_SIZE_def)
qed

text \<open>
  After \<open>em_del_trigger\<close> the trigger is gone, every other trigger of the agent and every other
  agent is as before, and the call returns 0 whether there was anything to remove or not.
\<close>

theorem em_del_trigger_correct:
  assumes "em_del_trigger e tid c w = (r, c', v)" and "distinct (map enb_id (core_agents c))"
    and "\<forall>a \<in> set (core_agents c). trig_wf (trig a)"
  shows "r = 0 \<and> em_has_trigger e tid c' = 0
    \<and> (\<forall>j. j \<noteq> tid \<longrightarrow> em_has_trigger e j c' = em_has_trigger e j c)
    \<and> (\<forall>d. d \<noteq> e \<longrightarrow> find_agent d (core_agents c') = find_agent d (core_agents c))"
proof (cases "find_agent e (core_agents c)")
  case None
  then show ?thesis using assms(1) by (auto simp: em_del_trigger_def em_has_trigger_def)
next
  case (Some a)
  then have "a \<in> set (core_agents c)" unfolding find_agent_def by (blast dest: find_SomeD)
  then have wf: "trig_wf (trig a)" using assms(3) by blast
  let ?b = "a\<lparr>trig := trig_drop (trig a) tid\<rparr>"
  have r: "r = 0" and c': "c' = c\<lparr>core_agents := put_agent e ?b (core_agents c)\<rparr>"
    using assms(1) trig_del_by_id_ctx [of "trig a" tid w]
    by (auto simp: em_del_trigger_def Some split: prod.splits)
  have "enb_id ?b = e" using ag.look_key [OF Some] by simp
  note put = ag.put_same [OF Some this] ag.put_other [OF Some this]
  show ?thesis
    using r put tr.find_drop_same [OF wf, of tid] tr.find_drop_other [of _ tid "trig a"]
    by (simp add: c' em_has_trigger_def Some)
qed

theorem em_del_trigger_correct_witness:
  "fst (em_del_trigger 5 77 demo_core demo_env) = 0"
proof -
  obtain r c v where s: "em_del_trigger 5 77 demo_core demo_env = (r, c, v)" by (rule prod_cases3)
  have "core_agents demo_core = [demo_agent []]" by (simp add: demo_core_def)
  with em_del_trigger_correct [OF s] have "r = 0" by (simp add: trig_wf_init)
  then show ?thesis by (simp add: s)
qed

text \<open>
  (C34) Terminating an agent takes exactly that agent out: it is not found any more, all others are, and
  its memory is returned.  The wrapper is told; the socket is not closed: no close is among what the
  call does, although the agent with its descriptor is freed.
\<close>

theorem em_terminate_correct:
  assumes "em_terminate_agent e c w = (r, c', v)" and "core_inv k l (c, w)"
  shows "r = 0 \<and> core_inv k l (c', v) \<and> find_agent e (core_agents c') = None
    \<and> (\<forall>d. d \<noteq> e \<longrightarrow> find_agent d (core_agents c') = find_agent d (core_agents c))
    \<and> trace v = trace w @ (case find_agent e (core_agents c) of
        None \<Rightarrow> []
      | Some a \<Rightarrow> if has_op a op_release then [EvCall e CbRelease] else [])"
proof (cases "find_agent e (core_agents c)")
  case None
  then show ?thesis using assms by (simp add: em_terminate_agent_def)
next
  case (Some a)
  obtain q u where rel: "core_release_agent a (tell_release a w) = (q, u)" by fastforce
  have eq: "r = 0" "c' = c\<lparr>core_agents := drop_agent e (core_agents c)\<rparr>" "v = u"
    using assms(1) rel by (auto simp: em_terminate_agent_def Some drop_agent_def)
  have d: "distinct (map enb_id (core_agents c))" using assms(2) by (simp add: core_inv_def)
  have "a \<in> set (core_agents c)" using Some unfolding find_agent_def by (blast dest: find_SomeD)
  then have "joins a = []" using assms(2) by (simp add: core_inv_def agent_up_def joins_def)
  then have "trace v = trace w @ (if has_op a op_release then [EvCall e CbRelease] else [])"
    using core_release_agent_effect(2) [OF rel] ag.look_key [OF Some] eq(3)
    by (simp add: tell_release_def call_def)
  moreover have "core_inv k l (c', v)"
    using core_inv_release [OF Some assms(2) rel] eq by (simp add: drop_agent_def)
  ultimately show ?thesis
    using eq Some ag.drop_same [OF d] ag.drop_other [OF d] by simp
qed

theorem em_terminate_correct_witness:
  "find_agent 5 (core_agents (fst (snd (em_terminate_agent 5 demo_core demo_env)))) = None"
proof -
  obtain r c v where s: "em_terminate_agent 5 demo_core demo_env = (r, c, v)" by (rule prod_cases3)
  have "core_inv 0 0 (demo_core, demo_env)"
    by (simp add: core_inv_def core_books_def agent_tasks_def agent_trigs_def demo_core_def
        agent_up_def trig_ctx_init_def) (simp add: demo_agent_def)
  from em_terminate_correct [OF s this] show ?thesis by (simp add: s)
qed

lemma start_new_log:
  assumes "start_new e t ad port c w = (r, c', v)"
  shows "log_fd v = log_fd w"
proof -
  obtain ok w2 where m: "malloc w = (ok, w2)" by fastforce
  obtain a w3 where a: "new_agent e t ad port w2 = (a, w3)" by fastforce
  obtain r4 s w4 where s: "sched_start e (sched a) w3 = (r4, s, w4)" by (rule prod_cases3)
  obtain r5 n w5 where n: "net_start e (net a) w4 = (r5, n, w5)" by (rule prod_cases3)
  have w: "log_fd w2 = log_fd w" "log_fd w3 = log_fd w2" "log_fd w4 = log_fd w3" "log_fd w5 = log_fd w4"
    using m a sched_start_after(4) [OF s] net_start_after(4) [OF n]
    by (auto simp: malloc_def new_agent_eq split: if_splits)
  have rel: "log_fd (snd (core_release_agent b y)) = log_fd y" for b y
    by (cases "core_release_agent b y") (simp add: core_release_agent_effect(7))
  show ?thesis
    using assms w rel
    by (auto simp: start_new_def m a s n call_def split_beta Let_def split: if_splits option.splits)
qed

text \<open>
  The log does not come back.  After \<open>em_stop\<close> the core still counts as initialised while the log
  is closed, so no later \<open>em_start\<close> opens it again, and every message from then on is written through
  a null stream.
\<close>

theorem log_not_reopened:
  assumes "em_stop c w = (r, c1, v)" and "core_init c" and "em_start e ops' ad port c1 v = (s, c2, u)"
  shows "log_fd u = None
    \<and> faults_of (trace (EMLOG a p x u)) = faults_of (trace u) @ [NullStream]"
proof -
  have c1: "core_init c1" "log_fd v = None"
    using assms(1,2) by (auto simp: em_stop_def log_release_def Let_def split: option.splits)
  have "log_fd u = None"
    using assms(3) c1 start_new_log [of e _ ad port c1 v s c2 u]
    by (cases ops') (auto simp: em_start_def [of _ None] em_start_eq core_initialize_def split: if_splits)
  then show ?thesis by (simp add: EMLOG_fault_iff)
qed

theorem log_not_reopened_witness:
  "log_fd (snd (snd (em_start 6 (Some all_ops) [49] 2210 (fst (snd (em_stop demo_core demo_env)))
     (snd (snd (em_stop demo_core demo_env)))))) = None"
proof -
  obtain r c v where s: "em_stop demo_core demo_env = (r, c, v)" by (rule prod_cases3)
  obtain q d u where t: "em_start 6 (Some all_ops) [49] 2210 c v = (q, d, u)" by (rule prod_cases3)
  have "core_init demo_core" by (simp add: demo_core_def)
  from log_not_reopened [OF s this t] show ?thesis by (simp add: s t)
qed

end
