(* ===== verification/Calls.thy ===== *)
theory Calls
  imports Core
begin

text \<open>
  \<open>src/agent/core.c\<close> again, with several callers at once.  A call is cut where it takes or leaves
  \<open>core_lock\<close> or \<open>core_agents_lock\<close>, calls the wrapper, or starts, stops or frees something; each
  piece is one step, and the steps of different callers and of the threads of the agents come in any
  order.  Agents have addresses here: the list of agents is a list of addresses, and what is freed is
  no longer in the heap.  Using a freed agent, or the first entry of an empty list, is a \<open>crash\<close>.  The other
  faults of these calls, a message to a log that is not open and a join of a thread that was never
  created, are events of the trace as in \<open>Core\<close>, after which the model goes on.
\<close>

section \<open>State\<close>

datatype crash = UseAfterFree | WildPointer

datatype thread = SchedThread nat | NetThread nat

text \<open>
  \<open>sh_threads\<close> are the threads that run, with the agent each has as its argument; \<open>sh_next\<close> is what
  the next \<open>malloc\<close> returns.
\<close>

record shared =
  sh_init :: bool
  sh_list :: "nat list"
  sh_heap :: "nat \<Rightarrow> emage option"
  sh_next :: nat
  sh_threads :: "thread list"
  sh_env :: env

text \<open>What a caller asks for.\<close>

datatype request =
    AskStart u64 "em_agent_ops option" bytes u16
  | AskTerminate u64
  | AskStop
  | AskSend u64 "bytes option" u32
  | AskDelTrigger u64 i32
  | AskHasTrigger u64 i32
  | AskIsConnected u64

text \<open>Where a caller stands; \<open>after\<close> says where \<open>core_release_agent\<close> was called from.\<close>

datatype after = ThenReturn int | ThenStop

datatype pc =
    is_Idle: Idle (returned: int)
  | AtStart u64 "em_agent_ops option" bytes u16
  | AtFind u64 em_agent_ops bytes u16
  | AtRunning
  | AtAlloc u64 em_agent_ops bytes u16
  | AtSched nat
  | AtNet nat
  | AtHook nat
  | AtInsert nat
  | AtTerm u64
  | AtStop
  | AtTake
  | AtTell nat after
  | AtJoinSched nat after
  | AtJoinNet nat after
  | AtFree nat after
  | AtShut
  | AtSend u64 "bytes option" u32
  | AtDel u64 i32
  | AtHas u64 i32
  | AtConn u64

fun enter :: "request \<Rightarrow> pc" where
  "enter (AskStart e t ad port) = AtStart e t ad port"
| "enter (AskTerminate e) = AtTerm e"
| "enter AskStop = AtStop"
| "enter (AskSend e m sz) = AtSend e m sz"
| "enter (AskDelTrigger e tid) = AtDel e tid"
| "enter (AskHasTrigger e tid) = AtHas e tid"
| "enter (AskIsConnected e) = AtConn e"

section \<open>Access to agents\<close>

definition with_agent :: "nat \<Rightarrow> shared \<Rightarrow> (emage \<Rightarrow> crash + 'a) \<Rightarrow> crash + 'a" where
  "with_agent n s f = (case sh_heap s n of None \<Rightarrow> Inl UseAfterFree | Some a \<Rightarrow> f a)"

definition store :: "nat \<Rightarrow> emage \<Rightarrow> env \<Rightarrow> shared \<Rightarrow> shared" where
  "store n a w s = s\<lparr>sh_heap := (sh_heap s)(n \<mapsto> a), sh_env := w\<rparr>"

text \<open>\<open>list_for_each_entry\<close> with the comparison of the id in its body.\<close>

fun find_addr :: "u64 \<Rightarrow> (nat \<Rightarrow> emage option) \<Rightarrow> nat list \<Rightarrow> crash + nat option" where
  "find_addr e h [] = Inr None"
| "find_addr e h (n # ns) =
     (case h n of
        None \<Rightarrow> Inl UseAfterFree
      | Some a \<Rightarrow> if enb_id a = e then Inr (Some n) else find_addr e h ns)"

definition on_found ::
    "u64 \<Rightarrow> shared \<Rightarrow> crash + 'a \<Rightarrow> (nat \<Rightarrow> emage \<Rightarrow> crash + 'a) \<Rightarrow> crash + 'a" where
  "on_found e s none some =
     (case find_addr e (sh_heap s) (sh_list s) of
        Inl x \<Rightarrow> Inl x
      | Inr None \<Rightarrow> none
      | Inr (Some n) \<Rightarrow> with_agent n s (some n))"

section \<open>Steps of a caller\<close>

text \<open>The pieces of \<open>em_start\<close>.\<close>

definition step_init :: "u64 \<Rightarrow> em_agent_ops \<Rightarrow> bytes \<Rightarrow> u16 \<Rightarrow> shared \<Rightarrow> pc \<times> shared" where
  "step_init e t ad port s =
     (let (r, c, w) = core_initialize \<lparr>core_init = sh_init s, core_agents = []\<rparr> (sh_env s)
      in (AtFind e t ad port, s\<lparr>sh_init := core_init c, sh_env := w\<rparr>))"

definition step_alloc :: "u64 \<Rightarrow> em_agent_ops \<Rightarrow> bytes \<Rightarrow> u16 \<Rightarrow> shared \<Rightarrow> pc \<times> shared" where
  "step_alloc e t ad port s =
     (let (ok, w) = malloc (sh_env s) in
      if \<not> ok then (Idle (- 1), s\<lparr>sh_env := w\<rparr>)
      else let (a, w) = new_agent e t ad port w
           in (AtSched (sh_next s), store (sh_next s) a w s\<lparr>sh_next := Suc (sh_next s)\<rparr>))"

definition step_sched :: "nat \<Rightarrow> shared \<Rightarrow> emage \<Rightarrow> pc \<times> shared" where
  "step_sched n s a =
     (let (r, ctx, w) = sched_start (enb_id a) (sched a) (sh_env s);
          a = a\<lparr>sched := ctx\<rparr>
      in if r \<noteq> 0
         then (AtJoinSched n (ThenReturn (- 1)), store n a
           (EMLOG (Some (enb_id a)) ''em_start'' ''Failed to start the scheduler context'' w) s)
         else (AtNet n, store n a w s\<lparr>sh_threads := SchedThread n # sh_threads s\<rparr>))"

definition step_net :: "nat \<Rightarrow> shared \<Rightarrow> emage \<Rightarrow> pc \<times> shared" where
  "step_net n s a =
     (let (r, ctx, w) = net_start (enb_id a) (net a) (sh_env s);
          a = a\<lparr>net := ctx\<rparr>
      in if r \<noteq> 0
         then (AtJoinSched n (ThenReturn (- 1)), store n a
           (EMLOG (Some (enb_id a)) ''em_start'' ''Failed to start the network context'' w) s)
         else (AtHook n, store n a w s\<lparr>sh_threads := NetThread n # sh_threads s\<rparr>))"

definition step_hook :: "nat \<Rightarrow> shared \<Rightarrow> emage \<Rightarrow> pc \<times> shared" where
  "step_hook n s a =
     (case Option.bind (ops a) op_init of
        None \<Rightarrow> (AtInsert n, s)
      | Some r \<Rightarrow>
          let w = call (enb_id a) CbInit (sh_env s)
          in (if r < 0 then AtJoinSched n (ThenReturn r) else AtInsert n, s\<lparr>sh_env := w\<rparr>))"

text \<open>The pieces of \<open>core_release_agent\<close>.\<close>

definition step_join_sched :: "nat \<Rightarrow> after \<Rightarrow> shared \<Rightarrow> emage \<Rightarrow> pc \<times> shared" where
  "step_join_sched n k s a =
     (let (r, ctx, w) = sched_stop (sched a) (sh_env s)
      in (AtJoinNet n k, store n (a\<lparr>sched := ctx\<rparr>) w s
            \<lparr>sh_threads := filter (\<lambda>t. t \<noteq> SchedThread n) (sh_threads s)\<rparr>))"

definition step_join_net :: "nat \<Rightarrow> after \<Rightarrow> shared \<Rightarrow> emage \<Rightarrow> pc \<times> shared" where
  "step_join_net n k s a =
     (let (r, ctx, w) = net_stop (net a) (sh_env s)
      in (AtFree n k, store n (a\<lparr>net := ctx\<rparr>) w s
            \<lparr>sh_threads := filter (\<lambda>t. t \<noteq> NetThread n) (sh_threads s)\<rparr>))"

definition step_free :: "nat \<Rightarrow> after \<Rightarrow> shared \<Rightarrow> emage \<Rightarrow> pc \<times> shared" where
  "step_free n k s a =
     (let (ctx, w) = trig_flush (trig a) (sh_env s)
      in (case k of ThenReturn r \<Rightarrow> Idle r | ThenStop \<Rightarrow> AtStop,
          s\<lparr>sh_heap := (sh_heap s)(n := None), sh_env := w\<rparr>))"

text \<open>The calls that are one critical section.\<close>

definition step_send :: "bytes \<Rightarrow> u32 \<Rightarrow> shared \<Rightarrow> nat \<Rightarrow> emage \<Rightarrow> pc \<times> shared" where
  "step_send m sz s n a =
     (let (r, a, w) = core_send a m sz (sh_env s) in (Idle r, store n a w s))"

definition step_del :: "i32 \<Rightarrow> shared \<Rightarrow> nat \<Rightarrow> emage \<Rightarrow> pc \<times> shared" where
  "step_del tid s n a =
     (let (r, ctx, w) = trig_del_by_id (trig a) tid (sh_env s)
      in (Idle 0, store n (a\<lparr>trig := ctx\<rparr>) w s))"

text \<open>
  The test at the head of the loop of \<open>em_stop\<close> is made without the lock: \<open>AtStop\<close> and \<open>AtTake\<close> are
  two steps.  \<open>list_first_entry\<close> of an empty list is computed from the list head itself.
\<close>

fun pc_step :: "pc \<Rightarrow> shared \<Rightarrow> crash + pc \<times> shared" where
  "pc_step (Idle r) s = Inr (Idle r, s)"
| "pc_step (AtStart e None ad port) s = Inr (Idle (- 1), s)"
| "pc_step (AtStart e (Some t) ad port) s = Inr (step_init e t ad port s)"
| "pc_step (AtFind e t ad port) s =
     on_found e s (Inr (AtAlloc e t ad port, s)) (\<lambda>n a. Inr (AtRunning, s))"
| "pc_step AtRunning s =
     Inr (Idle (- 1),
       s\<lparr>sh_env := EMLOG None ''em_start'' ''Agent eNB %d is already running...'' (sh_env s)\<rparr>)"
| "pc_step (AtAlloc e t ad port) s = Inr (step_alloc e t ad port s)"
| "pc_step (AtSched n) s = with_agent n s (\<lambda>a. Inr (step_sched n s a))"
| "pc_step (AtNet n) s = with_agent n s (\<lambda>a. Inr (step_net n s a))"
| "pc_step (AtHook n) s = with_agent n s (\<lambda>a. Inr (step_hook n s a))"
| "pc_step (AtInsert n) s = with_agent n s (\<lambda>a. Inr (Idle 0, s\<lparr>sh_list := n # sh_list s\<rparr>))"
| "pc_step (AtTerm e) s =
     on_found e s (Inr (Idle 0, s))
       (\<lambda>n a. Inr (AtTell n (ThenReturn 0), s\<lparr>sh_list := remove1 n (sh_list s)\<rparr>))"
| "pc_step AtStop s = Inr (if sh_list s = [] then AtShut else AtTake, s)"
| "pc_step AtTake s =
     (case sh_list s of
        [] \<Rightarrow> Inl WildPointer
      | n # ns \<Rightarrow> with_agent n s (\<lambda>a. Inr (AtTell n ThenStop, s\<lparr>sh_list := ns\<rparr>)))"
| "pc_step (AtTell n k) s =
     with_agent n s (\<lambda>a. Inr (AtJoinSched n k, s\<lparr>sh_env := tell_release a (sh_env s)\<rparr>))"
| "pc_step (AtJoinSched n k) s = with_agent n s (\<lambda>a. Inr (step_join_sched n k s a))"
| "pc_step (AtJoinNet n k) s = with_agent n s (\<lambda>a. Inr (step_join_net n k s a))"
| "pc_step (AtFree n k) s = with_agent n s (\<lambda>a. Inr (step_free n k s a))"
| "pc_step AtShut s =
     Inr (Idle 0, s\<lparr>sh_env := log_release (EMLOG None ''em_stop'' ''Core shut down'' (sh_env s))\<rparr>)"
| "pc_step (AtSend e msg sz) s =
     (case msg of
        None \<Rightarrow> Inr (Idle (- 1), s)
      | Some m \<Rightarrow>
          if sz = 0 then Inr (Idle (- 1), s)
          else on_found e s (Inr (Idle (- 1), s)) (\<lambda>n a. Inr (step_send m sz s n a)))"
| "pc_step (AtDel e tid) s = on_found e s (Inr (Idle 0, s)) (\<lambda>n a. Inr (step_del tid s n a))"
| "pc_step (AtHas e tid) s =
     on_found e s (Inr (Idle 0, s))
       (\<lambda>n a. Inr (Idle (case trig_find_by_id (trig a) tid of None \<Rightarrow> 0 | Some _ \<Rightarrow> 1), s))"
| "pc_step (AtConn e) s =
     on_found e s (Inr (Idle 0, s))
       (\<lambda>n a. Inr (Idle (if nt_status (net a) = NET_STATUS_CONNECTED then 1 else 0), s))"

section \<open>Work of the threads\<close>

datatype job =
    SchedPass nat
  | NetMessage nat bytes
  | NetUp nat
  | NetDown nat

fun job_thread :: "job \<Rightarrow> thread" where
  "job_thread (SchedPass n) = SchedThread n"
| "job_thread (NetMessage n m) = NetThread n"
| "job_thread (NetUp n) = NetThread n"
| "job_thread (NetDown n) = NetThread n"

fun job_step :: "emproto \<Rightarrow> stack_garbage \<Rightarrow> job \<Rightarrow> shared \<Rightarrow> crash + shared" where
  "job_step P g (SchedPass n) s = with_agent n s
     (\<lambda>a. let (r, a, w) = sched_consume P g a (sh_env s) in Inr (store n a w s))"
| "job_step P g (NetMessage n m) s = with_agent n s
     (\<lambda>a. let (r, a, w) = net_process_message P g a m (sh_env s) in Inr (store n a w s))"
| "job_step P g (NetUp n) s = with_agent n s
     (\<lambda>a. let (r, a, w) = net_connected a (sh_env s) in Inr (store n a w s))"
| "job_step P g (NetDown n) s = with_agent n s
     (\<lambda>a. let (a, w) = agent_not_connected a (sh_env s) in Inr (store n a w s))"

section \<open>All together\<close>

text \<open>A caller makes its requests one after the other.\<close>

type_synonym caller = "pc \<times> request list"

fun caller_step :: "caller \<Rightarrow> shared \<Rightarrow> crash + caller \<times> shared" where
  "caller_step (Idle r, []) s = Inr ((Idle r, []), s)"
| "caller_step (Idle r, q # qs) s = Inr ((enter q, qs), s)"
| "caller_step (p, qs) s =
     (case pc_step p s of Inl x \<Rightarrow> Inl x | Inr (p, s) \<Rightarrow> Inr ((p, qs), s))"

datatype sys = Sys shared "caller list" | Crashed crash

inductive sys_step :: "emproto \<Rightarrow> stack_garbage \<Rightarrow> sys \<Rightarrow> sys \<Rightarrow> bool" for P g where
  call_moves: "caller_step c s = Inr (d, t) \<Longrightarrow> sys_step P g (Sys s (us @ c # vs)) (Sys t (us @ d # vs))"
| call_crashes: "caller_step c s = Inl x \<Longrightarrow> sys_step P g (Sys s (us @ c # vs)) (Crashed x)"
| job_done: "job_thread j \<in> set (sh_threads s) \<Longrightarrow> job_step P g j s = Inr t
    \<Longrightarrow> sys_step P g (Sys s cs) (Sys t cs)"
| job_crashes: "job_thread j \<in> set (sh_threads s) \<Longrightarrow> job_step P g j s = Inl x
    \<Longrightarrow> sys_step P g (Sys s cs) (Crashed x)"

inductive_simps sys_step_Crashed [simp]: "sys_step P g (Crashed x) y"

text \<open>Nothing was called yet; each caller has its list of requests.\<close>

definition shared_start :: "env \<Rightarrow> shared" where
  "shared_start w = \<lparr>sh_init = False, sh_list = [], sh_heap = Map.empty, sh_next = 1,
     sh_threads = [], sh_env = w\<rparr>"

definition sys_start :: "env \<Rightarrow> request list list \<Rightarrow> sys" where
  "sys_start w qss = Sys (shared_start w) (map (Pair (Idle 0)) qss)"

text \<open>One schedule, for examples: the number of the caller that moves next.\<close>

fun play :: "nat list \<Rightarrow> shared \<times> caller list \<Rightarrow> crash + shared \<times> caller list" where
  "play [] x = Inr x"
| "play (i # is) (s, cs) =
     (if i < length cs
      then case caller_step (cs ! i) s of
             Inl x \<Rightarrow> Inl x
           | Inr (d, t) \<Rightarrow> play is (t, cs[i := d])
      else play is (s, cs))"

fun sys_of :: "crash + shared \<times> caller list \<Rightarrow> sys" where
  "sys_of (Inl x) = Crashed x"
| "sys_of (Inr (s, cs)) = Sys s cs"

lemma play_reaches: "(sys_step P g)\<^sup>*\<^sup>* (Sys (fst x) (snd x)) (sys_of (play is x))"
proof (induction "is" x rule: play.induct)
  case (1 x)
  show ?case by (cases x) simp
next
  case (2 i "is" s cs)
  show ?case
  proof (cases "i < length cs")
    case True
    then have cs: "cs = take i cs @ cs ! i # drop (Suc i) cs" by (rule id_take_nth_drop)
    show ?thesis
    proof (cases "caller_step (cs ! i) s")
      case (Inl x)
      have "sys_step P g (Sys s cs) (Crashed x)" by (subst cs) (rule call_crashes [OF Inl])
      with True Inl show ?thesis by simp
    next
      case (Inr y)
      obtain d t where y: "y = (d, t)" by fastforce
      have "sys_step P g (Sys s (take i cs @ cs ! i # drop (Suc i) cs)) (Sys t (take i cs @ d # drop (Suc i) cs))"
        by (rule call_moves [OF Inr [unfolded y]])
      then have "sys_step P g (Sys s cs) (Sys t (cs[i := d]))"
        unfolding upd_conv_take_nth_drop [OF True] using cs by simp
      with 2(1) [OF True Inr [unfolded y] refl] True Inr y show ?thesis
        by (simp add: converse_rtranclp_into_rtranclp)
    qed
  next
    case False
    with 2(2) show ?thesis by simp
  qed
qed

lemma play_from_start:
  assumes "play is (shared_start w, map (Pair (Idle 0)) qss) = y"
  shows "(sys_step P g)\<^sup>*\<^sup>* (sys_start w qss) (sys_of y)"
  using play_reaches [of P g "(shared_start w, map (Pair (Idle 0)) qss)" "is"] assms
  by (simp add: sys_start_def)

end
