(* ===== verification/CallsFacts.thy ===== *)
theory CallsFacts
  imports Calls CoreFacts "HOL-Library.Multiset"
begin

text \<open>
  What holds in every interleaving.  Each agent in the heap has one owner: the list, or one caller
  that is building it or taking it down.  A thread runs only while its agent is in the heap.
\<close>

section \<open>Ownership\<close>

fun owns :: "pc \<Rightarrow> nat list" where
  "owns (AtSched n) = [n]"
| "owns (AtNet n) = [n]"
| "owns (AtHook n) = [n]"
| "owns (AtInsert n) = [n]"
| "owns (AtTell n k) = [n]"
| "owns (AtJoinSched n k) = [n]"
| "owns (AtJoinNet n k) = [n]"
| "owns (AtFree n k) = [n]"
| "owns _ = []"

text \<open>The threads that cannot run while a caller stands where it does.\<close>

fun lacks :: "pc \<Rightarrow> thread list" where
  "lacks (AtSched n) = [SchedThread n, NetThread n]"
| "lacks (AtNet n) = [NetThread n]"
| "lacks (AtJoinNet n k) = [SchedThread n]"
| "lacks (AtFree n k) = [SchedThread n, NetThread n]"
| "lacks _ = []"

fun thread_agent :: "thread \<Rightarrow> nat" where
  "thread_agent (SchedThread n) = n"
| "thread_agent (NetThread n) = n"

lemma lacks_owned: "t \<in> set (lacks p) \<Longrightarrow> thread_agent t \<in> set (owns p)"
  by (cases p) auto

text \<open>\<open>balanced R p s\<close>: the heap is what the list, this caller and the others (\<open>R\<close>) own.\<close>

definition balanced :: "nat multiset \<Rightarrow> pc \<Rightarrow> shared \<Rightarrow> bool" where
  "balanced R p s \<longleftrightarrow> finite (dom (sh_heap s))
     \<and> mset (sh_list s) + mset (owns p) + R = mset_set (dom (sh_heap s))
     \<and> (\<forall>n \<in> dom (sh_heap s). n < sh_next s)
     \<and> thread_agent ` set (sh_threads s) \<subseteq> dom (sh_heap s)
     \<and> set (lacks p) \<inter> set (sh_threads s) = {}"

lemma balanced_owner:
  assumes "balanced R p s"
  shows "n \<in> set (owns p) \<Longrightarrow> \<exists>a. sh_heap s n = Some a"
    and "n \<in> set (sh_list s) \<Longrightarrow> \<exists>a. sh_heap s n = Some a"
    and "n \<in># R \<Longrightarrow> \<exists>a. sh_heap s n = Some a"
proof -
  have f: "finite (dom (sh_heap s))"
    and e: "mset (sh_list s) + mset (owns p) + R = mset_set (dom (sh_heap s))"
    using assms by (simp_all add: balanced_def)
  have "n \<in> dom (sh_heap s)" if "n \<in># mset (sh_list s) + mset (owns p) + R"
    using that unfolding e by (simp add: f)
  then show "n \<in> set (owns p) \<Longrightarrow> \<exists>a. sh_heap s n = Some a"
    and "n \<in> set (sh_list s) \<Longrightarrow> \<exists>a. sh_heap s n = Some a"
    and "n \<in># R \<Longrightarrow> \<exists>a. sh_heap s n = Some a"
    by auto
qed

lemma balanced_distinct:
  assumes "balanced R p s"
  shows "distinct (sh_list s @ owns p)" and "n \<in> set (owns p) \<Longrightarrow> n \<notin># R"
proof -
  have f: "finite (dom (sh_heap s))"
    and e: "mset (sh_list s) + mset (owns p) + R = mset_set (dom (sh_heap s))"
    using assms by (simp_all add: balanced_def)
  have c: "count (mset (sh_list s) + mset (owns p) + R) n \<le> 1" for n
    unfolding e by (simp add: count_mset_set')
  have "count (mset (sh_list s @ owns p)) n = (if n \<in> set (sh_list s @ owns p) then 1 else 0)" for n
  proof (cases "n \<in> set (sh_list s @ owns p)")
    case True
    then have "0 < count (mset (sh_list s @ owns p)) n" by (simp only: count_greater_zero_iff set_mset_mset)
    then have "count (mset (sh_list s @ owns p)) n = 1" using c [of n] unfolding mset_append count_union by linarith
    with True show ?thesis by simp
  next
    case False
    then show ?thesis by (simp add: count_eq_zero_iff)
  qed
  then show "distinct (sh_list s @ owns p)" unfolding distinct_count_atmost_1 by blast
  show "n \<notin># R" if "n \<in> set (owns p)"
  proof
    assume "n \<in># R"
    then have "0 < count R n" by simp
    moreover have "0 < count (mset (owns p)) n" using that by (simp only: count_greater_zero_iff set_mset_mset)
    ultimately show False using c [of n] unfolding count_union by linarith
  qed
qed

lemma find_addr_live:
  assumes "\<forall>n \<in> set ns. h n \<noteq> None"
  shows "\<exists>r. find_addr e h ns = Inr r \<and> (case r of
      None \<Rightarrow> \<forall>n \<in> set ns. \<forall>a. h n = Some a \<longrightarrow> enb_id a \<noteq> e
    | Some n \<Rightarrow> \<exists>us vs a. ns = us @ n # vs \<and> h n = Some a \<and> enb_id a = e
        \<and> (\<forall>u \<in> set us. \<forall>a. h u = Some a \<longrightarrow> enb_id a \<noteq> e))"
  using assms
proof (induction ns)
  case (Cons n ns)
  then obtain a where a: "h n = Some a" by auto
  show ?case
  proof (cases "enb_id a = e")
    case True
    then have "n # ns = [] @ n # ns \<and> h n = Some a \<and> enb_id a = e
        \<and> (\<forall>u \<in> set []. \<forall>a. h u = Some a \<longrightarrow> enb_id a \<noteq> e)"
      using a by simp
    then have "\<exists>us vs a. n # ns = us @ n # vs \<and> h n = Some a \<and> enb_id a = e
        \<and> (\<forall>u \<in> set us. \<forall>a. h u = Some a \<longrightarrow> enb_id a \<noteq> e)" by blast
    with a True show ?thesis by simp
  next
    case False
    obtain r where r: "find_addr e h ns = Inr r" and c: "case r of
        None \<Rightarrow> \<forall>n \<in> set ns. \<forall>a. h n = Some a \<longrightarrow> enb_id a \<noteq> e
      | Some n \<Rightarrow> \<exists>us vs a. ns = us @ n # vs \<and> h n = Some a \<and> enb_id a = e
          \<and> (\<forall>u \<in> set us. \<forall>a. h u = Some a \<longrightarrow> enb_id a \<noteq> e)"
      using Cons by auto
    show ?thesis
    proof (cases r)
      case None
      with a r c False show ?thesis by auto
    next
      case (Some m)
      with c obtain us vs b where "ns = us @ m # vs" "h m = Some b" "enb_id b = e"
        "\<forall>u \<in> set us. \<forall>a. h u = Some a \<longrightarrow> enb_id a \<noteq> e" by auto
      then have "n # ns = (n # us) @ m # vs \<and> h m = Some b \<and> enb_id b = e
          \<and> (\<forall>u \<in> set (n # us). \<forall>a. h u = Some a \<longrightarrow> enb_id a \<noteq> e)"
        using a False by auto
      then have "\<exists>us vs a. n # ns = us @ m # vs \<and> h m = Some a \<and> enb_id a = e
          \<and> (\<forall>u \<in> set us. \<forall>a. h u = Some a \<longrightarrow> enb_id a \<noteq> e)" by blast
      with a r Some False show ?thesis by simp
    qed
  qed
qed simp

text \<open>Looking an agent up, with all listed agents alive.\<close>

lemma on_found_cases:
  assumes "balanced R p s"
  obtains (none) "on_found e s x f = x"
      "\<And>n a. n \<in> set (sh_list s) \<Longrightarrow> sh_heap s n = Some a \<Longrightarrow> enb_id a \<noteq> e"
    | (some) n a us vs where "on_found e s x f = f n a" "sh_heap s n = Some a" "enb_id a = e"
      "sh_list s = us @ n # vs" "\<And>u b. u \<in> set us \<Longrightarrow> sh_heap s u = Some b \<Longrightarrow> enb_id b \<noteq> e"
proof -
  have "\<forall>n \<in> set (sh_list s). sh_heap s n \<noteq> None" using balanced_owner(2) [OF assms] by auto
  from find_addr_live [OF this, of e] obtain r where
    r: "find_addr e (sh_heap s) (sh_list s) = Inr r" and c: "case r of
      None \<Rightarrow> \<forall>n \<in> set (sh_list s). \<forall>a. sh_heap s n = Some a \<longrightarrow> enb_id a \<noteq> e
    | Some n \<Rightarrow> \<exists>us vs a. sh_list s = us @ n # vs \<and> sh_heap s n = Some a \<and> enb_id a = e
        \<and> (\<forall>u \<in> set us. \<forall>a. sh_heap s u = Some a \<longrightarrow> enb_id a \<noteq> e)" by blast
  show thesis
  proof (cases r)
    case None
    with r c show thesis by (intro none) (auto simp: on_found_def)
  next
    case (Some m)
    with c obtain us vs a where "sh_list s = us @ m # vs" "sh_heap s m = Some a" "enb_id a = e"
      "\<forall>u \<in> set us. \<forall>a. sh_heap s u = Some a \<longrightarrow> enb_id a \<noteq> e" by auto
    with r Some show thesis by (intro some [of m a us vs]) (auto simp: on_found_def with_agent_def)
  qed
qed

section \<open>Steps of callers and threads\<close>

lemma store_simps [simp]:
  "sh_heap (store n a w s) = (sh_heap s)(n \<mapsto> a)" "sh_list (store n a w s) = sh_list s"
  "sh_next (store n a w s) = sh_next s" "sh_threads (store n a w s) = sh_threads s"
  "sh_env (store n a w s) = w" "sh_init (store n a w s) = sh_init s"
  by (simp_all add: store_def)

lemma with_agent_live [simp]: "sh_heap s n = Some a \<Longrightarrow> with_agent n s f = f a"
  by (simp add: with_agent_def)

text \<open>A step may add or end threads of agents that its caller owns, and changes no others.\<close>

definition own_threads :: "pc \<Rightarrow> shared \<Rightarrow> shared \<Rightarrow> bool" where
  "own_threads p s t \<longleftrightarrow>
     (\<forall>x. thread_agent x \<notin> set (owns p) \<longrightarrow> (x \<in> set (sh_threads t) \<longleftrightarrow> x \<in> set (sh_threads s)))"

lemma own_threads_same [simp]: "sh_threads t = sh_threads s \<Longrightarrow> own_threads p s t"
  by (simp add: own_threads_def)

lemma balanced_keep:
  assumes "balanced R p s" and "sh_list t = sh_list s" and "dom (sh_heap t) = dom (sh_heap s)"
    and "sh_next t = sh_next s" and "owns q = owns p"
    and "thread_agent ` set (sh_threads t) \<subseteq> thread_agent ` set (sh_threads s) \<union> set (owns p)"
    and "set (lacks q) \<inter> set (sh_threads t) = {}"
  shows "balanced R q t"
proof -
  have "set (owns p) \<subseteq> dom (sh_heap s)" using balanced_owner(1) [OF assms(1)] by blast
  then have "thread_agent ` set (sh_threads t) \<subseteq> dom (sh_heap s)"
    using assms(1,6) by (meson balanced_def le_sup_iff order_trans Un_mono order_refl)
  then show ?thesis using assms(1,7) unfolding balanced_def assms(2-5) by simp
qed

lemma balanced_quiet:
  assumes "balanced R p s" and "sh_list t = sh_list s" and "sh_heap t = sh_heap s"
    and "sh_next t = sh_next s" and "sh_threads t = sh_threads s" and "owns q = owns p" and "lacks q = []"
  shows "balanced R q t"
  by (rule balanced_keep [OF assms(1)]) (use assms(2-) in auto)

lemma balanced_alloc:
  assumes "balanced R p s" and "owns p = []"
  shows "balanced R (AtSched (sh_next s)) (store (sh_next s) a w s\<lparr>sh_next := Suc (sh_next s)\<rparr>)"
proof -
  let ?D = "dom (sh_heap s)"
  have b: "finite ?D" "mset (sh_list s) + R = mset_set ?D" "\<And>n. n \<in> ?D \<Longrightarrow> n < sh_next s"
    "thread_agent ` set (sh_threads s) \<subseteq> ?D"
    using assms by (simp_all add: balanced_def)
  have n: "sh_next s \<notin> ?D" using b(3) [of "sh_next s"] by blast
  have m: "mset_set (insert (sh_next s) ?D) = add_mset (sh_next s) (mset_set ?D)"
    using b(1) n by simp
  have d: "dom ((sh_heap s)(sh_next s \<mapsto> a)) = insert (sh_next s) ?D" by simp
  have t: "t \<notin> set (sh_threads s)" if "thread_agent t = sh_next s" for t
    using b(4) n that by (metis image_subset_iff)
  show ?thesis
    unfolding balanced_def
  proof (intro conjI)
    show "finite (dom (sh_heap (store (sh_next s) a w s\<lparr>sh_next := Suc (sh_next s)\<rparr>)))"
      using b(1) by simp
    show "\<forall>n \<in> dom (sh_heap (store (sh_next s) a w s\<lparr>sh_next := Suc (sh_next s)\<rparr>)).
        n < sh_next (store (sh_next s) a w s\<lparr>sh_next := Suc (sh_next s)\<rparr>)"
      using b(3) by (simp add: less_Suc_eq)
  qed (use b(2,4) t in \<open>simp_all add: d m b(2) [symmetric] subset_insertI2 del: dom_fun_upd\<close>)
qed

lemma balanced_free:
  assumes "balanced R (AtFree n k) s" and "owns q = []"
  shows "balanced R q (s\<lparr>sh_heap := (sh_heap s)(n := None), sh_env := w\<rparr>)"
proof -
  have n: "n \<in> dom (sh_heap s)" using balanced_owner(1) [OF assms(1), of n] by auto
  have "mset_set (dom (sh_heap s) - {n}) = mset_set (dom (sh_heap s)) - {#n#}"
    using assms(1) n by (simp add: balanced_def mset_set_Diff)
  also have "\<dots> = mset (sh_list s) + R"
    using assms(1) by (simp add: balanced_def) (metis add_mset_remove_trivial)
  finally have e: "mset_set (dom (sh_heap s) - {n}) = mset (sh_list s) + R" .
  have "thread_agent t \<noteq> n" if "t \<in> set (sh_threads s)" for t
    using assms(1) that by (cases t) (auto simp: balanced_def)
  moreover have "lacks q = []" using assms(2) by (cases q) auto
  ultimately show ?thesis
    using assms e unfolding balanced_def by (auto simp: fun_upd_def [symmetric])
qed

lemma balanced_take:
  assumes "balanced R p s" and "n \<in> set (sh_list s)" and "owns p = []"
  shows "balanced R (AtTell n k) (s\<lparr>sh_list := remove1 n (sh_list s)\<rparr>)"
  using assms unfolding balanced_def by simp

text \<open>A caller that owns an agent finds it.\<close>

lemma balanced_use:
  assumes "balanced R p s" and "owns p = [n]"
  obtains a where "sh_heap s n = Some a"
  using balanced_owner(1) [OF assms(1), of n] assms(2) by auto

lemma balanced_store:
  assumes "balanced R p s" and "sh_heap s n = Some a" and "owns q = owns p"
    and "set (lacks q) \<inter> set ts = {}"
    and "thread_agent ` set ts \<subseteq> thread_agent ` set (sh_threads s) \<union> set (owns p)"
  shows "balanced R q (store n b w s\<lparr>sh_threads := ts\<rparr>)"
  by (rule balanced_keep [OF assms(1)]) (use assms(2-) in auto)

lemma balanced_lacks: "balanced R p s \<Longrightarrow> t \<in> set (lacks p) \<Longrightarrow> t \<notin> set (sh_threads s)"
  by (auto simp: balanced_def)

lemma balanced_env: "balanced R q (s\<lparr>sh_env := w\<rparr>) \<longleftrightarrow> balanced R q s"
  by (simp add: balanced_def)

lemma store_own: "store n b w s = store n b w s\<lparr>sh_threads := sh_threads s\<rparr>"
  by (simp add: store_def)

lemma step_sched_ok:
  assumes "balanced R (AtSched n) s" and "sh_heap s n = Some a" and "step_sched n s a = (q, t)"
  shows "balanced R q t \<and> own_threads (AtSched n) s t"
proof -
  obtain r ctx w where e: "sched_start (enb_id a) (sched a) (sh_env s) = (r, ctx, w)" by (rule prod_cases3)
  have l: "SchedThread n \<notin> set (sh_threads s)" "NetThread n \<notin> set (sh_threads s)"
    using balanced_lacks [OF assms(1)] by simp_all
  show ?thesis
  proof (cases "r = 0")
    case True
    then have q: "q = AtNet n" "t = store n (a\<lparr>sched := ctx\<rparr>) w s\<lparr>sh_threads := SchedThread n # sh_threads s\<rparr>"
      using assms(3) e by (simp_all add: step_sched_def)
    show ?thesis unfolding q
      using l by (auto simp: own_threads_def intro!: balanced_store [OF assms(1,2)])
  next
    case False
    then obtain v where q: "q = AtJoinSched n (ThenReturn (- 1))" "t = store n (a\<lparr>sched := ctx\<rparr>) v s"
      using assms(3) e by (auto simp: step_sched_def)
    show ?thesis unfolding q
      by (subst store_own, rule conjI, rule balanced_store [OF assms(1,2)]) auto
  qed
qed

lemma step_net_ok:
  assumes "balanced R (AtNet n) s" and "sh_heap s n = Some a" and "step_net n s a = (q, t)"
  shows "balanced R q t \<and> own_threads (AtNet n) s t"
proof -
  obtain r ctx w where e: "net_start (enb_id a) (net a) (sh_env s) = (r, ctx, w)" by (rule prod_cases3)
  have l: "NetThread n \<notin> set (sh_threads s)"
    using balanced_lacks [OF assms(1)] by simp_all
  show ?thesis
  proof (cases "r = 0")
    case True
    then have q: "q = AtHook n" "t = store n (a\<lparr>net := ctx\<rparr>) w s\<lparr>sh_threads := NetThread n # sh_threads s\<rparr>"
      using assms(3) e by (simp_all add: step_net_def)
    show ?thesis unfolding q
      using l by (auto simp: own_threads_def intro!: balanced_store [OF assms(1,2)])
  next
    case False
    then obtain v where q: "q = AtJoinSched n (ThenReturn (- 1))" "t = store n (a\<lparr>net := ctx\<rparr>) v s"
      using assms(3) e by (auto simp: step_net_def)
    show ?thesis unfolding q
      by (subst store_own, rule conjI, rule balanced_store [OF assms(1,2)]) auto
  qed
qed

lemma step_join_ok:
  assumes "sh_heap s n = Some a"
  shows "balanced R (AtJoinSched n k) s \<Longrightarrow> step_join_sched n k s a = (q, t)
      \<Longrightarrow> balanced R q t \<and> own_threads (AtJoinSched n k) s t"
    and "balanced R (AtJoinNet n k) s \<Longrightarrow> step_join_net n k s a = (q, t)
      \<Longrightarrow> balanced R q t \<and> own_threads (AtJoinNet n k) s t"
proof -
  assume b: "balanced R (AtJoinSched n k) s" and e: "step_join_sched n k s a = (q, t)"
  show "balanced R q t \<and> own_threads (AtJoinSched n k) s t"
    using e by (auto simp: step_join_sched_def own_threads_def Let_def split: prod.splits
        intro!: balanced_store [OF b assms])
next
  assume b: "balanced R (AtJoinNet n k) s" and e: "step_join_net n k s a = (q, t)"
  show "balanced R q t \<and> own_threads (AtJoinNet n k) s t"
    using e balanced_lacks [OF b] by (auto simp: step_join_net_def own_threads_def Let_def
        split: prod.splits intro!: balanced_store [OF b assms])
qed

lemma step_free_ok:
  assumes "balanced R (AtFree n k) s" and "step_free n k s a = (q, t)"
  shows "balanced R q t \<and> own_threads (AtFree n k) s t"
  using assms(2) by (auto simp: step_free_def Let_def split: prod.splits after.splits
      intro!: balanced_free [OF assms(1)])

lemma store_ok:
  assumes "balanced R p s" and "sh_heap s n = Some a" and "owns p = []"
  shows "balanced R (Idle r) (store n b w s)"
  by (subst store_own, rule balanced_store [OF assms(1,2)]) (use assms(3) in auto)

text \<open>Any step of a caller; the only one that can go wrong is taking from an empty list.\<close>

text \<open>A call that has an agent in its hands.\<close>

lemma pc_step_ok_owner:
  assumes "balanced R p s" and "pc_step p s = Inr (q, t)"
    and "p \<in> {AtSched n, AtNet n, AtHook n, AtInsert n, AtTell n k, AtJoinSched n k, AtJoinNet n k, AtFree n k}"
  shows "balanced R q t \<and> own_threads p s t"
proof -
  have "owns p = [n]" using assms(3) by auto
  then obtain a where a: "sh_heap s n = Some a" by (rule balanced_use [OF assms(1)])
  consider "p = AtSched n" | "p = AtNet n" | "p = AtHook n" | "p = AtInsert n" | "p = AtTell n k"
    | "p = AtJoinSched n k" | "p = AtJoinNet n k" | "p = AtFree n k" using assms(3) by blast
  then show ?thesis
  proof cases
    case 3
    then show ?thesis using assms a by (auto simp: step_hook_def intro: balanced_quiet split: option.splits)
  next
    case 4
    then have q: "q = Idle 0" "t = s\<lparr>sh_list := n # sh_list s\<rparr>" using assms(2) a by simp_all
    show ?thesis using assms(1) unfolding q by (simp add: 4 balanced_def)
  next
    case 5
    then show ?thesis using assms a by (auto intro: balanced_quiet)
  next
    case 1
    then show ?thesis using assms(1,2) step_sched_ok [OF _ a] by (simp add: a)
  next
    case 2
    then show ?thesis using assms(1,2) step_net_ok [OF _ a] by (simp add: a)
  next
    case 6
    then show ?thesis using assms(1,2) step_join_ok(1) [OF a] by (simp add: a)
  next
    case 7
    then show ?thesis using assms(1,2) step_join_ok(2) [OF a] by (simp add: a)
  next
    case 8
    then show ?thesis using assms(1,2) step_free_ok by (simp add: a)
  qed
qed

text \<open>A call that looks an agent up and does its work under the same hold of the lock.\<close>

lemma pc_step_ok_lookup:
  assumes "balanced R p s" and "pc_step p s = Inr (q, t)"
    and "p \<in> {AtSend e msg sz, AtDel e tid, AtHas e tid, AtConn e}"
  shows "balanced R q t \<and> own_threads p s t"
proof -
  note look = on_found_cases [of R p s e]
  consider "p = AtSend e msg sz" | "p = AtDel e tid" | "p = AtHas e tid" | "p = AtConn e" using assms(3) by blast
  then show ?thesis
  proof cases
    case 1
    show ?thesis
    proof (cases "msg = None \<or> sz = 0")
      case True
      then show ?thesis using assms 1 by (auto intro: balanced_quiet split: option.splits)
    next
      case False
      then obtain m where m: "msg = Some m" "sz \<noteq> 0" by auto
      from assms(1) show ?thesis
        by (cases rule: look [of "Inr (Idle (- 1), s)" "\<lambda>n a. Inr (step_send m sz s n a)"])
          (use assms m 1 in \<open>auto simp: step_send_def intro: balanced_quiet store_ok split: prod.splits\<close>)
    qed
  next
    case 2
    from assms(1) show ?thesis
      by (cases rule: look [of "Inr (Idle 0, s)" "\<lambda>n a. Inr (step_del tid s n a)"])
        (use assms 2 in \<open>auto simp: step_del_def intro: balanced_quiet store_ok split: prod.splits\<close>)
  next
    case 3
    from assms(1) show ?thesis
      by (cases rule: look [of "Inr (Idle 0, s)"
          "\<lambda>n a. Inr (Idle (case trig_find_by_id (trig a) tid of None \<Rightarrow> 0 | Some _ \<Rightarrow> 1), s)"])
        (use assms 3 in \<open>auto intro: balanced_quiet\<close>)
  next
    case 4
    from assms(1) show ?thesis
      by (cases rule: look [of "Inr (Idle 0, s)"
          "\<lambda>n a. Inr (Idle (if nt_status (net a) = NET_STATUS_CONNECTED then 1 else 0), s)"])
        (use assms 4 in \<open>auto intro: balanced_quiet\<close>)
  qed
qed

text \<open>A call that takes an agent out of the list.\<close>

lemma pc_step_ok_take:
  assumes "balanced R p s" and "pc_step p s = Inr (q, t)" and "p = AtTerm e \<or> p = AtTake"
  shows "balanced R q t \<and> own_threads p s t"
  using assms(3)
proof
  assume p: "p = AtTerm e"
  let ?f = "\<lambda>n a :: emage. Inr (AtTell n (ThenReturn 0), s\<lparr>sh_list := remove1 n (sh_list s)\<rparr>) :: crash + pc \<times> shared"
  show ?thesis
  proof (cases rule: on_found_cases [OF assms(1), of e "Inr (Idle 0, s)" ?f])
    case 1
    then show ?thesis using assms p by (auto intro: balanced_quiet)
  next
    case (2 n a us vs)
    then have "q = AtTell n (ThenReturn 0)" "t = s\<lparr>sh_list := remove1 n (sh_list s)\<rparr>"
      using assms(2) unfolding p pc_step.simps 2(1) by simp_all
    then show ?thesis using balanced_take [OF assms(1), of n "ThenReturn 0"] 2(4) p by simp
  qed
next
  assume p: "p = AtTake"
  then obtain n ns where l: "sh_list s = n # ns" using assms(2) by (cases "sh_list s") auto
  then obtain a where a: "sh_heap s n = Some a" using balanced_owner(2) [OF assms(1), of n] by auto
  then show ?thesis
    using assms(1,2) balanced_take [OF assms(1), of n ThenStop] l p by auto
qed

lemma pc_step_ok:
  assumes "balanced R p s" and "pc_step p s = Inr (q, t)"
  shows "balanced R q t \<and> own_threads p s t"
proof (cases p)
  case (AtStart e t' ad port)
  then show ?thesis
    using assms by (cases t') (auto simp: step_init_def intro: balanced_quiet split: prod.splits)
next
  case (AtFind e t' ad port)
  show ?thesis using assms(2) unfolding AtFind
    by (cases rule: on_found_cases [OF assms(1), of e "Inr (AtAlloc e t' ad port, s)" "\<lambda>n a. Inr (AtRunning, s)"])
      (use assms(1) AtFind in \<open>auto intro: balanced_quiet\<close>)
next
  case (AtAlloc e t' ad port)
  then show ?thesis
    using assms by (auto simp: step_alloc_def Let_def intro: balanced_quiet balanced_alloc
        split: prod.splits if_splits)
qed (use assms pc_step_ok_owner [OF assms] pc_step_ok_lookup [OF assms] pc_step_ok_take [OF assms] in
    \<open>auto intro: balanced_quiet split: if_splits\<close>)

lemma pc_step_crash:
  assumes "balanced R p s" and "pc_step p s = Inl x"
  shows "p = AtTake \<and> sh_list s = [] \<and> x = WildPointer"
proof (cases "\<exists>n. owns p = [n]")
  case True
  then obtain n a where "owns p = [n]" "sh_heap s n = Some a" using balanced_use [OF assms(1)] by metis
  then show ?thesis using assms(2) by (cases p) auto
next
  case False
  have f: "on_found e s (Inr y) (\<lambda>n a. Inr (f n a)) \<noteq> Inl x" for e y and f :: "nat \<Rightarrow> emage \<Rightarrow> pc \<times> shared"
    by (rule on_found_cases [OF assms(1), of e "Inr y" "\<lambda>n a. Inr (f n a)"]) auto
  have g: "with_agent n s (\<lambda>a. Inr (f a)) \<noteq> Inl x" if "n \<in> set (sh_list s)" for n and f :: "emage \<Rightarrow> pc \<times> shared"
    using balanced_owner(2) [OF assms(1) that] by auto
  show ?thesis
    using assms(2) False f g
    by (cases "(p, s)" rule: pc_step.cases) (auto split: list.splits option.splits if_splits)
qed

section \<open>The whole system\<close>

text \<open>What the callers own together, and the invariant of the system.\<close>

definition owned :: "caller list \<Rightarrow> nat multiset" where
  "owned cs = (\<Sum>c\<leftarrow>cs. mset (owns (fst c)))"

definition calls_inv :: "shared \<Rightarrow> caller list \<Rightarrow> bool" where
  "calls_inv s cs \<longleftrightarrow> balanced (owned cs) (Idle 0) s
     \<and> (\<forall>c \<in> set cs. set (lacks (fst c)) \<inter> set (sh_threads s) = {})"

lemma owned_simps [simp]:
  "owned [] = {#}" "owned (c # cs) = mset (owns (fst c)) + owned cs"
  "owned (us @ vs) = owned us + owned vs"
  by (simp_all add: owned_def)

lemma owned_member: "c \<in> set cs \<Longrightarrow> n \<in> set (owns (fst c)) \<Longrightarrow> n \<in># owned cs"
  by (induction cs) auto

text \<open>The invariant, as one of the callers sees it.\<close>

lemma calls_inv_focus:
  "calls_inv s (us @ c # vs) \<longleftrightarrow> balanced (owned (us @ vs)) (fst c) s
     \<and> (\<forall>d \<in> set (us @ vs). set (lacks (fst d)) \<inter> set (sh_threads s) = {})"
proof -
  have "mset (sh_list s) + (mset (owns (fst c)) + owned (us @ vs))
      = mset (sh_list s) + mset (owns (fst c)) + owned (us @ vs)" by (simp only: add.assoc)
  moreover have "owned (us @ c # vs) = mset (owns (fst c)) + owned (us @ vs)" by (simp add: ac_simps)
  ultimately show ?thesis
    unfolding calls_inv_def balanced_def by (auto simp: ac_simps)
qed

lemma caller_step_cases:
  assumes "caller_step c s = y"
  obtains (idle) r where "c = (Idle r, [])" "y = Inr (c, s)"
    | (enter) r q qs where "c = (Idle r, q # qs)" "y = Inr ((enter q, qs), s)"
    | (crash) p qs x where "c = (p, qs)" "pc_step p s = Inl x" "y = Inl x"
    | (move) p qs q t where "c = (p, qs)" "\<And>r. p \<noteq> Idle r" "pc_step p s = Inr (q, t)" "y = Inr ((q, qs), t)"
proof -
  obtain p qs where c: "c = (p, qs)" by fastforce
  show thesis
  proof (cases "\<exists>r. p = Idle r")
    case True
    then show thesis using assms c idle enter by (cases qs) auto
  next
    case False
    then have e: "caller_step (p, qs) s = (case pc_step p s of Inl x \<Rightarrow> Inl x | Inr (p, s) \<Rightarrow> Inr ((p, qs), s))"
      by (cases p) auto
    show thesis
    proof (cases "pc_step p s")
      case (Inl x)
      with assms c e show thesis by (intro crash) auto
    next
      case (Inr z)
      with assms c e False show thesis by (cases z) (intro move, auto)
    qed
  qed
qed

lemma owns_enter [simp]: "owns (enter q) = []" "lacks (enter q) = []"
  by (cases q; simp)+

lemma calls_inv_caller:
  assumes "calls_inv s (us @ c # vs)" and "caller_step c s = Inr (d, t)"
  shows "calls_inv t (us @ d # vs)"
  using assms(2)
proof (cases rule: caller_step_cases)
  case (enter r q qs)
  then show ?thesis using assms(1) by (auto simp: calls_inv_focus balanced_def)
next
  case (move p qs q u)
  have f: "balanced (owned (us @ vs)) p s" "\<And>d. d \<in> set (us @ vs) \<Longrightarrow> set (lacks (fst d)) \<inter> set (sh_threads s) = {}"
    using assms(1) unfolding calls_inv_focus move(1) by simp_all
  have "set (lacks (fst e)) \<inter> set (sh_threads u) = {}" if e: "e \<in> set (us @ vs)" for e
  proof -
    have "x \<notin> set (sh_threads u)" if x: "x \<in> set (lacks (fst e))" for x
    proof -
      have "thread_agent x \<in># owned (us @ vs)" by (rule owned_member [OF e lacks_owned [OF x]])
      then have "thread_agent x \<notin> set (owns p)" using balanced_distinct(2) [OF f(1)] by blast
      moreover have "x \<notin> set (sh_threads s)" using f(2) [OF e] x by blast
      ultimately show ?thesis using pc_step_ok [OF f(1) move(3)] by (simp add: own_threads_def)
    qed
    then show ?thesis by blast
  qed
  then show ?thesis
    using pc_step_ok [OF f(1) move(3)] move(4) by (simp add: calls_inv_focus)
qed (use assms in auto)

lemma job_step_cases:
  assumes "thread_agent (job_thread j) = n" and "sh_heap s n = Some a"
  obtains b w where "job_step P g j s = Inr (store n b w s)" "enb_id b = enb_id a" "ops b = ops a"
proof -
  have c: "enb_id b = enb_id a \<and> ops b = ops a" if "net_connected a w = (r, b, v)" for r w b v
    using that by (auto simp: net_connected_def agent_add_task_def Let_def split: prod.splits option.splits if_splits)
  show thesis
  proof (cases j)
    case (SchedPass m)
    obtain r b w where e: "sched_consume P g a (sh_env s) = (r, b, w)" by (rule prod_cases3)
    with SchedPass assms same_agent_consume [OF e] show thesis
      by (intro that [of b w]) (simp_all add: same_agent_def)
  next
    case (NetMessage m msg)
    obtain r b w where e: "net_process_message P g a msg (sh_env s) = (r, b, w)" by (rule prod_cases3)
    with NetMessage assms same_agent_message [OF e] show thesis
      by (intro that [of b w]) (simp_all add: same_agent_def)
  next
    case (NetUp m)
    obtain r b w where e: "net_connected a (sh_env s) = (r, b, w)" by (rule prod_cases3)
    with NetUp assms c [OF e] show thesis by (intro that [of b w]) simp_all
  next
    case (NetDown m)
    obtain b w where e: "agent_not_connected a (sh_env s) = (b, w)" by fastforce
    then have "enb_id b = enb_id a" "ops b = ops a"
      by (auto simp: agent_not_connected_def split: prod.splits)
    with NetDown assms e show thesis by (intro that [of b w]) simp_all
  qed
qed

lemma calls_inv_job:
  assumes "calls_inv s cs" and "job_thread j \<in> set (sh_threads s)"
  obtains n a b w where "job_step P g j s = Inr (store n b w s)" "sh_heap s n = Some a"
    "enb_id b = enb_id a" "ops b = ops a" "calls_inv (store n b w s) cs"
proof -
  let ?n = "thread_agent (job_thread j)"
  have b: "balanced (owned cs) (Idle 0) s" using assms(1) by (simp add: calls_inv_def)
  then have "?n \<in> dom (sh_heap s)"
    using assms(2) unfolding balanced_def by (meson image_subset_iff)
  then obtain a where a: "sh_heap s ?n = Some a" by blast
  obtain b' w where s: "job_step P g j s = Inr (store ?n b' w s)" "enb_id b' = enb_id a" "ops b' = ops a"
    using job_step_cases [OF refl a] by blast
  have "balanced (owned cs) (Idle 0) (store ?n b' w s)" by (rule store_ok [OF b a]) simp
  then show thesis
    using assms(1) a s by (intro that [of ?n b' w a]) (simp_all add: calls_inv_def)
qed

text \<open>Every reachable state; the only crash there can be is that of taking from an empty list.\<close>

fun sys_inv :: "sys \<Rightarrow> bool" where
  "sys_inv (Sys s cs) = calls_inv s cs"
| "sys_inv (Crashed x) = (x = WildPointer)"

lemma sys_inv_start: "sys_inv (sys_start w qss)"
  by (simp add: sys_start_def shared_start_def calls_inv_def balanced_def) (induction qss; simp)

lemma sys_inv_step:
  assumes "sys_step P g x y" and "sys_inv x"
  shows "sys_inv y"
  using assms
proof (induction rule: sys_step.induct)
  case (call_moves c s d t us vs)
  then show ?case using calls_inv_caller by simp
next
  case (call_crashes c s x us vs)
  from this(1) show ?case
    by (cases rule: caller_step_cases)
      (use call_crashes(2) pc_step_crash in \<open>auto simp: calls_inv_focus\<close>)
next
  case (job_done j s t cs)
  then have i: "calls_inv s cs" by simp
  show ?case
    by (rule calls_inv_job [OF i job_done(1), of P g]) (use job_done in auto)
next
  case (job_crashes j s x cs)
  then have i: "calls_inv s cs" by simp
  show ?case
    by (rule calls_inv_job [OF i job_crashes(1), of P g]) (use job_crashes in auto)
qed

lemma sys_inv_reach:
  assumes "(sys_step P g)\<^sup>*\<^sup>* (sys_start w qss) x"
  shows "sys_inv x"
  using assms by (induction rule: rtranclp_induct) (auto intro: sys_inv_start sys_inv_step)

end
