(* ===== verification/CallsAlone.thy ===== *)
theory CallsAlone
  imports CallsFacts CoreStart
begin

text \<open>
  A caller that is not interrupted: its steps together are the function of \<open>Core\<close>.
\<close>

section \<open>Running a call to its end\<close>

text \<open>Each step takes the call nearer to its end; what \<open>em_stop\<close> repeats, it repeats on a shorter list.\<close>

fun rank :: "pc \<Rightarrow> nat" where
  "rank (Idle r) = 0"
| "rank AtRunning = 1"
| "rank AtShut = 1"
| "rank (AtSend e m sz) = 1"
| "rank (AtDel e tid) = 1"
| "rank (AtHas e tid) = 1"
| "rank (AtConn e) = 1"
| "rank AtTake = 2"
| "rank AtStop = 3"
| "rank (AtFree n k) = 4"
| "rank (AtJoinNet n k) = 5"
| "rank (AtJoinSched n k) = 6"
| "rank (AtTell n k) = 7"
| "rank (AtTerm e) = 8"
| "rank (AtInsert n) = 9"
| "rank (AtHook n) = 10"
| "rank (AtNet n) = 11"
| "rank (AtSched n) = 12"
| "rank (AtAlloc e t ad port) = 13"
| "rank (AtFind e t ad port) = 14"
| "rank (AtStart e ops' ad port) = 15"

definition steps_left :: "pc \<Rightarrow> shared \<Rightarrow> nat" where
  "steps_left p s = 8 * length (sh_list s) + rank p"

lemma with_agent_Inr: "with_agent n s f = Inr y \<Longrightarrow> \<exists>a. sh_heap s n = Some a \<and> f a = Inr y"
  by (auto simp: with_agent_def split: option.splits)

lemma on_found_Inr:
  "on_found e s x f = Inr y \<Longrightarrow> x = Inr y \<or> (\<exists>n a. sh_heap s n = Some a \<and> f n a = Inr y)"
  by (auto simp: on_found_def split: sum.splits option.splits dest!: with_agent_Inr)

lemma pc_step_nearer:
  assumes "pc_step p s = Inr (q, t)" and "\<not> is_Idle p"
  shows "steps_left q t < steps_left p s"
proof -
  have "length (remove1 n (sh_list s)) \<le> length (sh_list s)" for n by (simp add: length_remove1)
  then show ?thesis
    using assms
    by (cases "(p, s)" rule: pc_step.cases)
      (auto simp: steps_left_def step_init_def step_alloc_def step_sched_def step_net_def step_hook_def
        step_join_sched_def step_join_net_def step_free_def step_send_def step_del_def Let_def less_Suc_eq_le
        split: prod.splits if_splits option.splits list.splits after.splits dest!: with_agent_Inr on_found_Inr)
qed

function run_call :: "pc \<Rightarrow> shared \<Rightarrow> crash + int \<times> shared" where
  "run_call p s =
     (if is_Idle p then Inr (returned p, s)
      else case pc_step p s of
             Inl x \<Rightarrow> Inl x
           | Inr y \<Rightarrow> run_call (fst y) (snd y))"
  by auto

termination
  by (relation "measure (\<lambda>(p, s). steps_left p s)") (auto intro: pc_step_nearer)

declare run_call.simps [simp del]

lemma run_call_Idle [simp]: "run_call (Idle r) s = Inr (r, s)"
  by (subst run_call.simps) simp

lemma run_call_step:
  assumes "pc_step p s = Inr (q, t)"
  shows "run_call p s = run_call q t"
proof (cases "is_Idle p")
  case True
  then show ?thesis using assms by (cases p) auto
next
  case False
  then show ?thesis using assms by (subst run_call.simps) simp
qed

text \<open>An uninterrupted call keeps the invariant.\<close>

lemma run_call_balanced:
  assumes "run_call p s = Inr (r, t)" and "balanced R p s"
  shows "balanced R (Idle r) t"
  using assms
proof (induction p s rule: run_call.induct)
  case (1 p s)
  show ?case
  proof (cases "is_Idle p")
    case True
    then show ?thesis using 1(2,3) by (cases p) auto
  next
    case False
    show ?thesis
    proof (cases "pc_step p s")
      case (Inl x)
      then show ?thesis using 1(2) False by (subst (asm) run_call.simps) simp
    next
      case (Inr y)
      then have y: "pc_step p s = Inr (fst y, snd y)" by simp
      have "balanced R (fst y) (snd y)" using pc_step_ok [OF 1(3) y] by blast
      moreover have "run_call (fst y) (snd y) = Inr (r, t)" using 1(2) run_call_step [OF y] by simp
      ultimately show ?thesis using 1(1) [OF False Inr] by blast
    qed
  qed
qed

section \<open>What the shared state stands for\<close>

definition abs_core :: "shared \<Rightarrow> core" where
  "abs_core s = \<lparr>core_init = sh_init s, core_agents = map (\<lambda>n. the (sh_heap s n)) (sh_list s)\<rparr>"

fun api :: "request \<Rightarrow> core \<Rightarrow> env \<Rightarrow> int \<times> core \<times> env" where
  "api (AskStart e t ad port) c w = em_start e t ad port c w"
| "api (AskTerminate e) c w = em_terminate_agent e c w"
| "api AskStop c w = em_stop c w"
| "api (AskSend e m sz) c w = em_send e m sz c w"
| "api (AskDelTrigger e tid) c w = em_del_trigger e tid c w"
| "api (AskHasTrigger e tid) c w = (em_has_trigger e tid c, c, w)"
| "api (AskIsConnected e) c w = (em_is_connected e c, c, w)"

text \<open>Searching the list of addresses is searching the list of agents.\<close>

lemma on_found_abs:
  assumes "balanced R p s"
  obtains (none) "on_found e s x f = x" "find_agent e (core_agents (abs_core s)) = None"
    | (some) n a where "on_found e s x f = f n a" "sh_heap s n = Some a" "enb_id a = e"
        "n \<in> set (sh_list s)" "find_agent e (core_agents (abs_core s)) = Some a"
        "\<And>b w. abs_core (store n b w s)
          = abs_core s\<lparr>core_agents := put_agent e b (core_agents (abs_core s))\<rparr>"
        "abs_core (s\<lparr>sh_list := remove1 n (sh_list s)\<rparr>)
          = abs_core s\<lparr>core_agents := delete_first (\<lambda>a. enb_id a = e) (core_agents (abs_core s))\<rparr>"
  using assms
proof (cases rule: on_found_cases [of _ _ _ e x f])
  case none
  have "\<forall>n \<in> set (sh_list s). \<exists>a. sh_heap s n = Some a" using balanced_owner(2) [OF assms] by blast
  then show thesis
    using none that(1) by (force simp: abs_core_def find_agent_def find_None_iff)
next
  case (some n a us vs)
  let ?g = "\<lambda>n. the (sh_heap s n)"
  have d: "n \<notin> set us" "n \<notin> set vs" using balanced_distinct(1) [OF assms] some(4) by auto
  have u: "enb_id (?g x) \<noteq> e" if x: "x \<in> set us" for x
  proof -
    obtain b where "sh_heap s x = Some b" using balanced_owner(2) [OF assms, of x] x some(4) by auto
    then show ?thesis using some(5) [OF x] by simp
  qed
  then have u': "\<forall>y \<in> set (map ?g us). enb_id y \<noteq> e" by simp
  have c: "core_agents (abs_core s) = map ?g us @ a # map ?g vs"
    using some(2,4) by (simp add: abs_core_def)
  have f: "find_agent e (core_agents (abs_core s)) = Some a"
    unfolding c using u some(3) by (induction us) (simp_all add: find_agent_def)
  have p: "put_agent e b (core_agents (abs_core s)) = map ?g us @ b # map ?g vs" for b
    unfolding c using u some(3) by (induction us) simp_all
  have "map (\<lambda>x. the (((sh_heap s)(n \<mapsto> b)) x)) (sh_list s) = map ?g us @ b # map ?g vs" for b
    unfolding some(4) using d by (auto intro!: map_cong)
  then have P: "abs_core (store n b w s)
      = abs_core s\<lparr>core_agents := put_agent e b (core_agents (abs_core s))\<rparr>" for b w
    unfolding p by (simp add: abs_core_def fun_upd_def)
  have "delete_first (\<lambda>a. enb_id a = e) (core_agents (abs_core s)) = map ?g us @ map ?g vs"
    unfolding c by (rule delete_first_split [OF u' some(3)])
  also have "\<dots> = map ?g (remove1 n (sh_list s))" using d by (simp add: some(4) remove1_append)
  finally have D: "abs_core (s\<lparr>sh_list := remove1 n (sh_list s)\<rparr>)
      = abs_core s\<lparr>core_agents := delete_first (\<lambda>a. enb_id a = e) (core_agents (abs_core s))\<rparr>"
    by (simp add: abs_core_def)
  have "n \<in> set (sh_list s)" by (simp add: some(4))
  with P D f show thesis by (intro that(2) [OF some(1-3)]) blast+
qed

lemma abs_core_store: "n \<notin> set (sh_list s) \<Longrightarrow> abs_core (store n a w s) = abs_core s"
  by (auto simp: abs_core_def intro!: map_cong)

lemma abs_core_simps [simp]:
  "abs_core (s\<lparr>sh_env := w\<rparr>) = abs_core s" "abs_core (s\<lparr>sh_next := n\<rparr>) = abs_core s"
  "abs_core (s\<lparr>sh_threads := ts\<rparr>) = abs_core s"
  "core_init (abs_core s) = sh_init s"
  by (simp_all add: abs_core_def)

section \<open>Releasing and stopping\<close>

text \<open>The last four steps of a release are \<open>core_release_agent\<close>; only that agent and the threads change.\<close>

definition forget :: "nat \<Rightarrow> env \<Rightarrow> shared \<Rightarrow> shared" where
  "forget n w s = s\<lparr>sh_heap := (sh_heap s)(n := None), sh_env := w,
     sh_threads := filter (\<lambda>t. t \<noteq> NetThread n) (filter (\<lambda>t. t \<noteq> SchedThread n) (sh_threads s))\<rparr>"

fun resume :: "after \<Rightarrow> pc" where
  "resume (ThenReturn r) = Idle r"
| "resume ThenStop = AtStop"

lemma run_join:
  assumes "sh_heap s n = Some a"
  shows "run_call (AtJoinSched n k) s
    = run_call (resume k) (forget n (snd (core_release_agent a (sh_env s))) s)"
proof -
  obtain r1 ctx1 w1 where 1: "sched_stop (sched a) (sh_env s) = (r1, ctx1, w1)" by (rule prod_cases3)
  obtain r2 ctx2 w2 where 2: "net_stop (net a) w1 = (r2, ctx2, w2)" by (rule prod_cases3)
  obtain ctx3 w3 where 3: "trig_flush (trig a) w2 = (ctx3, w3)" by fastforce
  have b: "(case k of ThenReturn r \<Rightarrow> Idle r | ThenStop \<Rightarrow> AtStop) = resume k" by (cases k) simp_all
  define u where "u = snd (step_join_sched n k s a)"
  define v where "v = snd (step_join_net n k u (a\<lparr>sched := ctx1\<rparr>))"
  have u: "sh_heap u n = Some (a\<lparr>sched := ctx1\<rparr>)" "sh_env u = w1"
    using 1 by (simp_all add: u_def step_join_sched_def)
  have v: "sh_heap v n = Some (a\<lparr>sched := ctx1, net := ctx2\<rparr>)" "sh_env v = w2"
    using 2 u by (simp_all add: v_def step_join_net_def)
  have f: "forget n (snd (core_release_agent a (sh_env s))) s = v\<lparr>sh_heap := (sh_heap v)(n := None), sh_env := w3\<rparr>"
    using 1 2 3 u by (simp add: core_release_agent_def forget_def v_def u_def step_join_sched_def
        step_join_net_def store_def)
  have "run_call (AtJoinSched n k) s = run_call (AtJoinNet n k) u"
    by (rule run_call_step) (use assms 1 in \<open>simp add: u_def step_join_sched_def\<close>)
  also have "\<dots> = run_call (AtFree n k) v"
    by (rule run_call_step) (use u 2 in \<open>simp add: v_def step_join_net_def\<close>)
  also have "\<dots> = run_call (resume k) (v\<lparr>sh_heap := (sh_heap v)(n := None), sh_env := w3\<rparr>)"
    by (rule run_call_step) (use v 3 in \<open>simp add: step_free_def b\<close>)
  finally show ?thesis unfolding f .
qed

lemma run_tell:
  assumes "sh_heap s n = Some a"
  shows "run_call (AtTell n k) s
    = run_call (resume k) (forget n (snd (core_release_agent a (tell_release a (sh_env s)))) s)"
proof -
  have "run_call (AtTell n k) s = run_call (AtJoinSched n k) (s\<lparr>sh_env := tell_release a (sh_env s)\<rparr>)"
    by (rule run_call_step) (simp add: assms)
  then show ?thesis using run_join [of "s\<lparr>sh_env := tell_release a (sh_env s)\<rparr>" n a k] assms
    by (simp add: forget_def)
qed

lemma forget_simps [simp]:
  "sh_list (forget n w s) = sh_list s" "sh_env (forget n w s) = w" "sh_init (forget n w s) = sh_init s"
  "sh_heap (forget n w s) = (sh_heap s)(n := None)"
  by (simp_all add: forget_def)

lemma abs_core_forget: "n \<notin> set (sh_list s) \<Longrightarrow> abs_core (forget n w s) = abs_core s"
  by (auto simp: abs_core_def intro!: map_cong)

lemma run_stop:
  assumes "distinct (sh_list s)" and "\<forall>n \<in> set (sh_list s). sh_heap s n \<noteq> None"
  shows "\<exists>t. run_call AtStop s = run_call AtShut t \<and> sh_list t = [] \<and> sh_init t = sh_init s
    \<and> sh_env t = release_all (core_agents (abs_core s)) (sh_env s)"
  using assms
proof (induction "sh_list s" arbitrary: s)
  case Nil
  then have "run_call AtStop s = run_call AtShut s" by (intro run_call_step) simp
  then show ?case using Nil by (auto simp: abs_core_def)
next
  case (Cons n ns)
  then have l: "sh_list s = n # ns" by simp
  with Cons(4) obtain a where a: "sh_heap s n = Some a" by auto
  let ?s = "s\<lparr>sh_list := ns\<rparr>"
  let ?t = "forget n (snd (core_release_agent a (tell_release a (sh_env s)))) ?s"
  have "run_call AtStop s = run_call AtTake s" by (rule run_call_step) (simp add: l)
  also have "\<dots> = run_call (AtTell n ThenStop) ?s" by (rule run_call_step) (simp add: l a)
  also have "\<dots> = run_call AtStop ?t" using run_tell [of ?s n a ThenStop] a by simp
  finally have r: "run_call AtStop s = run_call AtStop ?t" .
  have "core_agents (abs_core ?t) = core_agents (abs_core ?s)"
    using Cons(3) l by (subst abs_core_forget) simp_all
  then have c: "core_agents (abs_core s) = a # core_agents (abs_core ?t)"
    using a l by (simp add: abs_core_def)
  from Cons(1) [of ?t] Cons(3,4) obtain u where
    "run_call AtStop ?t = run_call AtShut u" "sh_list u = []" "sh_init u = sh_init s"
    "sh_env u = release_all (core_agents (abs_core ?t)) (sh_env ?t)"
    unfolding l by force
  then show ?case unfolding r c by (auto simp: split_beta)
qed

section \<open>Starting\<close>

text \<open>The last steps of \<open>em_start\<close>: give the agent up, or enter it, and the hook that decides.\<close>

lemma run_release:
  assumes "sh_heap x n = Some b" and "n \<notin> set (sh_list x)"
  shows "\<exists>u. run_call (AtJoinSched n (ThenReturn k)) x = Inr (k, u) \<and> abs_core u = abs_core x
    \<and> sh_env u = snd (core_release_agent b (sh_env x))"
  using run_join [OF assms(1), of "ThenReturn k"] abs_core_forget [OF assms(2)] by simp

lemma run_insert:
  assumes "sh_heap x n = Some b"
  shows "\<exists>u. run_call (AtInsert n) x = Inr (0, u) \<and> sh_env u = sh_env x
    \<and> abs_core u = abs_core x\<lparr>core_agents := b # core_agents (abs_core x)\<rparr>"
proof -
  have "run_call (AtInsert n) x = run_call (Idle 0) (x\<lparr>sh_list := n # sh_list x\<rparr>)"
    by (rule run_call_step) (simp add: assms)
  then show ?thesis using assms by (simp add: abs_core_def)
qed

lemma run_hook:
  assumes "sh_heap x n = Some b" and "n \<notin> set (sh_list x)" and "ops b = Some t" and "enb_id b = e"
  shows "\<exists>r u. run_call (AtHook n) x = Inr (r, u) \<and> (r, abs_core u, sh_env u) =
    (let c = abs_core x\<lparr>core_agents := b # core_agents (abs_core x)\<rparr> in
     case op_init t of
       None \<Rightarrow> (0, c, sh_env x)
     | Some k \<Rightarrow> if k < 0 then (k, abs_core x, snd (core_release_agent b (call e CbInit (sh_env x))))
         else (0, c, call e CbInit (sh_env x)))"
proof (cases "op_init t")
  case None
  have "run_call (AtHook n) x = run_call (AtInsert n) x"
    by (rule run_call_step) (simp add: assms step_hook_def None)
  then show ?thesis using run_insert [OF assms(1)] None by auto
next
  case (Some k)
  let ?x = "x\<lparr>sh_env := call e CbInit (sh_env x)\<rparr>"
  have h: "run_call (AtHook n) x = run_call (if k < 0 then AtJoinSched n (ThenReturn k) else AtInsert n) ?x"
    by (rule run_call_step) (simp add: assms step_hook_def Some)
  show ?thesis
    using run_release [of ?x n b k] run_insert [of ?x n b] assms(1,2) h Some by auto
qed

lemma run_alloc:
  assumes "sh_next s \<notin> set (sh_list s)" and "start_new e t ad port (abs_core s) (sh_env s) = (r, c, v)"
  shows "\<exists>u. run_call (AtAlloc e t ad port) s = Inr (r, u) \<and> abs_core u = c \<and> sh_env u = v"
proof -
  let ?n = "sh_next s"
  obtain ok w1 where m: "malloc (sh_env s) = (ok, w1)" by fastforce
  obtain a w2 where a: "new_agent e t ad port w1 = (a, w2)" by fastforce
  obtain q1 ctx1 w3 where s: "sched_start e (sched a) w2 = (q1, ctx1, w3)" by (rule prod_cases3)
  obtain q2 ctx2 w4 where n: "net_start e (net a) w3 = (q2, ctx2, w4)" by (rule prod_cases3)
  let ?b = "a\<lparr>sched := ctx1, net := ctx2\<rparr>"
  have ea: "enb_id a = e" "ops a = Some t" using a by (auto simp: new_agent_eq base_agent_def)
  note defs = start_new_def m a s n Let_def
  define u1 where "u1 = store ?n a w2 s\<lparr>sh_next := Suc ?n\<rparr>"
  have u1: "sh_heap u1 ?n = Some a" "sh_env u1 = w2" "sh_list u1 = sh_list s" "abs_core u1 = abs_core s"
    using abs_core_store [OF assms(1)] by (simp_all add: u1_def)
  have r1: "run_call (AtAlloc e t ad port) s = run_call (AtSched ?n) u1" if ok
    by (rule run_call_step) (simp add: step_alloc_def m a u1_def that)
  define u2 where "u2 = store ?n (a\<lparr>sched := ctx1\<rparr>) w3 u1\<lparr>sh_threads := SchedThread ?n # sh_threads u1\<rparr>"
  have u2: "sh_heap u2 ?n = Some (a\<lparr>sched := ctx1\<rparr>)" "sh_env u2 = w3" "sh_list u2 = sh_list s"
    "abs_core u2 = abs_core s"
    using u1 abs_core_store [of ?n u1] assms(1) by (simp_all add: u2_def)
  have r2: "run_call (AtSched ?n) u1 = run_call (AtNet ?n) u2" if "q1 = 0"
    by (rule run_call_step) (simp add: u1 step_sched_def s ea that u2_def)
  consider (1) "\<not> ok" | (2) "ok" "q1 \<noteq> 0" | (3) "ok" "q1 = 0" "q2 \<noteq> 0" | (4) "ok" "q1 = 0" "q2 = 0" by blast
  then show ?thesis
  proof cases
    case 1
    then have "run_call (AtAlloc e t ad port) s = run_call (Idle (- 1)) (s\<lparr>sh_env := w1\<rparr>)"
      by (intro run_call_step) (simp add: step_alloc_def m)
    then show ?thesis using assms(2) 1 by (simp add: defs)
  next
    case 2
    let ?x = "store ?n (a\<lparr>sched := ctx1\<rparr>)
        (EMLOG (Some e) ''em_start'' ''Failed to start the scheduler context'' w3) u1"
    have "run_call (AtSched ?n) u1 = run_call (AtJoinSched ?n (ThenReturn (- 1))) ?x"
      by (rule run_call_step) (simp add: u1 step_sched_def s 2 ea)
    then show ?thesis
      using assms r1 [OF 2(1)] 2 run_release [of ?x ?n "a\<lparr>sched := ctx1\<rparr>" "- 1"] u1 abs_core_store [of ?n u1]
      by (auto simp: defs split_beta)
  next
    case 3
    let ?x = "store ?n ?b (EMLOG (Some e) ''em_start'' ''Failed to start the network context'' w4) u2"
    have "run_call (AtNet ?n) u2 = run_call (AtJoinSched ?n (ThenReturn (- 1))) ?x"
      by (rule run_call_step) (simp add: u2 step_net_def n 3 ea)
    then show ?thesis
      using assms r1 r2 3 run_release [of ?x ?n ?b "- 1"] u2 abs_core_store [of ?n u2]
      by (auto simp: defs split_beta)
  next
    case 4
    define u3 where "u3 = store ?n ?b w4 u2\<lparr>sh_threads := NetThread ?n # sh_threads u2\<rparr>"
    have u3: "sh_heap u3 ?n = Some ?b" "sh_env u3 = w4" "?n \<notin> set (sh_list u3)" "abs_core u3 = abs_core s"
      using u2 abs_core_store [of ?n u2] assms(1) by (simp_all add: u3_def)
    have "run_call (AtNet ?n) u2 = run_call (AtHook ?n) u3"
      by (rule run_call_step) (simp add: u2 step_net_def n 4 ea u3_def)
    then have "run_call (AtAlloc e t ad port) s = run_call (AtHook ?n) u3" using 4 r1 r2 by simp
    with run_hook [OF u3(1,3), of t e] show ?thesis
      using assms(2) 4 ea u3(2,4) by (auto simp: defs split_beta split: option.splits if_splits)
  qed
qed

section \<open>Every call\<close>

lemma run_start:
  assumes "balanced R (Idle 0) s" and "em_start e ops' ad port (abs_core s) (sh_env s) = (r, c, v)"
  shows "\<exists>u. run_call (AtStart e ops' ad port) s = Inr (r, u) \<and> abs_core u = c \<and> sh_env u = v"
proof (cases ops')
  case None
  have "run_call (AtStart e ops' ad port) s = run_call (Idle (- 1)) s"
    by (rule run_call_step) (simp add: None)
  then show ?thesis using assms(2) by (simp add: None em_start_def)
next
  case (Some t)
  obtain q i w where ci: "core_initialize \<lparr>core_init = sh_init s, core_agents = []\<rparr> (sh_env s) = (q, i, w)"
    by (rule prod_cases3)
  define s1 where "s1 = s\<lparr>sh_init := core_init i, sh_env := w\<rparr>"
  have ci': "core_initialize (abs_core s) (sh_env s) = (q, abs_core s1, w)"
    using ci by (auto simp: core_initialize_def abs_core_def s1_def Let_def split: if_splits prod.splits)
  have b: "balanced R (AtFind e t ad port) s1" using assms(1) by (simp add: balanced_def s1_def)
  have n: "sh_next s1 \<notin> set (sh_list s1)"
  proof
    assume "sh_next s1 \<in> set (sh_list s1)"
    then have "sh_next s1 \<in> dom (sh_heap s1)" using balanced_owner(2) [OF b] by blast
    then show False using b unfolding balanced_def by (meson less_irrefl)
  qed
  have r: "run_call (AtStart e ops' ad port) s = run_call (AtFind e t ad port) s1"
    by (rule run_call_step) (simp add: Some step_init_def ci s1_def)
  have e: "sh_env s1 = w" by (simp add: s1_def)
  show ?thesis
    using b
  proof (cases rule: on_found_abs [of _ _ _ e "Inr (AtAlloc e t ad port, s1)" "\<lambda>n a. Inr (AtRunning, s1)"])
    case none
    have "run_call (AtFind e t ad port) s1 = run_call (AtAlloc e t ad port) s1"
      by (rule run_call_step) (simp add: none)
    moreover have "start_new e t ad port (abs_core s1) (sh_env s1) = (r, c, v)"
      using assms(2) none(2) by (simp add: Some em_start_eq ci' e)
    ultimately show ?thesis using run_alloc [OF n] r by simp
  next
    case (some n a)
    let ?w = "EMLOG None ''em_start'' ''Agent eNB %d is already running...'' w"
    have "run_call (AtFind e t ad port) s1 = run_call AtRunning s1"
      by (rule run_call_step) (simp add: some)
    also have "\<dots> = run_call (Idle (- 1)) (s1\<lparr>sh_env := ?w\<rparr>)"
      by (rule run_call_step) (simp add: e)
    finally show ?thesis using assms(2) some(5) r by (auto simp: Some em_start_eq ci')
  qed
qed

lemma run_terminate:
  assumes "balanced R (Idle 0) s" and "em_terminate_agent e (abs_core s) (sh_env s) = (r, c, v)"
  shows "\<exists>u. run_call (AtTerm e) s = Inr (r, u) \<and> abs_core u = c \<and> sh_env u = v"
  using assms(1)
proof (cases rule: on_found_abs [of _ _ _ e "Inr (Idle 0, s)"
      "\<lambda>n a. Inr (AtTell n (ThenReturn 0), s\<lparr>sh_list := remove1 n (sh_list s)\<rparr>)"])
  case none
  have "run_call (AtTerm e) s = run_call (Idle 0) s" by (rule run_call_step) (simp add: none)
  then show ?thesis using assms(2) none(2) by (simp add: em_terminate_agent_def)
next
  case (some n a)
  let ?s = "s\<lparr>sh_list := remove1 n (sh_list s)\<rparr>"
  have "distinct (sh_list s)" using balanced_distinct(1) [OF assms(1)] by simp
  then have n: "n \<notin> set (sh_list ?s)" by simp
  have "run_call (AtTerm e) s = run_call (AtTell n (ThenReturn 0)) ?s"
    by (rule run_call_step) (simp add: some(1))
  also have "\<dots> = Inr (0, forget n (snd (core_release_agent a (tell_release a (sh_env s)))) ?s)"
    using run_tell [of ?s n a "ThenReturn 0"] some(2) by simp
  finally show ?thesis
    using assms(2) some(5,7) abs_core_forget [OF n] by (auto simp: em_terminate_agent_def split_beta)
qed

lemma run_send:
  assumes "balanced R (Idle 0) s" and "em_send e msg sz (abs_core s) (sh_env s) = (r, c, v)"
  shows "\<exists>u. run_call (AtSend e msg sz) s = Inr (r, u) \<and> abs_core u = c \<and> sh_env u = v"
proof (cases "msg = None \<or> sz = 0")
  case True
  have "run_call (AtSend e msg sz) s = run_call (Idle (- 1)) s"
    by (rule run_call_step) (use True in \<open>auto split: option.splits\<close>)
  then show ?thesis using assms(2) True by (auto simp: em_send_def split: option.splits)
next
  case False
  then obtain m where m: "msg = Some m" "sz \<noteq> 0" by auto
  from assms(1) show ?thesis
  proof (cases rule: on_found_abs [of _ _ _ e "Inr (Idle (- 1), s)" "\<lambda>n a. Inr (step_send m sz s n a)"])
    case none
    have "run_call (AtSend e msg sz) s = run_call (Idle (- 1)) s"
      by (rule run_call_step) (simp add: m none)
    then show ?thesis using assms(2) m none(2) by (auto simp: em_send_def)
  next
    case (some n a)
    obtain q b w where cs: "core_send a m sz (sh_env s) = (q, b, w)" by (rule prod_cases3)
    have "run_call (AtSend e msg sz) s = run_call (Idle q) (store n b w s)"
      by (rule run_call_step) (simp add: m some(1), simp add: step_send_def cs)
    then show ?thesis using assms(2) m some(5,6) cs by (auto simp: em_send_def)
  qed
qed

lemma run_del:
  assumes "balanced R (Idle 0) s" and "em_del_trigger e tid (abs_core s) (sh_env s) = (r, c, v)"
  shows "\<exists>u. run_call (AtDel e tid) s = Inr (r, u) \<and> abs_core u = c \<and> sh_env u = v"
  using assms(1)
proof (cases rule: on_found_abs [of _ _ _ e "Inr (Idle 0, s)" "\<lambda>n a. Inr (step_del tid s n a)"])
  case none
  have "run_call (AtDel e tid) s = run_call (Idle 0) s"
    by (rule run_call_step) (simp add: none)
  then show ?thesis using assms(2) none(2) by (auto simp: em_del_trigger_def)
next
  case (some n a)
  obtain q ctx w where cs: "trig_del_by_id (trig a) tid (sh_env s) = (q, ctx, w)" by (rule prod_cases3)
  have "run_call (AtDel e tid) s = run_call (Idle 0) (store n (a\<lparr>trig := ctx\<rparr>) w s)"
    by (rule run_call_step) (simp add: some(1), simp add: step_del_def cs)
  then show ?thesis using assms(2) some(5,6) cs by (auto simp: em_del_trigger_def)
qed

text \<open>Calls that only look.\<close>

lemma run_look:
  assumes "balanced R (Idle 0) s"
    and "pc_step p s = on_found e s (Inr (Idle 0, s)) (\<lambda>n a. Inr (Idle (f a), s))"
  shows "run_call p s
    = Inr (case find_agent e (core_agents (abs_core s)) of None \<Rightarrow> 0 | Some a \<Rightarrow> f a, s)"
  using assms(1)
proof (cases rule: on_found_abs [of _ _ _ e "Inr (Idle 0, s)" "\<lambda>n a. Inr (Idle (f a), s)"])
  case none
  then show ?thesis using run_call_step [of p s "Idle 0" s] assms(2) by simp
next
  case (some n a)
  then show ?thesis using run_call_step [of p s "Idle (f a)" s] assms(2) by simp
qed

lemma run_shut:
  assumes "balanced R (Idle 0) s" and "em_stop (abs_core s) (sh_env s) = (r, c, v)"
  shows "\<exists>u. run_call AtStop s = Inr (r, u) \<and> abs_core u = c \<and> sh_env u = v"
proof -
  have "distinct (sh_list s)" "\<forall>n \<in> set (sh_list s). sh_heap s n \<noteq> None"
    using balanced_distinct(1) [OF assms(1)] balanced_owner(2) [OF assms(1)] by auto
  then obtain t where t: "run_call AtStop s = run_call AtShut t" "sh_list t = []" "sh_init t = sh_init s"
    "sh_env t = release_all (core_agents (abs_core s)) (sh_env s)" using run_stop by blast
  let ?w = "log_release (EMLOG None ''em_stop'' ''Core shut down'' (sh_env t))"
  have "run_call AtShut t = run_call (Idle 0) (t\<lparr>sh_env := ?w\<rparr>)" by (rule run_call_step) simp
  then show ?thesis using t assms(2) by (auto simp: em_stop_def abs_core_def)
qed

lemma run_call_api:
  assumes "balanced R (Idle 0) s" and "api q (abs_core s) (sh_env s) = (r, c, v)"
  shows "\<exists>u. run_call (enter q) s = Inr (r, u) \<and> abs_core u = c \<and> sh_env u = v"
proof (cases q)
  case (AskHasTrigger e tid)
  have "run_call (AtHas e tid) s = Inr (em_has_trigger e tid (abs_core s), s)"
    unfolding em_has_trigger_def by (rule run_look [OF assms(1)]) simp
  then show ?thesis using assms(2) unfolding AskHasTrigger by auto
next
  case (AskIsConnected e)
  have "run_call (AtConn e) s = Inr (em_is_connected e (abs_core s), s)"
    unfolding em_is_connected_def by (rule run_look [OF assms(1)]) simp
  then show ?thesis using assms(2) unfolding AskIsConnected by auto
qed (use assms run_start run_terminate run_shut run_send run_del in auto)

end
