(* ===== verification/CallsRoles.thy ===== *)
theory CallsRoles
  imports CallsAlone
begin

text \<open>
  Rules for the users of the library.  Some interleavings of calls go wrong; they need two callers in
  the same role.  The locale \<open>single_role\<close> shows what holds when at most one caller has a role; it
  is interpreted for the callers that remove agents and for those that start them.
\<close>

section \<open>At most one caller in a role\<close>

text \<open>
  \<open>G\<close> is what holds of the shared state, \<open>L\<close> what holds of it because of where a caller stands.  The
  callers without the role must not disturb the \<open>L\<close> of the one that has it.
\<close>

locale single_role =
  fixes role :: "caller \<Rightarrow> bool"
    and G :: "shared \<Rightarrow> bool"
    and L :: "caller \<Rightarrow> shared \<Rightarrow> bool"
  assumes role_gone: "caller_step c s = Inr (d, t) \<Longrightarrow> \<not> role c \<Longrightarrow> \<not> role d"
    and roleless: "\<not> role c \<Longrightarrow> L c s"
    and own_move: "calls_inv s (us @ c # vs) \<Longrightarrow> G s \<Longrightarrow> L c s \<Longrightarrow> caller_step c s = Inr (d, t)
      \<Longrightarrow> G t \<and> L d t"
    and other_move: "calls_inv s (us @ c # vs) \<Longrightarrow> d \<in> set (us @ vs) \<Longrightarrow> \<not> role c \<Longrightarrow> L d s
      \<Longrightarrow> caller_step c s = Inr (e, t) \<Longrightarrow> L d t"
    and job_move: "calls_inv s cs \<Longrightarrow> sh_heap s n = Some a \<Longrightarrow> enb_id b = enb_id a \<Longrightarrow> G s
      \<Longrightarrow> G (store n b w s)"
    and job_other: "calls_inv s cs \<Longrightarrow> sh_heap s n = Some a \<Longrightarrow> enb_id b = enb_id a \<Longrightarrow> L c s
      \<Longrightarrow> L c (store n b w s)"
begin

fun role_inv :: "sys \<Rightarrow> bool" where
  "role_inv (Sys s cs) \<longleftrightarrow>
     calls_inv s cs \<and> G s \<and> (\<forall>c \<in> set cs. L c s) \<and> length (filter role cs) \<le> 1"
| "role_inv (Crashed x) \<longleftrightarrow> True"

lemma role_inv_caller:
  assumes "role_inv (Sys s (us @ c # vs))" and m: "caller_step c s = Inr (d, t)"
  shows "role_inv (Sys t (us @ d # vs))"
proof -
  have i: "calls_inv s (us @ c # vs)" "G s" "L c s" "\<And>d. d \<in> set (us @ vs) \<Longrightarrow> L d s"
    "length (filter role (us @ c # vs)) \<le> 1"
    using assms(1) by auto
  have o: "L e t" if e: "e \<in> set (us @ vs)" for e
  proof (cases "role c")
    case True
    then have "filter role (us @ vs) = []" using i(5) by simp
    then have "\<not> role e" using e by (auto simp: filter_empty_conv)
    then show ?thesis by (rule roleless)
  next
    case False
    show ?thesis by (rule other_move [OF i(1) e False i(4) [OF e] m])
  qed
  have "length (filter role (us @ d # vs)) \<le> 1" using i(5) role_gone [OF m] by (auto split: if_splits)
  then show ?thesis
    using calls_inv_caller [OF i(1) m] own_move [OF i(1-3) m] o by auto
qed

lemma role_inv_step:
  assumes "sys_step P g x y" and "role_inv x"
  shows "role_inv y"
  using assms
proof (induction rule: sys_step.induct)
  case (call_moves c s d t us vs)
  then show ?case using role_inv_caller by blast
next
  case (job_done j s t cs)
  then have i: "calls_inv s cs" "G s" "\<forall>c \<in> set cs. L c s" by simp_all
  from job_done show ?case
    by (cases rule: calls_inv_job [OF i(1) job_done(1), of P g])
      (use i job_move job_other in auto)
qed simp_all

lemma role_inv_reach:
  assumes "(sys_step P g)\<^sup>*\<^sup>* x y" and "role_inv x"
  shows "role_inv y"
  using assms by (induction rule: rtranclp_induct) (auto intro: role_inv_step)

end

text \<open>A role whose holder cannot crash.\<close>

locale safe_role = single_role +
  assumes no_crash: "calls_inv s (us @ c # vs) \<Longrightarrow> L c s \<Longrightarrow> caller_step c s \<noteq> Inl x"
begin

fun safe_inv :: "sys \<Rightarrow> bool" where
  "safe_inv (Sys s cs) \<longleftrightarrow> role_inv (Sys s cs)"
| "safe_inv (Crashed x) \<longleftrightarrow> False"

lemma safe_inv_reach:
  assumes "(sys_step P g)\<^sup>*\<^sup>* x y" and "safe_inv x"
  shows "safe_inv y"
  using assms
proof (induction rule: rtranclp_induct)
  case (step y z)
  then obtain s cs where y: "y = Sys s cs" "role_inv (Sys s cs)" by (cases y) auto
  show ?case
  proof (cases z)
    case (Sys t ds)
    then show ?thesis using role_inv_step [OF step(2)] y by simp
  next
    case (Crashed x)
    from step(2) [unfolded y(1) Crashed] show ?thesis
    proof (cases rule: sys_step.cases)
      case (call_crashes c us vs)
      then show ?thesis using no_crash [of s us c vs] y(2) by auto
    next
      case (job_crashes j)
      then show ?thesis using calls_inv_job [of s cs j P g] y(2) by auto
    qed
  qed
qed

end

section \<open>What a step does to the list\<close>

lemma pc_step_list:
  assumes "pc_step p s = Inr (q, t)"
  shows "sh_list t = sh_list s
    \<or> (\<exists>n. p = AtInsert n \<and> sh_list t = n # sh_list s \<and> sh_heap t = sh_heap s)
    \<or> (\<exists>n. (p = AtTake \<or> (\<exists>e. p = AtTerm e)) \<and> sh_list t = remove1 n (sh_list s) \<and> sh_heap t = sh_heap s)"
  using assms
  by (cases "(p, s)" rule: pc_step.cases)
    (auto simp: step_init_def step_alloc_def step_sched_def step_net_def step_hook_def
      step_join_sched_def step_join_net_def step_free_def step_send_def step_del_def Let_def
      split: prod.splits if_splits option.splits list.splits after.splits dest!: with_agent_Inr on_found_Inr)

section \<open>Callers that remove agents\<close>

fun removes :: "request \<Rightarrow> bool" where
  "removes (AskTerminate e) = True"
| "removes AskStop = True"
| "removes _ = False"

fun removing :: "pc \<Rightarrow> bool" where
  "removing (AtTerm e) = True"
| "removing AtStop = True"
| "removing AtTake = True"
| "removing (AtTell n k) = (k = ThenStop)"
| "removing (AtJoinSched n k) = (k = ThenStop)"
| "removing (AtJoinNet n k) = (k = ThenStop)"
| "removing (AtFree n k) = (k = ThenStop)"
| "removing _ = False"

definition remover :: "caller \<Rightarrow> bool" where
  "remover c \<longleftrightarrow> removing (fst c) \<or> (\<exists>q \<in> set (snd c). removes q)"

lemma removing_enter [simp]: "removing (enter q) = removes q"
  by (cases q) auto

lemma pc_step_removing:
  assumes "pc_step p s = Inr (q, t)" and "\<not> removing p"
  shows "\<not> removing q"
  using assms
  by (cases "(p, s)" rule: pc_step.cases)
    (auto simp: step_init_def step_alloc_def step_sched_def step_net_def step_hook_def
      step_join_sched_def step_join_net_def step_free_def step_send_def step_del_def Let_def
      split: prod.splits if_splits option.splits list.splits after.splits dest!: with_agent_Inr on_found_Inr)

text \<open>Between its look at the list and its taking an agent, no one else empties the list.\<close>

definition sees_agent :: "caller \<Rightarrow> shared \<Rightarrow> bool" where
  "sees_agent c s \<longleftrightarrow> (fst c = AtTake \<longrightarrow> sh_list s \<noteq> [])"

lemma enter_not_take [simp]: "enter q \<noteq> AtTake"
  by (cases q) auto

lemma pc_step_take: "pc_step p s = Inr (AtTake, t) \<Longrightarrow> sh_list t \<noteq> []"
  by (cases "(p, s)" rule: pc_step.cases)
    (auto simp: step_init_def step_alloc_def step_sched_def step_net_def step_hook_def
      step_join_sched_def step_join_net_def step_free_def step_send_def step_del_def Let_def
      split: prod.splits if_splits option.splits list.splits after.splits dest!: with_agent_Inr on_found_Inr)

interpretation rm: safe_role remover "\<lambda>s. True" sees_agent
proof unfold_locales
  show "\<not> remover d" if "caller_step c s = Inr (d, t)" "\<not> remover c" for c s d t
    using that(1)
    by (cases rule: caller_step_cases) (use that(2) pc_step_removing in \<open>auto simp: remover_def\<close>)
  show "sees_agent c s" if "\<not> remover c" for c s
    using that by (auto simp: remover_def sees_agent_def)
  show "True \<and> sees_agent d t" if "caller_step c s = Inr (d, t)" "sees_agent c s" for c s d t
    using that(1)
    by (cases rule: caller_step_cases) (use that(2) pc_step_take in \<open>auto simp: sees_agent_def\<close>)
  show "sees_agent d t" if "\<not> remover c" "sees_agent d s" "caller_step c s = Inr (e, t)" for c d e s t
    using that(3)
    by (cases rule: caller_step_cases)
      (use that(1,2) pc_step_list in \<open>fastforce simp: sees_agent_def remover_def\<close>)+
  show "sees_agent c (store n b w s)" if "sees_agent c s" for c n b w s
    using that by (simp add: sees_agent_def)
  show "caller_step c s \<noteq> Inl x" if i: "calls_inv s (us @ c # vs)" and l: "sees_agent c s" for c s us vs x
  proof
    assume "caller_step c s = Inl x"
    then show False
      by (cases rule: caller_step_cases)
        (use i l pc_step_crash in \<open>auto simp: sees_agent_def calls_inv_focus\<close>)
  qed
qed simp_all

section \<open>Callers that start agents\<close>

fun starts :: "request \<Rightarrow> bool" where
  "starts (AskStart e t ad port) = True"
| "starts _ = False"

fun starting :: "pc \<Rightarrow> bool" where
  "starting (AtStart e t ad port) = True"
| "starting (AtFind e t ad port) = True"
| "starting (AtAlloc e t ad port) = True"
| "starting (AtSched n) = True"
| "starting (AtNet n) = True"
| "starting (AtHook n) = True"
| "starting (AtInsert n) = True"
| "starting _ = False"

definition starter :: "caller \<Rightarrow> bool" where
  "starter c \<longleftrightarrow> starting (fst c) \<or> (\<exists>q \<in> set (snd c). starts q)"

lemma starting_enter [simp]: "starting (enter q) = starts q"
  by (cases q) auto

lemma pc_step_starting:
  assumes "pc_step p s = Inr (q, t)" and "\<not> starting p"
  shows "\<not> starting q"
  using assms
  by (cases "(p, s)" rule: pc_step.cases)
    (auto simp: step_init_def step_alloc_def step_sched_def step_net_def step_hook_def
      step_join_sched_def step_join_net_def step_free_def step_send_def step_del_def Let_def
      split: prod.splits if_splits option.splits list.splits after.splits dest!: with_agent_Inr on_found_Inr)

text \<open>The ids in the list, and the id a caller is about to add to them.\<close>

definition ids :: "shared \<Rightarrow> u64 list" where
  "ids s = map (\<lambda>n. enb_id (the (sh_heap s n))) (sh_list s)"

fun new_id :: "pc \<Rightarrow> shared \<Rightarrow> u64 option" where
  "new_id (AtAlloc e t ad port) s = Some e"
| "new_id (AtSched n) s = map_option enb_id (sh_heap s n)"
| "new_id (AtNet n) s = map_option enb_id (sh_heap s n)"
| "new_id (AtHook n) s = map_option enb_id (sh_heap s n)"
| "new_id (AtInsert n) s = map_option enb_id (sh_heap s n)"
| "new_id _ s = None"

definition id_free :: "caller \<Rightarrow> shared \<Rightarrow> bool" where
  "id_free c s \<longleftrightarrow> (\<forall>e. new_id (fst c) s = Some e \<longrightarrow> e \<notin> set (ids s))"

lemma new_id_enter [simp]: "new_id (enter q) s = None"
  by (cases q) auto

lemma new_id_starting: "\<not> starting p \<Longrightarrow> new_id p s = None"
  by (cases p) auto

text \<open>No step changes the id of an agent that was there before it.\<close>

lemma core_send_id: "core_send a m sz w = (r, b, v) \<Longrightarrow> enb_id b = enb_id a"
  by (auto simp: core_send_def agent_add_task_def Let_def split: prod.splits option.splits)

lemma pc_step_id:
  assumes "pc_step p s = Inr (q, t)" and "balanced R p s"
    and "sh_heap s n = Some a" and "sh_heap t n = Some b"
  shows "enb_id b = enb_id a"
proof -
  have "sh_next s \<noteq> n" using assms(2,3) unfolding balanced_def by (metis domI less_irrefl)
  then show ?thesis
    using assms(1,3,4)
    by (cases "(p, s)" rule: pc_step.cases)
      (auto simp: step_init_def step_alloc_def step_sched_def step_net_def step_hook_def
        step_join_sched_def step_join_net_def step_free_def step_send_def step_del_def Let_def
        split: prod.splits if_splits option.splits list.splits after.splits
        dest!: with_agent_Inr on_found_Inr core_send_id)
qed

lemma pc_step_ids:
  assumes "pc_step p s = Inr (q, t)" and "balanced R p s"
  shows "(\<exists>n. sh_heap s n \<noteq> None \<and> p = AtInsert n \<and> ids t = enb_id (the (sh_heap s n)) # ids s)
    \<or> set (ids t) \<subseteq> set (ids s) \<and> (distinct (ids s) \<longrightarrow> distinct (ids t))"
proof -
  let ?g = "\<lambda>n. enb_id (the (sh_heap s n))"
  have b: "balanced R q t" using pc_step_ok [OF assms(2,1)] by blast
  have i: "ids t = map ?g (sh_list t)" if l: "set (sh_list t) \<subseteq> set (sh_list s)"
    unfolding ids_def
  proof (rule map_cong [OF refl])
    fix n assume n: "n \<in> set (sh_list t)"
    obtain x where x: "sh_heap t n = Some x" using balanced_owner(2) [OF b n] by blast
    obtain y where y: "sh_heap s n = Some y" using balanced_owner(2) [OF assms(2)] l n by blast
    show "enb_id (the (sh_heap t n)) = ?g n"
      using pc_step_id [OF assms y x] x y by simp
  qed
  from pc_step_list [OF assms(1)] consider "sh_list t = sh_list s"
    | n where "p = AtInsert n" "sh_list t = n # sh_list s" "sh_heap t = sh_heap s"
    | n where "sh_list t = remove1 n (sh_list s)" by blast
  then show ?thesis
  proof cases
    case l: 1
    then have "ids t = ids s" using i unfolding l by (simp only: order_refl ids_def [of s])
    then show ?thesis by simp
  next
    case n: (2 n)
    have "sh_heap s n \<noteq> None" using balanced_owner(1) [OF assms(2), of n] n(1) by auto
    then show ?thesis using n by (auto simp: ids_def)
  next
    case l: (3 n)
    have "distinct (sh_list s)" using balanced_distinct(1) [OF assms(2)] by simp
    then have r: "sh_list t = filter (\<lambda>x. x \<noteq> n) (sh_list s)" using l by (simp add: distinct_remove1_removeAll removeAll_filter_not_eq neq_commute)
    then show ?thesis using i unfolding r by (auto simp: ids_def distinct_map_filter)
  qed
qed

lemma ids_store: "sh_heap s n = Some a \<Longrightarrow> enb_id b = enb_id a \<Longrightarrow> ids (store n b w s) = ids s"
  by (auto simp: ids_def)

lemma new_agent_id: "new_agent e t ad port w = (a, v) \<Longrightarrow> enb_id a = e"
  by (auto simp: new_agent_eq base_agent_def)

lemma pc_step_new_id:
  assumes "pc_step p s = Inr (q, t)" and "balanced R p s" and "new_id q t = Some e"
  shows "p \<noteq> AtInsert n \<and> (new_id p s = Some e \<or> e \<notin> set (ids s))"
proof (cases "\<exists>e t ad port. p = AtFind e t ad port")
  case True
  then obtain f t' ad port where p: "p = AtFind f t' ad port" by blast
  show ?thesis
    using assms(2)
  proof (cases rule: on_found_cases [of _ _ _ f "Inr (AtAlloc f t' ad port, s)" "\<lambda>n a. Inr (AtRunning, s)"])
    case none
    then have "e = f" using assms(1,3) p by auto
    moreover have "f \<notin> set (ids s)"
      using none(2) balanced_owner(2) [OF assms(2)] unfolding ids_def by fastforce
    ultimately show ?thesis using p by simp
  next
    case (some n a)
    then show ?thesis using assms(1,3) p by auto
  qed
next
  case False
  then have f: "p \<noteq> AtFind e' t' ad port" for e' t' ad port by blast
  show ?thesis
    using assms(1,3) f
    by (cases "(p, s)" rule: pc_step.cases)
      (auto simp: step_init_def step_alloc_def step_sched_def step_net_def step_hook_def
        step_join_sched_def step_join_net_def step_free_def step_send_def step_del_def Let_def
        split: prod.splits if_splits option.splits list.splits after.splits
        dest!: with_agent_Inr on_found_Inr new_agent_id)
qed

text \<open>A caller that is not starting an agent leaves the new id of another alone.\<close>

lemma pc_step_other_new_id:
  assumes "pc_step p s = Inr (q, t)" and "balanced R p s" and "\<forall>n \<in> set (owns p'). n \<in># R"
  shows "new_id p' t = new_id p' s"
proof (cases "owns p'")
  case Nil
  then show ?thesis by (cases p') auto
next
  case (Cons n ns)
  then have n: "n \<in># R" using assms(3) by simp
  obtain a where a: "sh_heap s n = Some a" using balanced_owner(3) [OF assms(2) n] by blast
  have "balanced R q t" using pc_step_ok [OF assms(2,1)] by blast
  then obtain b where b: "sh_heap t n = Some b" using balanced_owner(3) n by blast
  have "enb_id b = enb_id a" by (rule pc_step_id [OF assms(1,2) a b])
  then show ?thesis using a b Cons by (cases p') auto
qed

interpretation st: single_role starter "\<lambda>s. distinct (ids s)" id_free
proof unfold_locales
  show "\<not> starter d" if "caller_step c s = Inr (d, t)" "\<not> starter c" for c s d t
    using that(1)
    by (cases rule: caller_step_cases) (use that(2) pc_step_starting in \<open>auto simp: starter_def\<close>)
  show "id_free c s" if "\<not> starter c" for c s
    using that new_id_starting by (auto simp: starter_def id_free_def)
  show "distinct (ids t) \<and> id_free d t"
    if i: "calls_inv s (us @ c # vs)" and g: "distinct (ids s)" and l: "id_free c s"
      and m: "caller_step c s = Inr (d, t)" for s us c vs d t
    using m
  proof (cases rule: caller_step_cases)
    case (move p qs q u)
    then have b: "balanced (owned (us @ vs)) p s" using i by (simp add: calls_inv_focus)
    from move(4) have d: "d = (q, qs)" "t = u" by simp_all
    note k = pc_step_ids [OF move(3) b]
    have f: "enb_id (the (sh_heap s n)) \<notin> set (ids s)" if "p = AtInsert n" "sh_heap s n \<noteq> None" for n
      using l that unfolding move(1) id_free_def by auto
    from k have "distinct (ids u)" by (elim disjE exE) (use f g in auto)
    moreover have "e \<notin> set (ids u)" if e: "new_id q u = Some e" for e
      using pc_step_new_id [OF move(3) b e] k l unfolding move(1) id_free_def by auto
    ultimately show ?thesis by (simp add: d id_free_def)
  qed (use g l in \<open>auto simp: id_free_def\<close>)
  show "id_free d t"
    if i: "calls_inv s (us @ c # vs)" and d: "d \<in> set (us @ vs)" and r: "\<not> starter c" and l: "id_free d s"
      and m: "caller_step c s = Inr (e, t)" for s us c vs d e t
    using m
  proof (cases rule: caller_step_cases)
    case (move p qs q u)
    then have b: "balanced (owned (us @ vs)) p s" using i by (simp add: calls_inv_focus)
    have "\<forall>n \<in> set (owns (fst d)). n \<in># owned (us @ vs)" using owned_member [OF d] by blast
    then have "new_id (fst d) u = new_id (fst d) s" by (rule pc_step_other_new_id [OF move(3) b])
    moreover have "set (ids u) \<subseteq> set (ids s)"
      using pc_step_ids [OF move(3) b] r move(1) by (auto simp: starter_def)
    ultimately show ?thesis using l move(4) by (auto simp: id_free_def)
  qed (use l in auto)
  show "distinct (ids (store n b w s))"
    if "sh_heap s n = Some a" "enb_id b = enb_id a" "distinct (ids s)" for s n a b w
    using that ids_store [OF that(1,2)] by simp
  show "id_free c (store n b w s)"
    if h: "sh_heap s n = Some a" "enb_id b = enb_id a" and l: "id_free c s" for s n a b w c
  proof -
    have "new_id (fst c) (store n b w s) = new_id (fst c) s" using h by (cases "fst c") auto
    then show ?thesis using l ids_store [OF h] by (simp add: id_free_def)
  qed
qed

end
