(* ===== verification/CallsProps.thy ===== *)
theory CallsProps
  imports CallsRoles
begin

text \<open>
  The properties of the public calls when several callers make them at once.
\<close>

section \<open>What holds in every interleaving\<close>

text \<open>What it takes to play a schedule.\<close>

lemmas play_defs = shared_start_def step_init_def core_initialize_def log_init_def Let_def on_found_def
  step_alloc_def malloc_def new_agent_eq step_sched_def sched_start_def pthread_create_def step_net_def
  net_start_def step_hook_def base_agent_def store_def ids_def
  step_join_sched_def sched_stop_def step_join_net_def net_stop_def step_free_def trig_flush_def pthread_join_def
  sched_loop_exit_def tell_release_def has_op_def
  with_agent_def trig_ctx_init_def call_def emit_def log_release_def

lemma calls_inv_start: "sys_start w qss = Sys s cs \<Longrightarrow> calls_inv s cs"
  using sys_inv_start [of w qss] by simp

text \<open>Where every caller is idle, the list owns all there is.\<close>

lemma calls_inv_quiet:
  assumes "calls_inv s cs" and "\<forall>c \<in> set cs. is_Idle (fst c)"
  shows "dom (sh_heap s) = set (sh_list s)"
proof -
  have "owned cs = {#}"
    using assms(2) by (induction cs) (auto simp: is_Idle_def)
  then have "mset (sh_list s) = mset_set (dom (sh_heap s))" and "finite (dom (sh_heap s))"
    using assms(1) by (simp_all add: calls_inv_def balanced_def)
  then show ?thesis by (metis finite_set_mset_mset_set set_mset_mset)
qed

text \<open>
  (C2) No use after free.  However the steps of any number of callers and of the threads of the
  agents interleave, no one uses an agent that was freed, the list never holds an agent twice or one
  that was freed, a thread runs only while its agent is there, and when all callers are done no agent
  is left outside the list.
\<close>

theorem calls_never_use_freed:
  assumes "(sys_step P g)\<^sup>*\<^sup>* (sys_start w qss) x"
  shows "case x of
      Crashed c \<Rightarrow> c \<noteq> UseAfterFree
    | Sys s cs \<Rightarrow> distinct (sh_list s) \<and> set (sh_list s) \<subseteq> dom (sh_heap s)
        \<and> thread_agent ` set (sh_threads s) \<subseteq> dom (sh_heap s)
        \<and> ((\<forall>c \<in> set cs. is_Idle (fst c)) \<longrightarrow> dom (sh_heap s) = set (sh_list s))"
proof (cases x)
  case (Sys s cs)
  then have i: "calls_inv s cs" using sys_inv_reach [OF assms] by simp
  then have b: "balanced (owned cs) (Idle 0) s" by (simp add: calls_inv_def)
  have "set (sh_list s) \<subseteq> dom (sh_heap s)" using balanced_owner(2) [OF b] by blast
  then show ?thesis
    using Sys balanced_distinct(1) [OF b] b calls_inv_quiet [OF i] by (simp add: balanced_def)
next
  case (Crashed c)
  then show ?thesis using sys_inv_reach [OF assms] by simp
qed

text \<open>
  An agent is started; another caller asks for it, and again while it is being terminated; it is freed,
  and a second agent is started.
\<close>

definition churn :: "request list list" where
  "churn = [[AskStart 5 (Some quiet_ops) [49] 2210, AskTerminate 5, AskStart 6 (Some quiet_ops) [49] 2210],
     [AskIsConnected 5, AskSend 5 (Some [1]) 1]]"

definition churn_steps :: "nat list" where
  "churn_steps = [0, 0, 0, 0, 0, 0, 0, 0, 1, 1, 0, 1, 0, 1, 0, 0, 0, 0, 0, 0, 0, 0, 0, 0, 0, 0]"

lemma churn_played:
  assumes "\<And>n. malloc_ok w n" and "\<And>n. thread_ok w n" and "\<And>n. fopen_ok w n"
  shows "\<exists>s. play churn_steps (shared_start w, map (Pair (Idle 0)) churn)
      = Inr (s, [(Idle 0, []), (Idle (- 1), [])]) \<and> sh_list s = [2]"
  by (simp add: churn_steps_def churn_def play_defs quiet_ops_def all_ops_def assms)

theorem calls_never_use_freed_witness:
  "\<exists>s. play churn_steps (shared_start demo_env, map (Pair (Idle 0)) churn)
      = Inr (s, [(Idle 0, []), (Idle (- 1), [])]) \<and> dom (sh_heap s) = {2}"
proof -
  obtain s where s: "play churn_steps (shared_start demo_env, map (Pair (Idle 0)) churn)
      = Inr (s, [(Idle 0, []), (Idle (- 1), [])])" "sh_list s = [2]"
    using churn_played [of demo_env] by (auto simp: demo_env_def)
  from calls_never_use_freed [OF play_from_start [OF s(1), of demo_proto demo_garbage]] s
  show ?thesis by simp
qed

lemma safe_start:
  assumes "length (filter (\<lambda>qs. \<exists>q \<in> set qs. removes q) qss) \<le> 1"
  shows "rm.safe_inv (sys_start w qss)"
proof -
  have "length (filter remover (map (Pair (Idle 0)) qss)) \<le> 1"
    using assms by (simp add: filter_map comp_def remover_def)
  moreover have "\<forall>c \<in> set (map (Pair (Idle 0)) qss). sees_agent c s" for s
    by (auto simp: sees_agent_def)
  ultimately show ?thesis
    using calls_inv_start [of w qss] unfolding sys_start_def rm.safe_inv.simps rm.role_inv.simps by blast
qed

text \<open>
  (C15) One caller that removes agents is safe.  If at most one caller ever calls
  \<open>em_terminate_agent\<close> or \<open>em_stop\<close>, then, whatever the others do and however the steps interleave, no
  one uses an agent that was freed and no one takes an agent from the empty list.  These are the two
  faults of agents; a message to a log that is not open and the joins of the error path of \<open>em_start\<close>,
  which can happen with one caller alone, are events of the trace and not what this is about.
\<close>

theorem single_remover_is_safe:
  assumes "(sys_step P g)\<^sup>*\<^sup>* (sys_start w qss) x"
    and "length (filter (\<lambda>qs. \<exists>q \<in> set qs. removes q) qss) \<le> 1"
  shows "x \<noteq> Crashed UseAfterFree \<and> x \<noteq> Crashed WildPointer"
  using rm.safe_inv_reach [OF assms(1) safe_start [OF assms(2)]] by auto

text \<open>
  One caller starts an agent and stops all; another looks for the agent just after it was taken out of
  the list, and sends to it while it is taken down.
\<close>

definition two_callers :: "request list list" where
  "two_callers = [[AskStart 5 (Some quiet_ops) [49] 2210, AskStop], [AskIsConnected 5, AskSend 5 (Some [1]) 1]]"

definition two_steps :: "nat list" where
  "two_steps = [0, 0, 0, 0, 0, 0, 0, 0, 0, 0, 1, 0, 1, 1, 0, 0, 1, 0, 0, 0, 0]"

lemma two_played:
  assumes "\<And>n. malloc_ok w n" and "\<And>n. thread_ok w n" and "\<And>n. fopen_ok w n"
  shows "\<exists>s. play two_steps (shared_start w, map (Pair (Idle 0)) two_callers)
      = Inr (s, [(Idle 0, []), (Idle (- 1), [])]) \<and> sh_list s = []"
  by (simp add: two_steps_def two_callers_def play_defs quiet_ops_def all_ops_def assms)

theorem single_remover_is_safe_witness:
  "(\<forall>is. sys_of (play is (shared_start demo_env, map (Pair (Idle 0)) two_callers)) \<noteq> Crashed WildPointer)
    \<and> (\<exists>s. play two_steps (shared_start demo_env, map (Pair (Idle 0)) two_callers)
        = Inr (s, [(Idle 0, []), (Idle (- 1), [])]) \<and> sh_list s = [])"
proof -
  have "length (filter (\<lambda>qs. \<exists>q \<in> set qs. removes q) two_callers) \<le> 1" by (simp add: two_callers_def)
  then show ?thesis
    using single_remover_is_safe [OF play_from_start [OF refl]]
      two_played [of demo_env] by (simp add: demo_env_def)
qed

lemma role_start:
  assumes "length (filter (\<lambda>qs. \<exists>q \<in> set qs. starts q) qss) \<le> 1"
  shows "st.role_inv (sys_start w qss)"
proof -
  have "length (filter starter (map (Pair (Idle 0)) qss)) \<le> 1"
    using assms by (simp add: filter_map comp_def starter_def)
  moreover have "\<forall>c \<in> set (map (Pair (Idle 0)) qss). id_free c s" for s
    by (auto simp: id_free_def)
  moreover have "ids (shared_start w) = []" by (simp add: ids_def shared_start_def)
  ultimately show ?thesis
    using calls_inv_start [of w qss] unfolding sys_start_def st.role_inv.simps by (metis distinct.simps(1))
qed

text \<open>
  (C16) One caller that starts agents keeps the ids apart.  If at most one caller ever calls
  \<open>em_start\<close>, no two agents in the list have the same id, in any interleaving.
\<close>

theorem single_starter_keeps_ids:
  assumes "(sys_step P g)\<^sup>*\<^sup>* (sys_start w qss) (Sys s cs)"
    and "length (filter (\<lambda>qs. \<exists>q \<in> set qs. starts q) qss) \<le> 1"
  shows "distinct (ids s)"
  using st.role_inv_reach [OF assms(1) role_start [OF assms(2)]] by simp

text \<open>The same id is asked for twice, and a second agent is started, while another caller looks.\<close>

definition one_starter :: "request list list" where
  "one_starter = [[AskStart 5 (Some quiet_ops) [49] 2210, AskStart 5 (Some quiet_ops) [49] 2210,
     AskStart 6 (Some quiet_ops) [49] 2210], [AskIsConnected 5, AskHasTrigger 6 1]]"

definition one_steps :: "nat list" where
  "one_steps = [0, 0, 0, 0, 0, 0, 0, 1, 0, 1, 0, 0, 0, 1, 0, 0, 0, 0, 0, 0, 0, 0, 0, 1]"

lemma one_played:
  assumes "\<And>n. malloc_ok w n" and "\<And>n. thread_ok w n" and "\<And>n. fopen_ok w n"
  shows "\<exists>s. play one_steps (shared_start w, map (Pair (Idle 0)) one_starter)
      = Inr (s, [(Idle 0, []), (Idle 0, [])]) \<and> sh_list s = [2, 1]"
  by (simp add: one_steps_def one_starter_def play_defs quiet_ops_def all_ops_def trig_find_by_id_def assms)

theorem single_starter_keeps_ids_witness:
  "\<exists>s. play one_steps (shared_start demo_env, map (Pair (Idle 0)) one_starter)
      = Inr (s, [(Idle 0, []), (Idle 0, [])])
    \<and> sh_list s = [2, 1] \<and> enb_id (the (sh_heap s 2)) \<noteq> enb_id (the (sh_heap s 1))"
proof -
  obtain s where s: "play one_steps (shared_start demo_env, map (Pair (Idle 0)) one_starter)
      = Inr (s, [(Idle 0, []), (Idle 0, [])])" "sh_list s = [2, 1]"
    using one_played [of demo_env] by (auto simp: demo_env_def)
  have r: "(sys_step demo_proto demo_garbage)\<^sup>*\<^sup>* (sys_start demo_env one_starter) (Sys s [(Idle 0, []), (Idle 0, [])])"
    using play_from_start [OF s(1)] by simp
  have "length (filter (\<lambda>qs. \<exists>q \<in> set qs. starts q) one_starter) \<le> 1" by (simp add: one_starter_def)
  from single_starter_keeps_ids [OF r this] s show ?thesis by (auto simp: ids_def)
qed

text \<open>
  (C3) A call that is not interrupted is the function of \<open>Core\<close>.  From any state the invariant allows,
  running the steps of one call to its end gives the result, the agents and the process that the
  function gives, and keeps the invariant; in particular every call comes to its end.
\<close>

theorem call_alone_is_api:
  assumes "calls_inv s []" and "api q (abs_core s) (sh_env s) = (r, c, v)"
  shows "\<exists>u. run_call (enter q) s = Inr (r, u) \<and> abs_core u = c \<and> sh_env u = v \<and> calls_inv u []"
proof -
  have b: "balanced {#} (Idle 0) s" using assms(1) by (simp add: calls_inv_def)
  obtain u where u: "run_call (enter q) s = Inr (r, u)" "abs_core u = c" "sh_env u = v"
    using run_call_api [OF b assms(2)] by blast
  have "balanced {#} (enter q) s" using b by (simp add: balanced_def)
  from run_call_balanced [OF u(1) this] have "calls_inv u []" by (simp add: calls_inv_def balanced_def)
  with u show ?thesis by blast
qed

theorem call_alone_is_api_witness:
  "\<exists>u. run_call (enter AskStop) (shared_start demo_env)
    = Inr (fst (em_stop (abs_core (shared_start demo_env)) (sh_env (shared_start demo_env))), u)"
proof -
  have i: "calls_inv (shared_start demo_env) []" by (simp add: shared_start_def calls_inv_def balanced_def)
  obtain r c v where a: "em_stop (abs_core (shared_start demo_env)) (sh_env (shared_start demo_env)) = (r, c, v)"
    by (rule prod_cases3)
  then have "api AskStop (abs_core (shared_start demo_env)) (sh_env (shared_start demo_env)) = (r, c, v)" by simp
  from call_alone_is_api [OF i this] show ?thesis by (auto simp: a)
qed

section \<open>What goes wrong without these rules\<close>

text \<open>
  (C17) Two starts of the same agent can both succeed.  \<open>em_start\<close> looks for the id and inserts the
  agent under two separate holds of the lock; when both callers look before either inserts, both
  calls return 0 and the list has the id twice.
\<close>

theorem start_race:
  assumes "\<And>n. malloc_ok w n" and "\<And>n. thread_ok w n" and "op_init t = None"
  shows "\<exists>s. (sys_step P g)\<^sup>*\<^sup>* (sys_start w [[AskStart e (Some t) ad port], [AskStart e (Some t) ad port]])
      (Sys s [(Idle 0, []), (Idle 0, [])]) \<and> ids s = [e, e]"
proof -
  let ?q = "AskStart e (Some t) ad port"
  have "\<exists>s. play [0, 0, 0, 1, 1, 1, 0, 0, 0, 0, 0, 1, 1, 1, 1, 1]
      (shared_start w, map (Pair (Idle 0)) [[?q], [?q]]) = Inr (s, [(Idle 0, []), (Idle 0, [])])
    \<and> ids s = [e, e]"
    by (simp add: play_defs assms)
  then obtain s where s: "play [0, 0, 0, 1, 1, 1, 0, 0, 0, 0, 0, 1, 1, 1, 1, 1]
      (shared_start w, map (Pair (Idle 0)) [[?q], [?q]]) = Inr (s, [(Idle 0, []), (Idle 0, [])])"
    "ids s = [e, e]" by blast
  from play_from_start [OF s(1), of P g] s(2) show ?thesis by auto
qed

theorem start_race_witness:
  "\<exists>s. (sys_step demo_proto demo_garbage)\<^sup>*\<^sup>*
      (sys_start demo_env [[AskStart 5 (Some quiet_ops) [49] 2210], [AskStart 5 (Some quiet_ops) [49] 2210]])
      (Sys s [(Idle 0, []), (Idle 0, [])]) \<and> ids s = [5, 5]"
  by (rule start_race) (simp_all add: quiet_ops_def demo_env_def)

text \<open>
  (C18) \<open>em_stop\<close> and \<open>em_terminate_agent\<close> at once can take an agent from an empty list.  \<open>em_stop\<close> tests
  the list without the lock; when the other call removes the last agent between the test and the
  removal, \<open>list_first_entry\<close> is computed from the list head and the process goes on with an agent
  that is none.
\<close>

theorem stop_race:
  assumes "\<And>n. malloc_ok w n" and "\<And>n. thread_ok w n" and "op_init t = None"
  shows "(sys_step P g)\<^sup>*\<^sup>* (sys_start w [[AskStart e (Some t) ad port, AskStop], [AskTerminate e]])
    (Crashed WildPointer)"
proof -
  have "play [0, 0, 0, 0, 0, 0, 0, 0, 0, 0, 1, 1, 0] (shared_start w,
      map (Pair (Idle 0)) [[AskStart e (Some t) ad port, AskStop], [AskTerminate e]]) = Inl WildPointer"
    by (simp add: play_defs assms)
  from play_from_start [OF this, of P g] show ?thesis by simp
qed

theorem stop_race_witness:
  "(sys_step demo_proto demo_garbage)\<^sup>*\<^sup>*
    (sys_start demo_env [[AskStart 5 (Some quiet_ops) [49] 2210, AskStop], [AskTerminate 5]])
    (Crashed WildPointer)"
  by (rule stop_race) (simp_all add: quiet_ops_def demo_env_def)

end
