(* ===== verification/Hlist.thy ===== *)
theory Hlist
  imports Emloops
begin

text \<open>
  The second half of \<open>src/agent/emlist.h\<close>: lists with a single-pointer head.  A node points to the
  next node and, by \<open>pprev\<close>, to the cell that points to it: the \<open>first\<close> of the head or the \<open>next\<close> of
  another node.  The store has these cells (\<open>slot\<close>), with the null pointer and the poison as cells no
  list uses.  \<open>hlist m r xs\<close> says that the list headed at \<open>r\<close> holds exactly the nodes \<open>xs\<close>.
\<close>

section \<open>The store\<close>

datatype slot = NullSlot | FirstOf addr | NextOf addr | PoisonSlot

record hmem =
  cell :: "slot \<Rightarrow> addr option"
  pprev :: "addr \<Rightarrow> slot"

definition set_cell :: "hmem \<Rightarrow> slot \<Rightarrow> addr option \<Rightarrow> hmem" where
  "set_cell m s v = m\<lparr>cell := (cell m)(s := v)\<rparr>"

definition set_pprev :: "hmem \<Rightarrow> addr \<Rightarrow> slot \<Rightarrow> hmem" where
  "set_pprev m n s = m\<lparr>pprev := (pprev m)(n := s)\<rparr>"

lemma hmem_simps [simp]:
  "cell (set_cell m s v) = (cell m)(s := v)" "pprev (set_cell m s v) = pprev m"
  "pprev (set_pprev m n s) = (pprev m)(n := s)" "cell (set_pprev m n s) = cell m"
  by (simp_all add: set_cell_def set_pprev_def)

text \<open>\<open>if (p) p->pprev = s;\<close>\<close>

definition fix_pprev :: "hmem \<Rightarrow> addr option \<Rightarrow> slot \<Rightarrow> hmem" where
  "fix_pprev m p s = (case p of None \<Rightarrow> m | Some x \<Rightarrow> set_pprev m x s)"

section \<open>Operations\<close>

definition INIT_HLIST_HEAD :: "hmem \<Rightarrow> addr \<Rightarrow> hmem" where
  "INIT_HLIST_HEAD m r = set_cell m (FirstOf r) None"

definition INIT_HLIST_NODE :: "hmem \<Rightarrow> addr \<Rightarrow> hmem" where
  "INIT_HLIST_NODE m n =
     (let m = set_cell m (NextOf n) None
      in set_pprev m n NullSlot)"

definition hlist_unhashed :: "hmem \<Rightarrow> addr \<Rightarrow> bool" where
  "hlist_unhashed m n \<longleftrightarrow> pprev m n = NullSlot"

definition hlist_empty :: "hmem \<Rightarrow> addr \<Rightarrow> bool" where
  "hlist_empty m r \<longleftrightarrow> cell m (FirstOf r) = None"

definition hlist_del_node :: "hmem \<Rightarrow> addr \<Rightarrow> hmem" where
  "hlist_del_node m n =
     (let nxt = cell m (NextOf n);
          pp = pprev m n;
          m = set_cell m pp nxt
      in fix_pprev m nxt pp)"

definition hlist_del :: "hmem \<Rightarrow> addr \<Rightarrow> hmem" where
  "hlist_del m n =
     (let m = hlist_del_node m n;
          m = set_cell m (NextOf n) (Some LIST_POISON1)
      in set_pprev m n PoisonSlot)"

definition hlist_del_init :: "hmem \<Rightarrow> addr \<Rightarrow> hmem" where
  "hlist_del_init m n =
     (if \<not> hlist_unhashed m n
      then let m = hlist_del_node m n in INIT_HLIST_NODE m n
      else m)"

definition hlist_add_head :: "hmem \<Rightarrow> addr \<Rightarrow> addr \<Rightarrow> hmem" where
  "hlist_add_head m n r =
     (let first = cell m (FirstOf r);
          m = set_cell m (NextOf n) first;
          m = fix_pprev m first (NextOf n);
          m = set_cell m (FirstOf r) (Some n)
      in set_pprev m n (FirstOf r))"

definition hlist_add_before :: "hmem \<Rightarrow> addr \<Rightarrow> addr \<Rightarrow> hmem" where
  "hlist_add_before m n nxt =
     (let m = set_pprev m n (pprev m nxt);
          m = set_cell m (NextOf n) (Some nxt);
          m = set_pprev m nxt (NextOf n)
      in set_cell m (pprev m n) (Some n))"

text \<open>The second argument is put after the first.\<close>

definition hlist_add_after :: "hmem \<Rightarrow> addr \<Rightarrow> addr \<Rightarrow> hmem" where
  "hlist_add_after m n nxt =
     (let m = set_cell m (NextOf nxt) (cell m (NextOf n));
          m = set_cell m (NextOf n) (Some nxt);
          m = set_pprev m nxt (NextOf n)
      in fix_pprev m (cell m (NextOf nxt)) (NextOf nxt))"

definition hlist_add_fake :: "hmem \<Rightarrow> addr \<Rightarrow> hmem" where
  "hlist_add_fake m n = set_pprev m n (NextOf n)"

definition hlist_move_list :: "hmem \<Rightarrow> addr \<Rightarrow> addr \<Rightarrow> hmem" where
  "hlist_move_list m old new =
     (let m = set_cell m (FirstOf new) (cell m (FirstOf old));
          m = fix_pprev m (cell m (FirstOf new)) (FirstOf new)
      in set_cell m (FirstOf old) None)"

section \<open>Loops\<close>

text \<open>The loops end at the null pointer; \<open>hlist_entry\<close> is the identity on nodes.\<close>

partial_function (option) hsearch_from :: "(addr \<Rightarrow> bool) \<Rightarrow> hmem \<Rightarrow> addr option \<Rightarrow> addr option option" where
  "hsearch_from P m pos =
     (case pos of
        None \<Rightarrow> Some None
      | Some p \<Rightarrow> if P p then Some (Some p) else hsearch_from P m (cell m (NextOf p)))"

partial_function (option) heach_safe_from ::
    "(addr \<Rightarrow> hmem \<Rightarrow> hmem) \<Rightarrow> addr option \<Rightarrow> hmem \<Rightarrow> hmem option" where
  "heach_safe_from body pos m =
     (case pos of
        None \<Rightarrow> Some m
      | Some p \<Rightarrow> let n = cell m (NextOf p) in heach_safe_from body n (body p m))"

definition hlist_for_each_entry :: "(addr \<Rightarrow> bool) \<Rightarrow> hmem \<Rightarrow> addr \<Rightarrow> addr option option" where
  "hlist_for_each_entry P m r = hsearch_from P m (cell m (FirstOf r))"

definition hlist_for_each_entry_continue :: "(addr \<Rightarrow> bool) \<Rightarrow> hmem \<Rightarrow> addr \<Rightarrow> addr option option" where
  "hlist_for_each_entry_continue P m p = hsearch_from P m (cell m (NextOf p))"

definition hlist_for_each_entry_from :: "(addr \<Rightarrow> bool) \<Rightarrow> hmem \<Rightarrow> addr \<Rightarrow> addr option option" where
  "hlist_for_each_entry_from P m p = hsearch_from P m (Some p)"

definition hlist_for_each_entry_safe :: "(addr \<Rightarrow> hmem \<Rightarrow> hmem) \<Rightarrow> hmem \<Rightarrow> addr \<Rightarrow> hmem option" where
  "hlist_for_each_entry_safe body m r = heach_safe_from body (cell m (FirstOf r)) m"

section \<open>Content\<close>

fun chain :: "hmem \<Rightarrow> slot \<Rightarrow> addr list \<Rightarrow> bool" where
  "chain m s [] \<longleftrightarrow> cell m s = None"
| "chain m s (x # xs) \<longleftrightarrow> cell m s = Some x \<and> pprev m x = s \<and> chain m (NextOf x) xs"

definition hlist :: "hmem \<Rightarrow> addr \<Rightarrow> addr list \<Rightarrow> bool" where
  "hlist m r xs \<longleftrightarrow> chain m (FirstOf r) xs \<and> distinct xs"

text \<open>The cell that points to what follows a prefix of a list.\<close>

fun end_slot :: "slot \<Rightarrow> addr list \<Rightarrow> slot" where
  "end_slot s [] = s"
| "end_slot s (x # xs) = end_slot (NextOf x) xs"

fun segment :: "hmem \<Rightarrow> slot \<Rightarrow> addr list \<Rightarrow> bool" where
  "segment m s [] \<longleftrightarrow> True"
| "segment m s (x # xs) \<longleftrightarrow> cell m s = Some x \<and> pprev m x = s \<and> segment m (NextOf x) xs"

lemma chain_append: "chain m s (us @ vs) \<longleftrightarrow> segment m s us \<and> chain m (end_slot s us) vs"
  by (induction us arbitrary: s) auto

lemma end_slot_eq: "end_slot s us = (if us = [] then s else NextOf (last us))"
  by (induction us arbitrary: s) auto

text \<open>Only the cells and nodes of a list matter to it.\<close>

lemma chain_cong:
  assumes "\<And>t. t \<in> set (s # map NextOf xs) \<Longrightarrow> cell m' t = cell m t"
    and "\<And>x. x \<in> set xs \<Longrightarrow> pprev m' x = pprev m x"
  shows "chain m' s xs \<longleftrightarrow> chain m s xs"
  using assms by (induction xs arbitrary: s) auto

lemma segment_cong:
  assumes "\<And>t. t \<in> set (s # map NextOf (butlast us)) \<Longrightarrow> us \<noteq> [] \<Longrightarrow> cell m' t = cell m t"
    and "\<And>x. x \<in> set us \<Longrightarrow> pprev m' x = pprev m x"
  shows "segment m' s us \<longleftrightarrow> segment m s us"
  using assms
proof (induction us arbitrary: s)
  case (Cons x us)
  have "segment m' (NextOf x) us \<longleftrightarrow> segment m (NextOf x) us"
    by (rule Cons.IH) (use Cons.prems in \<open>auto split: if_splits\<close>)
  then show ?case using Cons.prems by auto
qed simp

lemma end_slot_fresh:
  assumes "distinct (us @ n # vs)"
  shows "end_slot (FirstOf r) us \<noteq> NextOf n" and "end_slot (FirstOf r) us \<notin> NextOf ` set vs"
    and "end_slot (FirstOf r) us \<notin> NextOf ` set (butlast us)" and "us \<noteq> [] \<Longrightarrow> end_slot (FirstOf r) us \<noteq> FirstOf r"
  using assms by (cases us rule: rev_cases; auto simp: end_slot_eq)+

section \<open>What the operations do to the content\<close>

text \<open>Replacing what follows a prefix: only the last cell of the prefix changes.\<close>

lemma hlist_replace_rest:
  assumes "hlist m r (us @ vs)" and "distinct (us @ ws)"
    and "\<And>t. t \<in> set (FirstOf r # map NextOf us) \<Longrightarrow> t \<noteq> end_slot (FirstOf r) us \<Longrightarrow> cell m' t = cell m t"
    and "\<And>x. x \<in> set us \<Longrightarrow> pprev m' x = pprev m x"
    and "chain m' (end_slot (FirstOf r) us) ws"
  shows "hlist m' r (us @ ws)"
proof -
  have "segment m (FirstOf r) us" using assms(1) by (simp add: hlist_def chain_append)
  moreover have "segment m' (FirstOf r) us \<longleftrightarrow> segment m (FirstOf r) us"
  proof (rule segment_cong)
    fix t assume t: "t \<in> set (FirstOf r # map NextOf (butlast us))" and "us \<noteq> []"
    then have "t \<noteq> end_slot (FirstOf r) us" using assms(2) by (cases us rule: rev_cases) (auto simp: end_slot_eq)
    moreover have "t \<in> set (FirstOf r # map NextOf us)" using t by (auto dest: in_set_butlastD)
    ultimately show "cell m' t = cell m t" by (intro assms(3))
  qed (rule assms(4))
  ultimately show ?thesis using assms(2,5) by (simp add: hlist_def chain_append)
qed

lemma chain_shift:
  assumes "chain m s xs" and "cell m' t = cell m s" and "\<And>x. cell m s = Some x \<Longrightarrow> pprev m' x = t"
    and "\<And>x. x \<in> set xs \<Longrightarrow> cell m' (NextOf x) = cell m (NextOf x)"
    and "\<And>x. x \<in> set (tl xs) \<Longrightarrow> pprev m' x = pprev m x"
  shows "chain m' t xs"
proof (cases xs)
  case (Cons x ys)
  have "chain m' (NextOf x) ys \<longleftrightarrow> chain m (NextOf x) ys"
    by (rule chain_cong) (use assms(4,5) Cons in auto)
  then show ?thesis using assms(1-3) Cons by simp
qed (use assms(1,2) in simp)

lemma fix_pprev_simps [simp]:
  "cell (fix_pprev m p s) = cell m"
  "pprev (fix_pprev m p s) x = (if p = Some x then s else pprev m x)"
  by (auto simp: fix_pprev_def split: option.split)

lemma hlist_first: "hlist m r xs \<Longrightarrow> cell m (FirstOf r) = (case xs of [] \<Rightarrow> None | x # _ \<Rightarrow> Some x)"
  by (cases xs) (auto simp: hlist_def)

lemma hlist_node:
  assumes "hlist m r (us @ n # vs)"
  shows "pprev m n = end_slot (FirstOf r) us" and "cell m (NextOf n) = (case vs of [] \<Rightarrow> None | x # _ \<Rightarrow> Some x)"
    and "chain m (NextOf n) vs" and "distinct (us @ n # vs)" and "cell m (end_slot (FirstOf r) us) = Some n"
  using assms by (auto simp: hlist_def chain_append split: list.split)

lemma hlist_add_head_refines:
  assumes "hlist m r xs" and "n \<notin> set xs"
  shows "hlist (hlist_add_head m n r) r (n # xs)"
proof -
  let ?m = "hlist_add_head m n r"
  have c: "chain m (FirstOf r) xs" "distinct xs" using assms(1) by (simp_all add: hlist_def)
  have "chain ?m (NextOf n) xs"
    by (rule chain_shift [OF c(1)])
      (use assms c hlist_first [OF assms(1)] in \<open>auto simp: hlist_add_head_def Let_def split: list.splits\<close>)
  then show ?thesis using assms(2) c(2) by (simp add: hlist_def) (simp add: hlist_add_head_def Let_def)
qed

lemma hlist_del_node_refines:
  assumes "hlist m r (us @ n # vs)"
    and "\<And>t. t \<noteq> NextOf n \<Longrightarrow> cell m' t = cell (hlist_del_node m n) t"
    and "\<And>x. x \<noteq> n \<Longrightarrow> pprev m' x = pprev (hlist_del_node m n) x"
  shows "hlist m' r (us @ vs)"
proof -
  note h = hlist_node [OF assms(1)]
  let ?e = "end_slot (FirstOf r) us"
  have e: "?e \<noteq> NextOf n" "?e \<notin> NextOf ` set vs" using end_slot_fresh [OF h(4)] by auto
  have m': "cell m' t = (if t = ?e then cell m (NextOf n) else cell m t)" if "t \<noteq> NextOf n" for t
    using assms(2) [OF that] h(1) by (simp add: hlist_del_node_def Let_def)
  have p': "pprev m' x = (if cell m (NextOf n) = Some x then ?e else pprev m x)" if "x \<noteq> n" for x
    using assms(3) [OF that] h(1) by (simp add: hlist_del_node_def Let_def)
  have ch: "chain m' ?e vs"
  proof (rule chain_shift [OF h(3)])
    show "pprev m' x = pprev m x" if "x \<in> set (tl vs)" for x
    proof -
      have "x \<noteq> n" "cell m (NextOf n) \<noteq> Some x" using that h(2,4) by (cases vs; auto)+
      then show ?thesis using p' by simp
    qed
    show "cell m' (NextOf x) = cell m (NextOf x)" if "x \<in> set vs" for x
    proof -
      have "NextOf x \<noteq> ?e" using e(2) that by (metis imageI)
      moreover have "x \<noteq> n" using that h(4) by auto
      ultimately show ?thesis using m' [of "NextOf x"] by simp
    qed
  qed (use e h(2,4) m' p' in \<open>auto split: list.splits\<close>)
  show ?thesis
  proof (rule hlist_replace_rest [OF assms(1)])
    show "cell m' t = cell m t" if "t \<in> set (FirstOf r # map NextOf us)" "t \<noteq> ?e" for t
      using that m' [of t] h(4) by auto
    show "pprev m' x = pprev m x" if "x \<in> set us" for x
    proof -
      have "x \<noteq> n" "cell m (NextOf n) \<noteq> Some x" using that h(2,4) by (auto split: list.splits)
      then show ?thesis using p' by simp
    qed
  qed (use h(4) ch in auto)
qed

lemma hlist_del_refines:
  assumes "hlist m r (us @ n # vs)"
  shows "hlist (hlist_del m n) r (us @ vs)" and "hlist (hlist_del_init m n) r (us @ vs)"
    and "hlist_unhashed (hlist_del_init m n) n"
proof -
  have "\<not> hlist_unhashed m n"
    using hlist_node(1) [OF assms] by (cases us rule: rev_cases) (auto simp: hlist_unhashed_def end_slot_eq)
  then have i: "hlist_del_init m n = INIT_HLIST_NODE (hlist_del_node m n) n" by (simp add: hlist_del_init_def)
  show "hlist (hlist_del m n) r (us @ vs)" "hlist (hlist_del_init m n) r (us @ vs)"
    unfolding i by (rule hlist_del_node_refines [OF assms]; simp add: hlist_del_def INIT_HLIST_NODE_def Let_def)+
  show "hlist_unhashed (hlist_del_init m n) n"
    unfolding i by (simp add: INIT_HLIST_NODE_def hlist_unhashed_def Let_def)
qed

lemma hlist_add_before_refines:
  assumes "hlist m r (us @ x # vs)" and "n \<notin> set (us @ x # vs)"
  shows "hlist (hlist_add_before m n x) r (us @ n # x # vs)"
proof -
  note h = hlist_node [OF assms(1)]
  let ?m = "hlist_add_before m n x" and ?e = "end_slot (FirstOf r) us"
  have e: "?e \<noteq> NextOf n" "?e \<noteq> NextOf x" "?e \<notin> NextOf ` set vs"
    using end_slot_fresh [OF h(4)] end_slot_fresh [of us n vs] h(4) assms(2) by auto
  have e3: "NextOf y \<noteq> ?e" if "y \<in> set vs" for y using e(3) that by (metis imageI)
  have c: "cell ?m = (cell m)(NextOf n := Some x, ?e := Some n)"
    "pprev ?m = (pprev m)(n := ?e, x := NextOf n)"
    using h(1) assms(2) by (auto simp: hlist_add_before_def Let_def fun_eq_iff)
  have ch: "chain ?m (NextOf x) vs"
  proof (subst chain_cong [of _ _ _ m])
    show "cell ?m t = cell m t" if "t \<in> set (NextOf x # map NextOf vs)" for t
      using that e(1,2) e3 h(4) assms(2) by (auto simp: c)
  qed (use h(3,4) assms(2) in \<open>auto simp: c\<close>)
  show ?thesis
    by (rule hlist_replace_rest [OF assms(1)]) (use assms(2) h(4) e ch in \<open>auto simp: c\<close>)
qed

lemma hlist_add_after_refines:
  assumes "hlist m r (us @ x # vs)" and "n \<notin> set (us @ x # vs)"
  shows "hlist (hlist_add_after m x n) r (us @ x # n # vs)"
proof -
  note h = hlist_node [OF assms(1)]
  let ?m = "hlist_add_after m x n"
  have n: "n \<noteq> x" using assms(2) by auto
  have c: "cell ?m = (cell m)(NextOf n := cell m (NextOf x), NextOf x := Some n)"
    using n by (auto simp: hlist_add_after_def Let_def fun_eq_iff)
  have p: "pprev ?m y = (if cell m (NextOf x) = Some y then NextOf n else if y = n then NextOf x else pprev m y)" for y
    using n by (simp add: hlist_add_after_def Let_def)
  have ch: "chain ?m (NextOf n) vs"
  proof (rule chain_shift [OF h(3)])
    show "pprev ?m y = pprev m y" if "y \<in> set (tl vs)" for y
      using that h(2,4) assms(2) p by (cases vs) auto
  qed (use n h(4) assms(2) p in \<open>auto simp: c\<close>)
  have "pprev ?m n = NextOf x" using h(2) assms(2) p by (auto split: list.splits)
  with ch have "chain ?m (end_slot (FirstOf r) (us @ [x])) (n # vs)" by (simp add: end_slot_eq c n)
  moreover have "hlist m r ((us @ [x]) @ vs)" using assms(1) by simp
  ultimately have "hlist ?m r ((us @ [x]) @ n # vs)"
    by (rule hlist_replace_rest [rotated -1])
      (use assms(2) h(2,4) p in \<open>auto simp: c end_slot_eq split: list.splits\<close>)
  then show ?thesis by simp
qed

lemma hlist_move_list_refines:
  assumes "hlist m old xs" and "old \<noteq> new"
  shows "hlist (hlist_move_list m old new) new xs" and "hlist (hlist_move_list m old new) old []"
proof -
  let ?m = "hlist_move_list m old new"
  have c: "chain m (FirstOf old) xs" "distinct xs" using assms(1) by (simp_all add: hlist_def)
  have "chain ?m (FirstOf new) xs"
    by (rule chain_shift [OF c(1)])
      (use assms(2) c hlist_first [OF assms(1)] in \<open>cases xs; auto simp: hlist_move_list_def Let_def\<close>)+
  then show "hlist ?m new xs" using c(2) by (simp add: hlist_def)
  show "hlist ?m old []" by (simp add: hlist_def hlist_move_list_def Let_def)
qed

text \<open>A loop over a list ends; a search is \<open>List.find\<close> and the safe loop may unlink what it visits.\<close>

lemma hsearch_chain: "chain m s xs \<Longrightarrow> hsearch_from P m (cell m s) = Some (List.find P xs)"
proof (induction xs arbitrary: s)
  case Nil
  then show ?case by (subst hsearch_from.simps) simp
next
  case (Cons x xs)
  then show ?case by (subst hsearch_from.simps) simp
qed

lemma hflush:
  assumes "hlist m r xs"
  shows "\<exists>m'. hlist_for_each_entry_safe (\<lambda>n m. hlist_del m n) m r = Some m' \<and> hlist m' r []"
proof -
  have "\<exists>m'. heach_safe_from (\<lambda>n m. hlist_del m n) (case xs of [] \<Rightarrow> None | x # _ \<Rightarrow> Some x) m = Some m'
      \<and> hlist m' r []"
    using assms
  proof (induction xs arbitrary: m)
    case Nil
    then show ?case by (subst heach_safe_from.simps) simp
  next
    case (Cons x xs)
    have n: "cell m (NextOf x) = (case xs of [] \<Rightarrow> None | x # _ \<Rightarrow> Some x)"
      using hlist_node(2) [of m r "[]" x xs] Cons.prems by simp
    have "hlist (hlist_del m x) r xs" using hlist_del_refines(1) [of m r "[]" x xs] Cons.prems by simp
    from Cons.IH [OF this] show ?case by (subst heach_safe_from.simps) (simp add: n)
  qed
  then show ?thesis by (simp add: hlist_for_each_entry_safe_def hlist_first [OF assms])
qed

section \<open>Properties\<close>

fun hpush_all :: "hmem \<Rightarrow> addr \<Rightarrow> addr list \<Rightarrow> hmem" where
  "hpush_all m r [] = INIT_HLIST_HEAD m r"
| "hpush_all m r (x # xs) = hlist_add_head (hpush_all m r xs) x r"

lemma hlist_hpush_all: "distinct xs \<Longrightarrow> hlist (hpush_all m r xs) r xs"
proof (induction xs)
  case Nil
  show ?case by (simp add: hlist_def INIT_HLIST_HEAD_def)
next
  case (Cons x xs)
  then show ?case using hlist_add_head_refines by simp
qed

definition blank :: hmem where
  "blank = \<lparr>cell = (\<lambda>_. None), pprev = (\<lambda>_. NullSlot)\<rparr>"

text \<open>
  (C37) The single-headed lists.  Adding in front, before a node and after a node, and unlinking a node
  (with or without initialising it), do to the content of a well-formed list what their names say,
  and a whole list moves to another head.
\<close>

theorem hlist_ops_refine:
  assumes "hlist m r (us @ x # vs)" and "n \<notin> set (us @ x # vs)" and "q \<noteq> r"
  shows "hlist (hlist_add_head m n r) r (n # us @ x # vs)
    \<and> hlist (hlist_add_before m n x) r (us @ n # x # vs)
    \<and> hlist (hlist_add_after m x n) r (us @ x # n # vs)
    \<and> hlist (hlist_del m x) r (us @ vs) \<and> hlist (hlist_del_init m x) r (us @ vs)
    \<and> hlist_unhashed (hlist_del_init m x) x \<and> \<not> hlist_unhashed m x \<and> \<not> hlist_empty m r
    \<and> hlist (hlist_move_list m r q) q (us @ x # vs) \<and> hlist_empty (hlist_move_list m r q) r"
proof -
  have "\<not> hlist_unhashed m x"
    using hlist_node(1) [OF assms(1)] by (simp add: hlist_unhashed_def end_slot_eq)
  moreover have "\<not> hlist_empty m r"
    using hlist_first [OF assms(1)] by (cases us) (auto simp: hlist_empty_def)
  moreover have "hlist_empty (hlist_move_list m r q) r"
    by (simp add: hlist_empty_def hlist_move_list_def Let_def)
  ultimately show ?thesis
    using hlist_add_head_refines [OF assms(1,2)] hlist_add_before_refines [OF assms(1,2)]
      hlist_add_after_refines [OF assms(1,2)] hlist_del_refines [OF assms(1)]
      hlist_move_list_refines(1) [OF assms(1) assms(3) [symmetric]] by blast
qed

theorem hlist_ops_refine_witness:
  "hlist (hlist_add_before (hpush_all blank 1 [2, 3]) 4 3) 1 [2, 4, 3]"
  using hlist_ops_refine [of "hpush_all blank 1 [2, 3]" 1 "[2]" 3 "[]" 4 9]
    hlist_hpush_all [of "[2, 3]" blank 1] by simp

text \<open>
  The loops over these lists, and the node on no list that \<open>hlist_add_fake\<close> prepares for deletion: the
  deletion then changes no list, provided the node was initialised.
\<close>

theorem hlist_loops_refine:
  assumes "hlist m r (us @ x # vs)"
  shows "hlist_for_each_entry P m r = Some (List.find P (us @ x # vs))
    \<and> hlist_for_each_entry_continue P m x = Some (List.find P vs)
    \<and> hlist_for_each_entry_from P m x = Some (List.find P (x # vs))
    \<and> (\<exists>m'. hlist_for_each_entry_safe (\<lambda>n m. hlist_del m n) m r = Some m' \<and> hlist m' r [])
    \<and> (\<forall>n. n \<notin> set (us @ x # vs) \<longrightarrow> cell m (NextOf n) = None
          \<longrightarrow> hlist (hlist_del (hlist_add_fake m n) n) r (us @ x # vs))"
proof -
  note h = hlist_node [OF assms]
  have c: "chain m (FirstOf r) (us @ x # vs)" using assms by (simp add: hlist_def)
  have f: "chain m (end_slot (FirstOf r) us) (x # vs)" using c by (simp add: chain_append)
  have "hlist (hlist_del (hlist_add_fake m n) n) r (us @ x # vs)"
    if "n \<notin> set (us @ x # vs)" "cell m (NextOf n) = None" for n
  proof -
    let ?m = "hlist_del (hlist_add_fake m n) n"
    have m: "cell ?m = (cell m)(NextOf n := Some LIST_POISON1)" "pprev ?m = (pprev m)(n := PoisonSlot)"
      using that(2) by (auto simp: hlist_del_def hlist_del_node_def hlist_add_fake_def Let_def fun_eq_iff)
    have "chain ?m (FirstOf r) (us @ x # vs) \<longleftrightarrow> chain m (FirstOf r) (us @ x # vs)"
      by (rule chain_cong) (use that(1) in \<open>auto simp: m\<close>)
    then show ?thesis using c h(4) by (simp add: hlist_def)
  qed
  then show ?thesis
    using hsearch_chain [OF c, of P] hsearch_chain [OF h(3), of P] hsearch_chain [OF f, of P] h(5) hflush [OF assms]
    by (auto simp: hlist_for_each_entry_def hlist_for_each_entry_continue_def hlist_for_each_entry_from_def)
qed

theorem hlist_loops_refine_witness:
  "hlist_for_each_entry_continue (\<lambda>n. n > 2) (hpush_all blank 1 [2, 3, 4]) 3 = Some (Some 4)"
  using hlist_loops_refine [of "hpush_all blank 1 [2, 3, 4]" 1 "[2]" 3 "[4]" "\<lambda>n. n > 2"]
    hlist_hpush_all [of "[2, 3, 4]" blank 1] by simp

end
