(* ===== verification/Turns.thy ===== *)
theory Turns
  imports NetLoopFacts SchedLoop
begin

text \<open>
  The pass of the scheduler (\<open>sched_consume\<close>, \<open>src/agent/sched.c\<close>) at the grain of its lock.  The
  thread holds the lock of the context while it takes a task, while it settles the task and while it
  puts the deferred tasks back, and not in between; what the listener and the callers of the API do
  to the same agent can come between any two of these steps.
\<close>

section \<open>Steps of the scheduler\<close>

text \<open>
  Where the thread stands in \<open>sched_consume\<close>: before a task is taken, with the task in its hands (to
  carry out, or carried out with a result), in the three calls after a network error, before the
  deferred tasks are put back, and behind the end.
\<close>

datatype place =
    Pop
  | Perform emtask
  | Settle task_res timespec emtask
  | Flush
  | Tell
  | Close
  | Requeue
  | Over

definition drop_queues :: "emage \<Rightarrow> env \<Rightarrow> emage \<times> env" where
  "drop_queues a w =
     (let w = task_free_all (sc_todo (sched a)) w;
          a = a\<lparr>sched := (sched a)\<lparr>sc_todo := []\<rparr>\<rparr>;
          w = task_free_all (sc_jobs (sched a)) w;
          a = a\<lparr>sched := (sched a)\<lparr>sc_jobs := []\<rparr>\<rparr>
      in (a, w))"

definition settle :: "task_res \<Rightarrow> timespec \<Rightarrow> emtask \<Rightarrow> emage \<Rightarrow> env \<Rightarrow> place \<times> emage \<times> env" where
  "settle op now t a w =
     (case op of
        TASK_NOT_ELAPSED \<Rightarrow> (Pop, todo_push t a, w)
      | TASK_RESCHEDULE \<Rightarrow> (Pop, todo_push (task_again now t) a, w)
      | TASK_CONSUMED \<Rightarrow> (Pop, a, task_free t w)
      | TASK_NET_ERROR \<Rightarrow> let (a, w) = drop_queues a (task_free t w) in (Flush, a, w))"

definition tell_disconnected :: "emage \<Rightarrow> env \<Rightarrow> env" where
  "tell_disconnected a w =
     (case ops a of
        None \<Rightarrow> emit (EvFault NullPointer) w
      | Some t \<Rightarrow> if op_disconnected t then call (enb_id a) CbDisconnected w else w)"

fun pass_step :: "emproto \<Rightarrow> stack_garbage \<Rightarrow> place \<Rightarrow> emage \<Rightarrow> env \<Rightarrow> place \<times> emage \<times> env" where
  "pass_step P g Pop a w =
     (case sc_jobs (sched a) of
        [] \<Rightarrow> (Requeue, a, w)
      | t # _ \<Rightarrow> (Perform t, jobs_pop a, w))"
| "pass_step P g (Perform t) a w =
     (let (now, w) = clock_gettime w;
          (op, a, t, w) = sched_perform_job P g a t now w
      in (Settle op now t, a, w))"
| "pass_step P g (Settle op now t) a w = settle op now t a w"
| "pass_step P g Flush a w =
     (let (ctx, w) = trig_flush (trig a) w in (Tell, a\<lparr>trig := ctx\<rparr>, w))"
| "pass_step P g Tell a w = (Close, a, tell_disconnected a w)"
| "pass_step P g Close a w = (let (a, w) = agent_not_connected a w in (Over, a, w))"
| "pass_step P g Requeue a w = (Over, sched_requeue a, w)"
| "pass_step P g Over a w = (Over, a, w)"

section \<open>What others do meanwhile\<close>

text \<open>
  Post a task (allocation and \<open>sched_add_task\<close>), enter a trigger (allocation and \<open>trig_add\<close>), remove
  one, lose the connection, open a new one on a given socket, or write to the log.  The handlers of
  messages and the calls of the API that reach an agent are sequences of these (theory
  \<open>TurnMoves\<close>).
\<close>

datatype move =
    Post int int int i32 "bytes option" u32
  | Enter u32 int int bytes
  | DropId i32
  | DropInst u32 int int
  | Up int
  | Down
  | Say string string

definition enter_trig :: "u32 \<Rightarrow> int \<Rightarrow> int \<Rightarrow> bytes \<Rightarrow> emage \<Rightarrow> env \<Rightarrow> emage \<times> env" where
  "enter_trig m ty inst msg a w =
     (let (t, w) = trig_alloc m ty inst (Some msg) (msg_size msg) w
      in case t of
           None \<Rightarrow> (a, w)
         | Some t \<Rightarrow> let (i, t, ctx) = trig_add (trig a) t in (a\<lparr>trig := ctx\<rparr>, w))"

fun move_step :: "move \<Rightarrow> emage \<Rightarrow> env \<Rightarrow> emage \<times> env" where
  "move_step (Post ty intv res trg msg sz) a w = snd (post_task ty intv res trg msg sz a w)"
| "move_step (Enter m ty inst msg) a w = enter_trig m ty inst msg a w"
| "move_step (DropId i) a w =
     (let (r, ctx, w) = trig_del_by_id (trig a) i w in (a\<lparr>trig := ctx\<rparr>, w))"
| "move_step (DropInst m ty inst) a w = snd (drop_inst m ty inst a w)"
| "move_step (Up fd) a w = snd (net_connected (a\<lparr>net := (net a)\<lparr>nt_sockfd := fd\<rparr>\<rparr>) w)"
| "move_step Down a w = agent_not_connected a w"
| "move_step (Say proc what) a w = (a, EMLOG (Some (enb_id a)) proc what w)"

fun moves :: "move list \<Rightarrow> emage \<Rightarrow> env \<Rightarrow> emage \<times> env" where
  "moves [] a w = (a, w)"
| "moves (m # ms) a w = (let (a, w) = move_step m a w in moves ms a w)"

section \<open>Interleavings\<close>

datatype choice = Turn | Other move

text \<open>Every list of choices is an interleaving.\<close>

fun mix :: "emproto \<Rightarrow> stack_garbage \<Rightarrow> choice list \<Rightarrow> place \<times> emage \<times> env \<Rightarrow> place \<times> emage \<times> env" where
  "mix P g [] x = x"
| "mix P g (Turn # cs) (p, a, w) = mix P g cs (pass_step P g p a w)"
| "mix P g (Other m # cs) (p, a, w) = mix P g cs (p, move_step m a w)"

lemma mix_append: "mix P g (cs @ ds) x = mix P g ds (mix P g cs x)"
  by (induction P g cs x rule: mix.induct) simp_all

lemma mix_moves: "mix P g (map Other ms) (p, a, w) = (p, moves ms a w)"
  by (induction ms arbitrary: a w) (simp_all split: prod.split)

text \<open>A property of all steps is one of all interleavings.\<close>

lemma mix_invariant:
  assumes "I p a w"
    and "\<And>p a w q b v. I p a w \<Longrightarrow> pass_step P g p a w = (q, b, v) \<Longrightarrow> I q b v"
    and "\<And>m p a w b v. Other m \<in> set cs \<Longrightarrow> I p a w \<Longrightarrow> move_step m a w = (b, v) \<Longrightarrow> I p b v"
    and "mix P g cs (p, a, w) = (q, b, v)"
  shows "I q b v"
  using assms(1,3,4)
proof (induction cs arbitrary: p a w)
  case (Cons c cs)
  show ?case
  proof (cases c)
    case Turn
    obtain p' a' w' where s: "pass_step P g p a w = (p', a', w')" by (rule prod_cases3)
    have r: "mix P g cs (p', a', w') = (q, b, v)" using Cons.prems(3) Turn s by simp
    show ?thesis
      by (rule Cons.IH [OF assms(2) [OF Cons.prems(1) s] Cons.prems(2) r]) auto
  next
    case (Other m)
    obtain a' w' where s: "move_step m a w = (a', w')" by fastforce
    have "I p a' w'" by (rule Cons.prems(2) [OF _ Cons.prems(1) s]) (simp add: Other)
    have i: "I p a' w'" by fact
    have r: "mix P g cs (p, a', w') = (q, b, v)" using Cons.prems(3) Other s by simp
    show ?thesis
      by (rule Cons.IH [OF i Cons.prems(2) r]) auto
  qed
qed simp

section \<open>A pass that is not interrupted\<close>

lemma net_error_alone:
  assumes "drop_queues a w = (b, v)"
  shows "mix P g [Turn, Turn, Turn] (Flush, b, v) = (Over, sched_net_error a w)"
  using assms
  by (cases "ops a")
    (auto simp: drop_queues_def sched_net_error_def tell_disconnected_def Let_def split_beta)

lemma turn_alone:
  assumes "sc_jobs (sched a) = t # ts" and "sched_turn P g (jobs_pop a) t w = (e, b, v)"
  shows "\<not> e \<Longrightarrow> mix P g [Turn, Turn, Turn] (Pop, a, w) = (Pop, b, v)"
    and "e \<Longrightarrow> mix P g [Turn, Turn, Turn, Turn, Turn, Turn] (Pop, a, w) = (Over, b, v)"
proof -
  let ?w = "w\<lparr>clocks := Suc (clocks w)\<rparr>"
  obtain r c u x where j: "sched_perform_job P g (jobs_pop a) t (clock w (clocks w)) ?w = (r, c, u, x)"
    by (rule prod_cases4)
  have 2: "mix P g [Turn, Turn] (Pop, a, w) = (Settle r (clock w (clocks w)) u, c, x)"
    using assms(1) j by (simp add: clock_gettime_def)
  show "mix P g [Turn, Turn, Turn] (Pop, a, w) = (Pop, b, v)" if "\<not> e"
    using mix_append [of P g "[Turn, Turn]" "[Turn]" "(Pop, a, w)"] 2 assms(2) j that
    by (cases r) (auto simp: settle_def sched_turn_def clock_gettime_def split_beta)
  show "mix P g [Turn, Turn, Turn, Turn, Turn, Turn] (Pop, a, w) = (Over, b, v)" if e
  proof -
    have r: "r = TASK_NET_ERROR" "sched_net_error c (task_free u x) = (b, v)"
      using assms(2) j that by (cases r; auto simp: sched_turn_def clock_gettime_def split_beta)+
    obtain d y where d: "drop_queues c (task_free u x) = (d, y)" by fastforce
    have "mix P g [Turn] (Settle r (clock w (clocks w)) u, c, x) = (Flush, d, y)"
      by (simp add: r settle_def d)
    then show ?thesis
      using mix_append [of P g "[Turn, Turn]" "[Turn, Turn, Turn, Turn]" "(Pop, a, w)"]
        mix_append [of P g "[Turn]" "[Turn, Turn, Turn]" "(Settle r (clock w (clocks w)) u, c, x)"]
        2 net_error_alone [OF d] r(2) by simp
  qed
qed

lemma loop_alone:
  assumes "sched_consume_loop P g a w = (e, b, v)"
  shows "\<exists>n \<le> 3 * length (sc_jobs (sched a)) + 3.
    mix P g (replicate n Turn) (Pop, a, w) = (if e then (Over, b, v) else (Pop, b, v))"
  using assms
proof (induction P g a w rule: sched_consume_loop.induct)
  case (1 P g a w)
  show ?case
  proof (cases "sc_jobs (sched a)")
    case Nil
    then show ?thesis using 1(2) by (auto simp: sched_consume_loop.simps [of P g a w] intro!: exI [of _ 0])
  next
    case (Cons t ts)
    obtain s c u where t: "sched_turn P g (jobs_pop a) t w = (s, c, u)" by (rule prod_cases3)
    show ?thesis
    proof (cases s)
      case True
      then have "mix P g (replicate 6 Turn) (Pop, a, w) = (Over, c, u)"
        using turn_alone(2) [OF Cons t True] by (simp add: numeral_eq_Suc del: mix.simps)
      then show ?thesis using 1(2) Cons t True
        by (intro exI [of _ 6]) (simp add: sched_consume_loop.simps [of P g a w])
    next
      case False
      have l: "sched_consume_loop P g c u = (e, b, v)"
        using 1(2) Cons t False by (simp add: sched_consume_loop.simps [of P g a w])
      have len: "length (sc_jobs (sched c)) = length ts"
        using sched_turn_jobs [of P g "jobs_pop a" t w c u] t False Cons by simp
      have "(False, c, u) = sched_turn P g (jobs_pop a) t w" using t False by simp
      from 1(1) [OF Cons this refl refl l] len obtain n where
        n: "n \<le> 3 * length ts + 3" "mix P g (replicate n Turn) (Pop, c, u) = (if e then (Over, b, v) else (Pop, b, v))"
        by auto
      have "mix P g (replicate (3 + n) Turn) (Pop, a, w) = mix P g (replicate n Turn) (Pop, c, u)"
        using turn_alone(1) [OF Cons t False] mix_append [of P g "[Turn, Turn, Turn]" "replicate n Turn" "(Pop, a, w)"]
        by (simp add: numeral_3_eq_3 del: mix.simps)
      with n Cons show ?thesis by (intro exI [of _ "3 + n"]) simp
    qed
  qed
qed

lemma consume_alone:
  assumes "sched_consume P g a w = (r, b, v)"
  shows "\<exists>n \<le> 3 * length (sc_jobs (sched a)) + 5. mix P g (replicate n Turn) (Pop, a, w) = (Over, b, v)"
proof -
  obtain e c u where l: "sched_consume_loop P g a w = (e, c, u)" by (rule prod_cases3)
  from loop_alone [OF l] obtain n where n: "n \<le> 3 * length (sc_jobs (sched a)) + 3"
    "mix P g (replicate n Turn) (Pop, a, w) = (if e then (Over, c, u) else (Pop, c, u))" by blast
  show ?thesis
  proof (cases e)
    case True
    then show ?thesis using assms l n by (intro exI [of _ n]) (simp add: sched_consume_def)
  next
    case False
    have "if e then True else True \<and> sc_jobs (sched c) = []"
      by (rule consume_loop_rule [OF l, where I = "\<lambda>_ _. True" and E = "\<lambda>_ _. True"]) simp_all
    then have "sc_jobs (sched c) = []" using False by simp
    then have "mix P g (replicate 2 Turn) (Pop, c, u) = (Over, sched_requeue c, u)"
      by (simp add: numeral_2_eq_2)
    then have "mix P g (replicate (n + 2) Turn) (Pop, a, w) = (Over, sched_requeue c, u)"
      unfolding replicate_add mix_append n(2) using False by simp
    then show ?thesis using assms l n(1) False by (intro exI [of _ "n + 2"]) (simp add: sched_consume_def)
  qed
qed

end
