(* ===== verification/TurnFacts.thy ===== *)
theory TurnFacts
  imports Turns
begin

text \<open>
  What holds of a pass in every interleaving: the accounts, the order of the tasks, and the number of
  steps to the end of the pass.
\<close>

section \<open>Accounts\<close>

text \<open>The task the thread has in its hands is on no list, and is still charged.\<close>

fun held :: "place \<Rightarrow> emtask list" where
  "held (Perform t) = [t]"
| "held (Settle op now t) = [t]"
| "held _ = []"

definition pass_books :: "u32 \<Rightarrow> u32 \<Rightarrow> place \<Rightarrow> emage \<Rightarrow> env \<Rightarrow> bool" where
  "pass_books k l p a w \<longleftrightarrow> books (k + tasks_bytes w (held p)) l a w \<and> \<not> sc_stop (sched a)"

definition move_ok :: "move \<Rightarrow> bool" where
  "move_ok m = (case m of Post ty intv res trg msg sz \<Rightarrow> msg = None \<longrightarrow> sz = 0 | _ \<Rightarrow> True)"

lemma books_enter:
  assumes "enter_trig m ty inst msg a w = (b, v)" and "books k l a w" and "\<not> sc_stop (sched a)"
  shows "books k l b v \<and> \<not> sc_stop (sched b) \<and> sizeof_emtask v = sizeof_emtask w"
proof -
  obtain t u where t: "trig_alloc m ty inst (Some msg) (msg_size msg) w = (t, u)" by fastforce
  note ta = trig_alloc_after [OF t]
  have u: "sizeof_emtask u = sizeof_emtask w" "sizeof_emtri u = sizeof_emtri w"
    using ta(2) by (simp_all add: same_but_mem_def)
  show ?thesis
    using assms t ta(1,3,4) u
    by (auto simp: enter_trig_def trig_add_new books_def tasks_bytes_cong [of v w] trigs_bytes_cong [of v w]
        trig_price_def split: if_splits)
qed

lemma books_drop_id:
  assumes "trig_del_by_id (trig a) i w = (r, ctx, v)" and "books k l a w"
  shows "books k l (a\<lparr>trig := ctx\<rparr>) v \<and> sizeof_emtask v = sizeof_emtask w"
proof -
  have u: "sizeof_emtask v = sizeof_emtask w" "sizeof_emtri v = sizeof_emtri w"
    using same_but_memD [OF same_but_mem_del(1) [OF assms(1)]] by simp_all
  show ?thesis
    using assms(2) trig_del_by_id_mem [OF assms(1)] u
    by (simp add: books_def tasks_bytes_cong [of v w] trigs_bytes_cong [of v w] diff_eq_eq)
qed

lemma net_connected_sizeof:
  assumes "net_connected a w = (r, b, v)"
  shows "sizeof_emtask v = sizeof_emtask w"
proof -
  obtain t u where t: "task_alloc TASK_TYPE_HELLO 2000 (- 1) 0 None 0 w = (t, u)" by fastforce
  have "sizeof_emtask u = sizeof_emtask w" using task_alloc_after(2) [OF t] by (simp add: same_but_mem_def)
  then show ?thesis using assms t
    by (auto simp: net_connected_def agent_add_task_def sched_add_task_def clock_gettime_def
        split: option.splits if_splits)
qed

lemma move_books:
  assumes "move_step m a w = (b, v)" and "move_ok m" and "books k l a w" and "\<not> sc_stop (sched a)"
  shows "books k l b v \<and> \<not> sc_stop (sched b) \<and> sizeof_emtask v = sizeof_emtask w"
proof (cases m)
  case (Post ty intv res trg msg sz)
  obtain r where p: "post_task ty intv res trg msg sz a w = (r, b, v)"
    using assms(1) Post by (cases "post_task ty intv res trg msg sz a w") simp
  have "msg = None \<longrightarrow> sz = 0" using assms(2) Post by (simp add: move_ok_def)
  from books_post [OF assms(3) p this] calm_sizes(3,4) [OF calm_post [OF p]] assms(4)
  show ?thesis by (simp add: lost_def split: if_splits)
next
  case (Enter m' ty inst msg)
  then show ?thesis using books_enter [of m' ty inst msg a w b v] assms by simp
next
  case (DropId i)
  then obtain r ctx where "trig_del_by_id (trig a) i w = (r, ctx, v)" "b = a\<lparr>trig := ctx\<rparr>"
    using assms(1) by (auto split: prod.splits)
  then show ?thesis using books_drop_id [of a i w r ctx v] assms(3,4) by simp
next
  case (DropInst m' ty inst)
  obtain r where d: "drop_inst m' ty inst a w = (r, b, v)"
    using assms(1) DropInst by (cases "drop_inst m' ty inst a w") simp
  show ?thesis
    using books_drop_inst [OF assms(3) d] calm_sizes(3,4) [OF calm_drop_inst [OF d]] assms(4) by simp
next
  case (Up fd)
  let ?a = "a\<lparr>net := (net a)\<lparr>nt_sockfd := fd\<rparr>\<rparr>"
  obtain r where c: "net_connected ?a w = (r, b, v)" using assms(1) Up by (cases "net_connected ?a w") simp
  have "books k l ?a w" using assms(3) by (simp add: books_def)
  then show ?thesis using net_connected_books [OF c] net_connected_sizeof [OF c] assms(4) by simp
next
  case Down
  then have c: "b = fst (agent_not_connected a w)" "v = snd (agent_not_connected a w)"
    using assms(1) by simp_all
  then show ?thesis
    using kept_books [OF minor_kept [OF minor_not_connected [of a w]]] minor_kept [OF minor_not_connected [of a w]]
      assms(3,4) by (simp add: kept_def same_heap_def)
next
  case (Say proc what)
  let ?v = "EMLOG (Some (enb_id a)) proc what w"
  have "b = a" "v = ?v" using assms(1) Say by auto
  then show ?thesis
    using assms by (simp add: books_def tasks_bytes_cong [of ?v w] trigs_bytes_cong [of ?v w])
qed

lemma pass_books_move:
  assumes "move_step m a w = (b, v)" and "move_ok m" and "pass_books k l p a w"
  shows "pass_books k l p b v"
  using move_books [OF assms(1,2), of "k + tasks_bytes w (held p)" l] assms(3) tasks_bytes_cong [of v w "held p"]
  by (simp add: pass_books_def)

lemma pass_books_step:
  assumes "pass_step P g p a w = (q, b, v)" and "pass_books k l p a w"
  shows "pass_books k l q b v"
proof (cases p)
  case Pop
  then show ?thesis
    using assms by (auto simp: pass_books_def books_def algebra_simps split: list.splits)
next
  case (Perform t)
  let ?w = "w\<lparr>clocks := Suc (clocks w)\<rparr>"
  obtain r c u x where j: "sched_perform_job P g a t (clock w (clocks w)) ?w = (r, c, u, x)"
    by (rule prod_cases4)
  note fr = sched_perform_job_frame [OF j]
  have "same_heap ?w x"
    using j by (cases rule: sched_perform_job_cases) (auto dest: same_heap_dispatch)
  then have sz: "sizeof_emtask x = sizeof_emtask w" "sizeof_emtri x = sizeof_emtri w"
    "task_mem x = task_mem w" "trig_mem x = trig_mem w" by (simp_all add: same_heap_def)
  have "task_price x u = task_price w t" "task_price w u = task_price w t"
    using fr sz(1) by (simp_all add: task_price_def)
  then show ?thesis
    using assms Perform j fr sz
    by (auto simp: pass_books_def books_def clock_gettime_def tasks_bytes_cong [of v w]
        trigs_bytes_cong [of v w])
next
  case (Settle op now t)
  then show ?thesis
    using assms
    by (cases op)
      (auto simp: settle_def drop_queues_def pass_books_def books_def todo_push_def task_again_def Let_def
        task_price_def task_free_all_mem algebra_simps)
next
  case Flush
  then have q: "q = Tell" "b = a\<lparr>trig := fst (trig_flush (trig a) w)\<rparr>" "v = snd (trig_flush (trig a) w)"
    using assms(1) by (simp_all add: split_beta)
  show ?thesis using assms(2) Flush unfolding q by (simp add: pass_books_def books_def)
next
  case Tell
  then show ?thesis
    using assms by (auto simp: tell_disconnected_def pass_books_def books_def call_def split: option.splits)
next
  case Close
  then have q: "q = Over" "b = fst (agent_not_connected a w)" "v = snd (agent_not_connected a w)"
    using assms(1) by (simp_all add: split_beta)
  show ?thesis
    using assms(2) Close kept_books [OF minor_kept [OF minor_not_connected [of a w]]]
    unfolding q by (simp add: pass_books_def)
next
  case Requeue
  then show ?thesis using assms by (auto simp: pass_books_def books_requeue) (simp add: sched_requeue_def)
next
  case Over
  then show ?thesis using assms by simp
qed

section \<open>The number of steps\<close>

fun place_rank :: "place \<Rightarrow> nat" where
  "place_rank Over = 0"
| "place_rank Requeue = 1"
| "place_rank Close = 1"
| "place_rank Tell = 2"
| "place_rank Flush = 3"
| "place_rank Pop = 2"
| "place_rank (Settle op now t) = 4"
| "place_rank (Perform t) = 5"

definition pass_left :: "place \<Rightarrow> emage \<Rightarrow> nat" where
  "pass_left p a = (if p = Over then 0 else 4 * length (sc_jobs (sched a)) + place_rank p)"

lemma pass_step_left:
  assumes "pass_step P g p a w = (q, b, v)" and "p \<noteq> Over"
  shows "pass_left q b < pass_left p a"
proof (cases p)
  case (Perform t)
  let ?w = "w\<lparr>clocks := Suc (clocks w)\<rparr>"
  obtain r c u x where j: "sched_perform_job P g a t (clock w (clocks w)) ?w = (r, c, u, x)"
    by (rule prod_cases4)
  then show ?thesis
    using assms Perform sched_perform_job_frame(1) [OF j] by (auto simp: pass_left_def clock_gettime_def)
next
  case (Settle op now t)
  then show ?thesis
    using assms by (cases op) (auto simp: pass_left_def settle_def drop_queues_def todo_push_def Let_def)
qed (use assms in \<open>auto simp: pass_left_def split: list.splits prod.splits\<close>)

text \<open>
  The tasks that a move of others puts at the end of the queue: what is posted, or the Hello of a new
  connection, if its memory can be had and the scheduler is not told to stop.
\<close>

fun offer :: "move \<Rightarrow> emage \<Rightarrow> env \<Rightarrow> emtask list" where
  "offer (Post ty intv res trg msg sz) a w =
     (if alloc_ok w msg \<and> \<not> sc_stop (sched a)
      then [(task_init ty intv res trg msg sz)\<lparr>tk_issued := clock w (clocks w)\<rparr>] else [])"
| "offer (Up fd) a w =
     (if alloc_ok w None \<and> \<not> sc_stop (sched a)
      then [(task_init TASK_TYPE_HELLO 2000 (- 1) 0 None 0)\<lparr>tk_issued := clock w (clocks w)\<rparr>] else [])"
| "offer _ a w = []"

text \<open>Those of an interleaving, in their order.\<close>

fun accepted :: "emproto \<Rightarrow> stack_garbage \<Rightarrow> choice list \<Rightarrow> place \<times> emage \<times> env \<Rightarrow> emtask list" where
  "accepted P g [] x = []"
| "accepted P g (Turn # cs) (p, a, w) = accepted P g cs (pass_step P g p a w)"
| "accepted P g (Other m # cs) (p, a, w) = offer m a w @ accepted P g cs (p, move_step m a w)"

lemma net_connected_jobs:
  assumes "net_connected a w = (r, b, v)"
  shows "sc_jobs (sched b) = sc_jobs (sched a) @ offer (Up fd) a w \<and> sc_todo (sched b) = sc_todo (sched a)
    \<and> sc_stop (sched b) = sc_stop (sched a) \<and> send_ret v = send_ret w \<and> malloc_ok v = malloc_ok w"
proof -
  obtain t u where t: "task_alloc TASK_TYPE_HELLO 2000 (- 1) 0 None 0 w = (t, u)" by fastforce
  note ta = task_alloc_after [OF t]
  have "send_ret u = send_ret w" "malloc_ok u = malloc_ok w" "clock u = clock w" "clocks u = clocks w"
    using ta(2) by (simp_all add: same_but_mem_def)
  then show ?thesis
    using assms t ta(1)
    by (auto simp: net_connected_def agent_add_task_def sched_add_task_def clock_gettime_def split: if_splits)
qed

text \<open>What others ask for: the keys of the tasks they post, whether they are taken in or not.\<close>

fun posted :: "choice list \<Rightarrow> (int \<times> i32 \<times> u32 \<times> u32 \<times> int) list" where
  "posted [] = []"
| "posted (Other (Post ty intv res trg msg sz) # cs) =
     task_key (task_init ty intv res trg msg sz) # posted cs"
| "posted (Other (Up fd) # cs) = task_key (task_init TASK_TYPE_HELLO 2000 (- 1) 0 None 0) # posted cs"
| "posted (_ # cs) = posted cs"

lemma posted_Cons: "posted (Other m # cs) = posted [Other m] @ posted cs"
  by (cases m) simp_all

lemma task_key_issued [simp]: "task_key (t\<lparr>tk_issued := k\<rparr>) = task_key t"
  by (simp add: task_key_def)

lemma offer_posted: "subseq (map task_key (offer m a w)) (posted [Other m])"
  by (cases m) simp_all

lemma move_jobs:
  assumes "move_step m a w = (b, v)"
  shows "sc_jobs (sched b) = sc_jobs (sched a) @ offer m a w \<and> sc_todo (sched b) = sc_todo (sched a)
    \<and> sc_stop (sched b) = sc_stop (sched a) \<and> send_ret v = send_ret w \<and> malloc_ok v = malloc_ok w"
proof (cases m)
  case (Post ty intv res trg msg sz)
  obtain t u where t: "task_alloc ty intv res trg msg sz w = (t, u)" by fastforce
  note ta = task_alloc_after [OF t]
  have "send_ret u = send_ret w" "malloc_ok u = malloc_ok w" "clock u = clock w" "clocks u = clocks w"
    using ta(2) by (simp_all add: same_but_mem_def)
  then show ?thesis
    using assms Post t ta(1)
    by (auto simp: post_task_eq agent_add_task_def sched_add_task_def clock_gettime_def split: if_splits)
next
  case (Enter m' ty inst msg)
  obtain t u where t: "trig_alloc m' ty inst (Some msg) (msg_size msg) w = (t, u)" by fastforce
  have "send_ret u = send_ret w" "malloc_ok u = malloc_ok w"
    using trig_alloc_after(2) [OF t] by (simp_all add: same_but_mem_def)
  then show ?thesis using assms Enter t by (auto simp: enter_trig_def split: option.splits prod.splits)
next
  case (DropId i)
  then show ?thesis
    using assms by (auto split: prod.splits dest!: same_but_mem_del(1) simp: same_but_mem_def)
next
  case (DropInst m' ty inst)
  then show ?thesis
    using assms by (auto simp: drop_inst_def same_but_mem_def split: prod.splits dest!: same_but_mem_del(2))
next
  case (Up fd)
  obtain r where "net_connected (a\<lparr>net := (net a)\<lparr>nt_sockfd := fd\<rparr>\<rparr>) w = (r, b, v)"
    using assms Up by (cases "net_connected (a\<lparr>net := (net a)\<lparr>nt_sockfd := fd\<rparr>\<rparr>) w") simp
  from net_connected_jobs [OF this, of fd] show ?thesis using Up by simp
next
  case Down
  then have "b = fst (agent_not_connected a w)" "v = snd (agent_not_connected a w)" using assms by simp_all
  then show ?thesis
    using minor_kept [OF minor_not_connected [of a w]] Down by (simp add: kept_def same_heap_def)
qed (use assms in auto)

text \<open>How often the scheduler moves, and how often a task may be posted.\<close>

definition turns :: "choice list \<Rightarrow> nat" where
  "turns cs = length (filter (\<lambda>c. c = Turn) cs)"

lemma pass_over_stays: "mix P g cs (Over, a, w) = (q, b, v) \<Longrightarrow> q = Over"
proof (induction cs arbitrary: a w)
  case (Cons c cs)
  then show ?case by (cases c) (auto, metis prod.collapse)
qed simp

lemma pass_ends_left:
  assumes "mix P g cs (p, a, w) = (q, b, v)" and "pass_left p a + 4 * length (posted cs) \<le> turns cs"
  shows "q = Over"
  using assms
proof (induction cs arbitrary: p a w)
  case Nil
  then show ?case by (cases p) (auto simp: turns_def pass_left_def split: if_splits)
next
  case (Cons c cs)
  show ?case
  proof (cases "p = Over")
    case True
    then show ?thesis using Cons.prems(1) pass_over_stays by blast
  next
    case False
    show ?thesis
    proof (cases c)
      case Turn
      obtain p' a' w' where s: "pass_step P g p a w = (p', a', w')" by (rule prod_cases3)
      show ?thesis
        by (rule Cons.IH [of p' a' w'])
          (use Cons.prems pass_step_left [OF s False] Turn s in \<open>simp_all add: turns_def\<close>)
    next
      case (Other m)
      obtain a' w' where s: "move_step m a w = (a', w')" by fastforce
      obtain ts where ts: "sc_jobs (sched a') = sc_jobs (sched a) @ ts"
        "subseq (map task_key ts) (posted [Other m])" using move_jobs [OF s] offer_posted by blast
      have "length ts \<le> length (posted [Other m])" using list_emb_length [OF ts(2)] by simp
      moreover have "length (posted (Other m # cs)) = length (posted [Other m]) + length (posted cs)"
        by (cases m) simp_all
      moreover have "turns (c # cs) = turns cs" using Other by (simp add: turns_def)
      ultimately have "pass_left p a' + 4 * length (posted cs) \<le> turns cs"
        using Cons.prems(2) ts(1) False Other by (simp add: pass_left_def)
      then show ?thesis using Cons.IH [of p a' w'] Cons.prems(1) Other s by simp
    qed
  qed
qed

section \<open>What a task does to the agent\<close>

text \<open>Nothing but count on the sequence number.\<close>

lemma agent_same_seq: "\<exists>n. a = a\<lparr>net := (net a)\<lparr>nt_seq := n\<rparr>\<rparr>"
  by (rule exI [of _ "nt_seq (net a)"]) (cases a; simp)

lemma send_agent:
  "sched_send_msg P a m sz w = (r, m', b, v) \<Longrightarrow> \<exists>n. b = a\<lparr>net := (net a)\<lparr>nt_seq := n\<rparr>\<rparr>"
  using agent_same_seq [of a]
  by (auto simp: sched_send_msg_def Let_def split: if_splits prod.splits)

lemma dispatch_agent:
  assumes "sched_dispatch P g a t w = (r, b, u, v)"
  shows "\<exists>n. b = a\<lparr>net := (net a)\<lparr>nt_seq := n\<rparr>\<rparr>"
proof -
  have hello: "\<exists>n. b = a\<lparr>net := (net a)\<lparr>nt_seq := n\<rparr>\<rparr>" if "sched_perform_hello P a t w = (r, b, v)"
    using that agent_same_seq [of a] by (auto simp: sched_perform_hello_def dest: send_agent split: prod.splits if_splits)
  show ?thesis
    using assms agent_same_seq [of a] hello
    by (auto simp: sched_dispatch_def sched_perform_send_def Let_def dest: send_agent split: if_splits prod.splits)
qed

lemma job_agent:
  assumes "sched_perform_job P g a t now w = (r, b, u, v)"
  shows "\<exists>n. b = a\<lparr>net := (net a)\<lparr>nt_seq := n\<rparr>\<rparr>"
  using assms
  by (cases rule: sched_perform_job_cases) (use agent_same_seq [of a] in \<open>auto dest!: dispatch_agent\<close>)

lemma pass_step_agent:
  assumes "pass_step P g p a w = (q, b, v)"
  shows "ops b = ops a \<and> enb_id b = enb_id a \<and> sc_stop (sched b) = sc_stop (sched a)
    \<and> nt_stop (net b) = nt_stop (net a)
    \<and> nt_status (net b) \<in> {nt_status (net a), NET_STATUS_NOT_CONNECTED}"
proof (cases p)
  case (Perform t)
  let ?w = "w\<lparr>clocks := Suc (clocks w)\<rparr>"
  obtain r c u x where j: "sched_perform_job P g a t (clock w (clocks w)) ?w = (r, c, u, x)"
    by (rule prod_cases4)
  then show ?thesis using assms Perform job_agent [OF j] by (auto simp: clock_gettime_def)
next
  case (Settle op now t)
  then show ?thesis using assms by (cases op) (auto simp: settle_def drop_queues_def todo_push_def Let_def)
qed (use assms in \<open>auto simp: sched_requeue_def agent_not_connected_def net_not_connected_def Let_def
      split: list.splits if_splits prod.splits\<close>)

section \<open>The order of the tasks\<close>

text \<open>
  The queue as the thread sees it: the deferred tasks in the order in which they were deferred, the
  task in its hands, and the tasks it has not taken yet.
\<close>

definition line :: "place \<Rightarrow> emage \<Rightarrow> emtask list" where
  "line p a = rev (sc_todo (sched a)) @ held p @ sc_jobs (sched a)"

fun in_hand :: "place \<Rightarrow> emtask list \<Rightarrow> bool" where
  "in_hand (Perform t) hs \<longleftrightarrow> hs = [t]"
| "in_hand (Settle op now t) hs \<longleftrightarrow> (\<exists>u. hs = [u] \<and> task_key t = task_key u \<and> tk_resch t = tk_resch u)
     \<and> op \<noteq> TASK_NET_ERROR \<and> (op = TASK_CONSUMED \<longrightarrow> tk_resch t = 0)"
| "in_hand Pop hs \<longleftrightarrow> hs = []"
| "in_hand Requeue hs \<longleftrightarrow> hs = []"
| "in_hand Over hs \<longleftrightarrow> hs = []"
| "in_hand _ hs \<longleftrightarrow> False"

definition in_order :: "emtask list \<Rightarrow> place \<Rightarrow> emage \<Rightarrow> bool" where
  "in_order whole p a \<longleftrightarrow> (\<exists>ds ks hs ms. whole = ds @ hs @ ms \<and> survive ds ks \<and> in_hand p hs
     \<and> (if p = Over then sc_todo (sched a) = [] \<and> sc_jobs (sched a) = ks @ ms
        else sc_todo (sched a) = rev ks \<and> sc_jobs (sched a) = ms))"

lemma survive_refl: "survive ts ts"
  by (induction ts) (auto intro: survive.intros simp: continues_def)

lemma in_order_line:
  assumes "in_order whole p a"
  shows "survive whole (line p a)" and "p \<notin> {Flush, Tell, Close}"
proof -
  obtain ds ks hs ms where o: "whole = ds @ hs @ ms" "survive ds ks" "in_hand p hs"
    "if p = Over then sc_todo (sched a) = [] \<and> sc_jobs (sched a) = ks @ ms
     else sc_todo (sched a) = rev ks \<and> sc_jobs (sched a) = ms"
    using assms by (auto simp: in_order_def)
  have "survive hs (held p)"
    using o(3) by (cases p) (auto intro!: survive.keep survive.nil simp: continues_def)
  then show "survive whole (line p a)"
    using o survive_append [OF o(2) survive_append [of hs "held p" ms ms]] survive_refl [of ms]
    by (cases p) (auto simp: line_def)
  show "p \<notin> {Flush, Tell, Close}" using o(3) by (cases p) auto
qed

lemma in_order_move:
  assumes "in_order whole p a" and "sc_jobs (sched b) = sc_jobs (sched a) @ ts"
    and "sc_todo (sched b) = sc_todo (sched a)"
  shows "in_order (whole @ ts) p b"
proof -
  obtain ds ks hs ms where o: "whole = ds @ hs @ ms" "survive ds ks" "in_hand p hs"
    "if p = Over then sc_todo (sched a) = [] \<and> sc_jobs (sched a) = ks @ ms
     else sc_todo (sched a) = rev ks \<and> sc_jobs (sched a) = ms"
    using assms(1) by (auto simp: in_order_def)
  show ?thesis
    unfolding in_order_def
    by (rule exI [of _ ds], rule exI [of _ ks], rule exI [of _ hs], rule exI [of _ "ms @ ts"])
      (use o assms(2,3) in \<open>auto split: if_splits\<close>)
qed

text \<open>What \<open>in_order\<close> says, with its witnesses.\<close>

lemma in_orderI:
  assumes "whole = ds @ hs @ ms" and "survive ds ks" and "in_hand p hs" and "p \<noteq> Over"
    and "sc_todo (sched a) = rev ks" and "sc_jobs (sched a) = ms"
  shows "in_order whole p a"
  using assms unfolding in_order_def
  by (intro exI [of _ ds] exI [of _ ks] exI [of _ hs] exI [of _ ms]) simp

lemma in_orderE:
  assumes "in_order whole p a" and "p \<noteq> Over"
  obtains ds ks hs ms where "whole = ds @ hs @ ms" "survive ds ks" "in_hand p hs"
    "sc_todo (sched a) = rev ks" "sc_jobs (sched a) = ms"
  using assms by (auto simp: in_order_def)

lemma in_order_pop:
  assumes "in_order whole Pop a" and "pass_step P g Pop a w = (q, b, v)"
  shows "in_order whole q b"
proof -
  obtain ds ks hs ms where o: "whole = ds @ hs @ ms" "survive ds ks" "in_hand Pop hs"
    "sc_todo (sched a) = rev ks" "sc_jobs (sched a) = ms" by (rule in_orderE [OF assms(1)]) simp_all
  show ?thesis
  proof (cases ms)
    case Nil
    then show ?thesis using assms(2) o by (intro in_orderI [of _ ds "[]" "[]" ks]) auto
  next
    case (Cons t ts)
    then show ?thesis using assms(2) o by (intro in_orderI [of _ ds "[t]" ts ks]) auto
  qed
qed

lemma in_order_perform:
  assumes "in_order whole (Perform t) a" and "pass_step P g (Perform t) a w = (q, b, v)"
    and "\<forall>n. 0 \<le> send_ret w n"
  shows "in_order whole q b \<and> send_ret v = send_ret w"
proof -
  let ?w = "w\<lparr>clocks := Suc (clocks w)\<rparr>"
  obtain ds ks hs ms where o: "whole = ds @ hs @ ms" "survive ds ks" "in_hand (Perform t) hs"
    "sc_todo (sched a) = rev ks" "sc_jobs (sched a) = ms" by (rule in_orderE [OF assms(1)]) simp_all
  obtain r c u x where j: "sched_perform_job P g a t (clock w (clocks w)) ?w = (r, c, u, x)"
    by (rule prod_cases4)
  note fr = sched_perform_job_frame [OF j]
  have q: "q = Settle r (clock w (clocks w)) u" "b = c" "v = x"
    using assms(2) j by (simp_all add: clock_gettime_def)
  have r: "r \<noteq> TASK_NET_ERROR \<and> (r = TASK_CONSUMED \<longrightarrow> tk_resch t = 0) \<and> send_ret x = send_ret w"
    using j
  proof (cases rule: sched_perform_job_cases)
    case error
    from sched_dispatch_res [OF error(3)] have "send_ret w (sends w) < 0" by auto
    with assms(3) show ?thesis by (metis not_less)
  qed (auto dest!: same_heap_dispatch simp: same_heap_def)
  have "in_hand q hs" using o(3) r fr(2) by (auto simp: q task_key_def)
  from in_orderI [OF o(1,2) this] have "in_order whole q b" using o(4,5) fr(1) by (simp add: q)
  then show ?thesis using r q(3) by simp
qed

lemma in_order_settle:
  assumes "in_order whole (Settle op now t) a" and "settle op now t a w = (q, b, v)"
  shows "in_order whole q b \<and> send_ret v = send_ret w"
proof -
  obtain ds ks hs ms where o: "whole = ds @ hs @ ms" "survive ds ks" "in_hand (Settle op now t) hs"
    "sc_todo (sched a) = rev ks" "sc_jobs (sched a) = ms" by (rule in_orderE [OF assms(1)]) simp_all
  obtain u where u: "hs = [u]" "task_key t = task_key u" "tk_resch t = tk_resch u"
    "op \<noteq> TASK_NET_ERROR" "op = TASK_CONSUMED \<Longrightarrow> tk_resch t = 0" using o(3) by auto
  have again: "in_order whole Pop (todo_push t' a)" if "continues u t'" for t'
  proof -
    have "survive (ds @ [u]) (ks @ [t'])"
      by (rule survive_append [OF o(2)]) (use that in \<open>auto intro: survive.intros\<close>)
    then show ?thesis using o u(1) by (intro in_orderI [of _ "ds @ [u]" "[]" ms "ks @ [t']"]) (simp_all add: todo_push_def)
  qed
  have gone: "in_order whole Pop a" if "tk_resch t = 0"
  proof -
    have "survive (ds @ [u]) (ks @ [])"
      by (rule survive_append [OF o(2)]) (use that u(3) in \<open>auto intro: survive.intros\<close>)
    then show ?thesis using o u(1) by (intro in_orderI [of _ "ds @ [u]" "[]" ms ks]) simp_all
  qed
  have "continues u t" "continues u (task_again now t)"
    using u(2,3) by (auto simp: continues_def task_again_def task_key_def)
  then show ?thesis
    using assms(2) again gone u(4,5) by (cases op) (auto simp: settle_def)
qed

lemma in_order_requeue: "in_order whole Requeue a \<Longrightarrow> in_order whole Over (sched_requeue a)"
proof -
  assume "in_order whole Requeue a"
  then obtain ds ks hs ms where o: "whole = ds @ hs @ ms" "survive ds ks" "in_hand Requeue hs"
    "sc_todo (sched a) = rev ks" "sc_jobs (sched a) = ms" by (rule in_orderE) simp_all
  then show "in_order whole Over (sched_requeue a)"
    unfolding in_order_def
    by (intro exI [of _ ds] exI [of _ ks] exI [of _ "[]"] exI [of _ ms]) (simp add: sched_requeue_def)
qed

lemma in_order_step:
  assumes "pass_step P g p a w = (q, b, v)" and "in_order whole p a" and "\<forall>n. 0 \<le> send_ret w n"
  shows "in_order whole q b \<and> send_ret v = send_ret w"
proof (cases p)
  case Pop
  then show ?thesis using assms(1) in_order_pop [of whole a P g w q b v] assms(2) by (auto split: list.splits)
next
  case (Perform t)
  then show ?thesis using in_order_perform [of whole t a P g w q b v] assms by simp
next
  case (Settle op now t)
  then show ?thesis using in_order_settle [of whole op now t a w q b v] assms(1,2) by simp
next
  case Requeue
  then show ?thesis using assms(1,2) in_order_requeue by auto
qed (use assms in_order_line(2) in auto)

lemma in_order_mix:
  assumes "mix P g cs (p, a, w) = (q, b, v)" and "in_order whole p a" and "\<forall>n. 0 \<le> send_ret w n"
  shows "in_order (whole @ accepted P g cs (p, a, w)) q b"
  using assms
proof (induction cs arbitrary: p a w whole)
  case (Cons c cs)
  show ?case
  proof (cases c)
    case Turn
    obtain p' a' w' where s: "pass_step P g p a w = (p', a', w')" by (rule prod_cases3)
    note st = in_order_step [OF s Cons.prems(2,3)]
    show ?thesis using Cons.IH [of p' a' w' whole] Cons.prems Turn s st by simp
  next
    case (Other m)
    obtain a' w' where s: "move_step m a w = (a', w')" by fastforce
    note mv = move_jobs [OF s]
    have "in_order (whole @ offer m a w) p a'" by (rule in_order_move [OF Cons.prems(2)]) (use mv in simp_all)
    moreover have "mix P g cs (p, a', w') = (q, b, v)" using Cons.prems(1) Other s by simp
    ultimately have "in_order ((whole @ offer m a w) @ accepted P g cs (p, a', w')) q b"
      using Cons.IH [of p a' w' "whole @ offer m a w"] Cons.prems(3) mv by metis
    then show ?thesis using Other s by simp
  qed
qed simp

text \<open>With enough memory, and a scheduler that is not told to stop, all that is asked for is taken in.\<close>

lemma pass_step_malloc: "pass_step P g p a w = (q, b, v) \<Longrightarrow> malloc_ok v = malloc_ok w"
proof (cases p)
  case (Perform t)
  assume s: "pass_step P g p a w = (q, b, v)"
  let ?w = "w\<lparr>clocks := Suc (clocks w)\<rparr>"
  obtain r c u x where j: "sched_perform_job P g a t (clock w (clocks w)) ?w = (r, c, u, x)"
    by (rule prod_cases4)
  have "malloc_ok x = malloc_ok w"
    using j by (cases rule: sched_perform_job_cases) (auto dest!: same_heap_dispatch simp: same_heap_def)
  then show ?thesis using s Perform j by (simp add: clock_gettime_def)
next
  case (Settle op now t)
  assume "pass_step P g p a w = (q, b, v)"
  then show ?thesis using Settle by (cases op) (auto simp: settle_def drop_queues_def Let_def)
next
  case Close
  assume "pass_step P g p a w = (q, b, v)"
  then show ?thesis using Close minor_kept [OF minor_not_connected [of a w]]
    by (auto simp: kept_def same_heap_def split: prod.splits)
next
  case Flush
  assume "pass_step P g p a w = (q, b, v)"
  then have "v = snd (trig_flush (trig a) w)" using Flush by (auto split: prod.splits)
  then show ?thesis using trig_flush_env(1) [of w "trig a"] by (simp add: same_but_mem_def)
qed (auto simp: tell_disconnected_def call_def split: list.splits option.splits prod.splits if_splits)

lemma all_accepted:
  assumes "\<forall>n. malloc_ok w n" and "\<not> sc_stop (sched a)"
  shows "map task_key (accepted P g cs (p, a, w)) = posted cs"
  using assms
proof (induction cs arbitrary: p a w)
  case (Cons c cs)
  show ?case
  proof (cases c)
    case Turn
    obtain p' a' w' where s: "pass_step P g p a w = (p', a', w')" by (rule prod_cases3)
    show ?thesis
      using Cons.IH [of w' a' p'] Cons.prems pass_step_agent [OF s] pass_step_malloc [OF s] Turn s by simp
  next
    case (Other m)
    obtain a' w' where s: "move_step m a w = (a', w')" by fastforce
    have "map task_key (offer m a w) = posted [Other m]"
      using Cons.prems by (cases m) (simp_all add: alloc_ok_def)
    then show ?thesis
      using Cons.IH [of w' a' p] Cons.prems move_jobs [OF s] Other s posted_Cons [of m cs] by simp
  qed
qed simp

section \<open>No starvation\<close>

text \<open>
  How many steps of the thread are left until a task with \<open>n\<close> tasks before it is taken, from each place
  at which a pass without error can be.
\<close>

fun until_taken :: "place \<Rightarrow> nat \<Rightarrow> nat" where
  "until_taken Pop n = 3 * n + 1"
| "until_taken (Settle op now u) n = 3 * n + 2"
| "until_taken (Perform u) n = 3 * n + 3"
| "until_taken _ n = 0"

definition working :: "place \<Rightarrow> bool" where
  "working p \<longleftrightarrow> (case p of Pop \<Rightarrow> True | Perform u \<Rightarrow> True | Settle op now u \<Rightarrow> op \<noteq> TASK_NET_ERROR | _ \<Rightarrow> False)"

lemma working_step:
  assumes "pass_step P g p a w = (q, b, v)" and "working p" and "\<forall>n. 0 \<le> send_ret w n"
    and "sc_jobs (sched a) = ts @ t # us"
  shows "send_ret v = send_ret w \<and> (q = Perform t \<or> (\<exists>ts'. working q \<and> sc_jobs (sched b) = ts' @ t # us
    \<and> until_taken q (length ts') < until_taken p (length ts)))"
proof (cases p)
  case Pop
  then show ?thesis using assms by (cases ts) (auto simp: working_def)
next
  case (Perform u)
  let ?w = "w\<lparr>clocks := Suc (clocks w)\<rparr>"
  obtain r c u' x where j: "sched_perform_job P g a u (clock w (clocks w)) ?w = (r, c, u', x)"
    by (rule prod_cases4)
  have "r \<noteq> TASK_NET_ERROR \<and> send_ret x = send_ret w"
    using j
  proof (cases rule: sched_perform_job_cases)
    case error
    from sched_dispatch_res [OF error(3)] have "send_ret w (sends w) < 0" by auto
    with assms(3) show ?thesis by (metis not_less)
  qed (auto dest!: same_heap_dispatch simp: same_heap_def)
  then show ?thesis
    using assms(1,4) Perform j sched_perform_job_frame(1) [OF j] by (auto simp: clock_gettime_def working_def)
next
  case (Settle op now u)
  then show ?thesis using assms
    by (cases op) (auto simp: settle_def working_def todo_push_def)
qed (use assms in \<open>auto simp: working_def\<close>)

lemma taken:
  assumes "working p" and "\<forall>n. 0 \<le> send_ret w n" and "sc_jobs (sched a) = ts @ t # us"
    and "until_taken p (length ts) \<le> turns cs"
  shows "\<exists>ds es. cs = ds @ es \<and> fst (mix P g ds (p, a, w)) = Perform t"
  using assms
proof (induction cs arbitrary: p a w ts us)
  case Nil
  then show ?case by (cases p) (auto simp: turns_def working_def)
next
  case (Cons c cs)
  have step: "\<exists>ds es. c # cs = ds @ es \<and> fst (mix P g ds (p, a, w)) = Perform t"
    if "cs = ds @ es" "fst (mix P g (c # ds) (p, a, w)) = Perform t" for ds es
    using that by (intro exI [of _ "c # ds"] exI [of _ es]) simp
  show ?case
  proof (cases c)
    case Turn
    obtain q b v where s: "pass_step P g p a w = (q, b, v)" by (rule prod_cases3)
    note st = working_step [OF s Cons.prems(1-3)]
    show ?thesis
    proof (cases "q = Perform t")
      case True
      then show ?thesis using step [of "[]" cs] s Turn by simp
    next
      case False
      then obtain ts' where ts: "working q" "sc_jobs (sched b) = ts' @ t # us"
        "until_taken q (length ts') < until_taken p (length ts)" using st by blast
      have "until_taken q (length ts') \<le> turns cs" using ts(3) Cons.prems(4) Turn by (simp add: turns_def)
      moreover have "\<forall>n. 0 \<le> send_ret v n" using st Cons.prems(2) by metis
      ultimately obtain ds es where "cs = ds @ es" "fst (mix P g ds (q, b, v)) = Perform t"
        using Cons.IH [OF ts(1) _ ts(2)] by blast
      then show ?thesis using step [of ds es] s Turn by simp
    qed
  next
    case (Other m)
    obtain b v where s: "move_step m a w = (b, v)" by fastforce
    from move_jobs [OF s] obtain vs where vs: "sc_jobs (sched b) = sc_jobs (sched a) @ vs"
      "send_ret v = send_ret w" by blast
    have "until_taken p (length ts) \<le> turns cs" using Cons.prems(4) Other by (simp add: turns_def)
    moreover have "sc_jobs (sched b) = ts @ t # (us @ vs)" "\<forall>n. 0 \<le> send_ret v n"
      using vs Cons.prems(2,3) by simp_all
    ultimately obtain ds es where "cs = ds @ es" "fst (mix P g ds (p, b, v)) = Perform t"
      using Cons.IH [OF Cons.prems(1)] by blast
    then show ?thesis using step [of ds es] s Other by simp
  qed
qed

end
