(* ===== verification/TurnProps.thy ===== *)
theory TurnProps
  imports TurnFacts Demo
begin

text \<open>
  The properties of a pass of the scheduler while others work on the same agent.
\<close>

text \<open>
  (C22) A pass that is not interrupted.  The steps of the thread alone, from the first look at the queue,
  come to the end of \<open>sched_consume\<close> within three steps for each task and five more, and have the
  effect of the function of the sequential model.
\<close>

theorem pass_alone:
  assumes "sched_consume P g a w = (r, b, v)"
  shows "\<exists>n \<le> 3 * length (sc_jobs (sched a)) + 5. mix P g (replicate n Turn) (Pop, a, w) = (Over, b, v)"
  by (rule consume_alone [OF assms])

theorem pass_alone_witness:
  "\<exists>n \<le> 8. mix demo_proto demo_garbage (replicate n Turn) (Pop, demo_agent [hello_task], demo_env)
    = (Over, snd (sched_consume demo_proto demo_garbage (demo_agent [hello_task]) demo_env))"
proof -
  obtain r b v where c: "sched_consume demo_proto demo_garbage (demo_agent [hello_task]) demo_env = (r, b, v)"
    by (rule prod_cases3)
  show ?thesis using pass_alone [OF c] by (simp add: c)
qed

text \<open>
  The accounts in every interleaving.  However the steps of a pass and what the listener and the
  callers do interleave, the memory counters are what the queues, the registry and the task in the
  hands of the thread cost, plus what others own.
\<close>

theorem mixed_pass_accounts:
  assumes "mix P g cs (Pop, a, w) = (p, b, v)" and "books k l a w" and "\<not> sc_stop (sched a)"
    and "\<forall>m. Other m \<in> set cs \<longrightarrow> move_ok m"
  shows "books (k + tasks_bytes v (held p)) l b v"
proof -
  have "pass_books k l p b v"
    by (rule mix_invariant [where I = "pass_books k l", OF _ pass_books_step pass_books_move assms(1)])
      (use assms(2-4) in \<open>auto simp: pass_books_def\<close>)
  then show ?thesis by (simp add: pass_books_def)
qed

theorem mixed_pass_accounts_witness:
  "books 0 0 (fst (snd (mix demo_proto demo_garbage [Turn, Other (Post 1 1 0 0 None 0)] (Pop, demo_agent [], demo_env))))
     (snd (snd (mix demo_proto demo_garbage [Turn, Other (Post 1 1 0 0 None 0)] (Pop, demo_agent [], demo_env))))"
proof -
  obtain p b v where m: "mix demo_proto demo_garbage [Turn, Other (Post 1 1 0 0 None 0)]
    (Pop, demo_agent [], demo_env) = (p, b, v)" by (rule prod_cases3)
  have h: "held p = []" using m by (cases "post_task 1 1 0 0 None 0 (demo_agent []) demo_env") auto
  have "books 0 0 (demo_agent []) demo_env" by (simp add: books_def trig_ctx_init_def)
  from mixed_pass_accounts [OF m this] h show ?thesis
    unfolding m by (simp add: move_ok_def)
qed

text \<open>
  (C19) The order in every interleaving.  While sends succeed, no task is lost, doubled or overtaken: the
  deferred tasks, the one in hand and those still waiting, in this order, are what is left of the
  queue followed by all tasks taken in since, in the order in which they were posted; only tasks
  without credit are gone.  A task that others post is taken in exactly if there is memory for it and
  the scheduler is not told to stop, so with enough memory and before a stop these are all tasks that
  were posted.
\<close>

theorem mixed_pass_order:
  assumes "mix P g cs (Pop, a, w) = (p, b, v)" and "sc_todo (sched a) = []" and "\<forall>n. 0 \<le> send_ret w n"
  shows "survive (sc_jobs (sched a) @ accepted P g cs (Pop, a, w))
      (rev (sc_todo (sched b)) @ held p @ sc_jobs (sched b))
    \<and> ((\<forall>n. malloc_ok w n) \<and> \<not> sc_stop (sched a) \<longrightarrow>
        map task_key (accepted P g cs (Pop, a, w)) = posted cs)"
proof -
  have "in_order (sc_jobs (sched a)) Pop a"
    using assms(2) by (intro in_orderI [of _ "[]" "[]" _ "[]"]) (auto intro: survive.nil)
  from in_order_line(1) [OF in_order_mix [OF assms(1) this assms(3)]] show ?thesis
    using all_accepted by (simp add: line_def)
qed

text \<open>The Hello is in hand while another task is posted and a new connection adds its own Hello.\<close>

theorem mixed_pass_order_witness:
  "case mix demo_proto demo_garbage [Turn, Other (Post TASK_TYPE_UE_REPORT 1 0 4 None 0), Other (Up 9)]
      (Pop, demo_agent [hello_task], demo_env) of (p, b, v) \<Rightarrow>
    survive [hello_task, (task_init TASK_TYPE_UE_REPORT 1 0 4 None 0)\<lparr>tk_issued := clock demo_env 0\<rparr>,
        (task_init TASK_TYPE_HELLO 2000 (- 1) 0 None 0)\<lparr>tk_issued := clock demo_env 1\<rparr>]
      (rev (sc_todo (sched b)) @ held p @ sc_jobs (sched b))"
proof -
  let ?cs = "[Turn, Other (Post TASK_TYPE_UE_REPORT 1 0 4 None 0), Other (Up 9)]"
  let ?a = "demo_agent [hello_task]"
  obtain p b v where m: "mix demo_proto demo_garbage ?cs (Pop, ?a, demo_env) = (p, b, v)" by (rule prod_cases3)
  have "\<forall>n. 0 \<le> send_ret demo_env n" "sc_todo (sched ?a) = []" by (simp_all add: demo_env_def demo_agent_def)
  from mixed_pass_order [OF m this(2,1)]
  have o: "survive (hello_task # accepted demo_proto demo_garbage ?cs (Pop, ?a, demo_env))
      (rev (sc_todo (sched b)) @ held p @ sc_jobs (sched b))" by simp
  obtain t x where t: "task_alloc TASK_TYPE_UE_REPORT 1 0 4 None 0 demo_env = (t, x)" by fastforce
  have x: "malloc_ok x = malloc_ok demo_env" "clock x = clock demo_env" "clocks x = 0"
    using task_alloc_after(2) [OF t] by (simp_all add: same_but_mem_def demo_env_def)
  have "accepted demo_proto demo_garbage ?cs (Pop, ?a, demo_env)
    = [(task_init TASK_TYPE_UE_REPORT 1 0 4 None 0)\<lparr>tk_issued := clock demo_env 0\<rparr>,
       (task_init TASK_TYPE_HELLO 2000 (- 1) 0 None 0)\<lparr>tk_issued := clock demo_env 1\<rparr>]"
    using t x by (simp add: alloc_ok_def post_task_eq agent_add_task_def sched_add_task_def clock_gettime_def)
  with o show ?thesis unfolding m by (simp del: mix.simps accepted.simps)
qed

text \<open>
  (C21) A pass comes to its end.  Others can prolong a pass only by posting tasks: after four steps of
  the thread for each task that was queued or posted, and two more, it is over, whatever else
  happened in between.
\<close>

theorem mixed_pass_ends:
  assumes "mix P g cs (Pop, a, w) = (p, b, v)"
    and "4 * (length (sc_jobs (sched a)) + length (posted cs)) + 2 \<le> turns cs"
  shows "p = Over"
  by (rule pass_ends_left [OF assms(1)]) (use assms(2) in \<open>simp add: pass_left_def\<close>)

theorem mixed_pass_ends_witness:
  "fst (mix demo_proto demo_garbage ([Turn, Other Down] @ replicate 6 Turn) (Pop, demo_agent [hello_task], demo_env)) = Over"
proof -
  obtain p b v where m: "mix demo_proto demo_garbage ([Turn, Other Down] @ replicate 6 Turn)
    (Pop, demo_agent [hello_task], demo_env) = (p, b, v)" by (rule prod_cases3)
  have "posted (replicate n Turn) = []" for n by (induction n) simp_all
  then have "p = Over"
    by (intro mixed_pass_ends [OF m]) (simp add: turns_def demo_agent_def)
  then show ?thesis unfolding m by simp
qed

text \<open>
  (C20) No task starves.  While sends succeed, a queued task is taken up after three steps of the thread for
  each task that was before it in the queue and one more, whatever others post or do in between.
\<close>

theorem queued_task_is_taken:
  assumes "sc_jobs (sched a) = ts @ t # us" and "\<forall>n. 0 \<le> send_ret w n" and "3 * length ts + 1 \<le> turns cs"
  shows "\<exists>ds es. cs = ds @ es \<and> fst (mix P g ds (Pop, a, w)) = Perform t"
  by (rule taken [OF _ assms(2,1)]) (use assms(3) in \<open>simp_all add: working_def\<close>)

theorem queued_task_is_taken_witness:
  "\<exists>ds es. [Turn, Other Down, Turn, Turn, Other (Up 9), Turn] = ds @ es
    \<and> fst (mix demo_proto demo_garbage ds (Pop, demo_agent [hello_task, setup_task], demo_env)) = Perform setup_task"
  by (rule queued_task_is_taken [where ts = "[hello_task]" and us = "[]"])
    (simp_all add: turns_def demo_env_def)

section \<open>What a late error destroys\<close>

text \<open>
  (C23) An error on the old connection takes down the new one.  The thread tries to send on a connection
  that is gone; before it settles the failure, the listener notices the loss too, opens a new
  connection and queues its Hello.  Then the thread drops that Hello, closes the new socket and marks
  the agent as not connected.
\<close>

theorem late_error_closes_new_connection:
  assumes "sc_jobs (sched a) = t # ts"
    and "sched_perform_job P g (jobs_pop a) t (clock w (clocks w)) (w\<lparr>clocks := Suc (clocks w)\<rparr>)
      = (TASK_NET_ERROR, c, u, x)"
    and "0 < fd" and "\<not> sc_stop (sched a)" and "\<And>n. malloc_ok w n"
  shows "\<exists>d y b v. mix P g [Turn, Turn, Other Down, Other (Up fd)] (Pop, a, w)
        = (Settle TASK_NET_ERROR (clock w (clocks w)) u, d, y)
    \<and> nt_status (net d) = NET_STATUS_CONNECTED \<and> nt_sockfd (net d) = fd \<and> sc_jobs (sched d) \<noteq> []
    \<and> mix P g [Turn, Turn, Turn, Turn] (Settle TASK_NET_ERROR (clock w (clocks w)) u, d, y) = (Over, b, v)
    \<and> nt_status (net b) = NET_STATUS_NOT_CONNECTED \<and> nt_sockfd (net b) = - 1
    \<and> sc_jobs (sched b) = [] \<and> EvClose fd \<in> set (trace v)"
proof -
  let ?w = "w\<lparr>clocks := Suc (clocks w)\<rparr>" and ?now = "clock w (clocks w)"
  note fr = sched_perform_job_frame [OF assms(2)]
  have m: "malloc_ok x = malloc_ok w"
    using assms(2) by (cases rule: sched_perform_job_cases) (auto dest!: same_heap_dispatch simp: same_heap_def)
  obtain e z where dn: "agent_not_connected c x = (e, z)" by fastforce
  have e: "sched e = sched c" "malloc_ok z = malloc_ok w"
    using minor_kept [OF minor_not_connected [of c x]] dn m by (simp_all add: kept_def same_heap_def)
  let ?e = "e\<lparr>net := (net e)\<lparr>nt_sockfd := fd\<rparr>\<rparr>"
  obtain r d y where up: "net_connected ?e z = (r, d, y)" by (rule prod_cases3)
  have ok: "alloc_ok z None" using assms(5) e(2) by (simp add: alloc_ok_def)
  obtain h z' where h: "task_alloc TASK_TYPE_HELLO 2000 (- 1) 0 None 0 z = (h, z')" by fastforce
  have d: "nt_status (net d) = NET_STATUS_CONNECTED" "nt_sockfd (net d) = fd" "sc_jobs (sched d) \<noteq> []"
    using up ok h task_alloc_after(1) [OF h] assms(4) e(1) fr(1)
    by (auto simp: net_connected_def agent_add_task_def sched_add_task_def clock_gettime_def)
  have 1: "mix P g [Turn, Turn, Other Down, Other (Up fd)] (Pop, a, w) = (Settle TASK_NET_ERROR ?now u, d, y)"
    using assms(1,2) dn up by (simp add: clock_gettime_def)
  obtain q v' where q: "drop_queues d (task_free u y) = (q, v')" by fastforce
  obtain b v where b: "sched_net_error d (task_free u y) = (b, v)" by fastforce
  have 2: "mix P g [Turn, Turn, Turn, Turn] (Settle TASK_NET_ERROR ?now u, d, y) = (Over, b, v)"
    using net_error_alone [OF q, of P g] b mix_append [of P g "[Turn]" "[Turn, Turn, Turn]"] q
    by (simp add: settle_def)
  have "nt_status (net b) = NET_STATUS_NOT_CONNECTED" "sc_jobs (sched b) = []"
    using sched_net_error_state [of d "task_free u y"] b by simp_all
  moreover have "nt_sockfd (net b) = - 1 \<and> EvClose fd \<in> set (trace v)"
    using b d(2) assms(3)
    by (auto simp: sched_net_error_def agent_not_connected_def net_not_connected_def Let_def split_beta emit_def)
  ultimately show ?thesis using 1 2 d by blast
qed

definition broken_env :: env where
  "broken_env = demo_env\<lparr>send_ret := (\<lambda>n. - 1)\<rparr>"

theorem late_error_closes_new_connection_witness:
  "\<exists>u d y b v. nt_sockfd (net d) = 7
    \<and> mix demo_proto demo_garbage [Turn, Turn, Turn, Turn] (Settle TASK_NET_ERROR (Timespec 0 0) u, d, y) = (Over, b, v)
    \<and> sc_jobs (sched b) = [] \<and> EvClose 7 \<in> set (trace v)"
proof -
  let ?a = "demo_agent [hello_task]" and ?w = "broken_env\<lparr>clocks := Suc (clocks broken_env)\<rparr>"
  obtain r c u x where j: "sched_perform_job demo_proto demo_garbage (jobs_pop ?a) hello_task (Timespec 0 0) ?w
    = (r, c, u, x)" by (rule prod_cases4)
  have r: "r = TASK_NET_ERROR" using j
    by (auto simp: sched_perform_job_def sched_dispatch_def hello_task_def task_init_def ts_diff_to_ms_def
        sched_perform_hello_def sched_send_msg_def net_send_def send_def broken_env_def demo_proto_def
        demo_env_def Let_def const_simps EM_BUF_SIZE_def split_beta split: if_splits)
  have e: "clock broken_env (clocks broken_env) = Timespec 0 0" "malloc_ok broken_env n" for n
    by (simp_all add: broken_env_def)
  have "sc_jobs (sched ?a) = hello_task # []" "(0 :: int) < 7" "\<not> sc_stop (sched ?a)" by simp_all
  from late_error_closes_new_connection [OF this(1) _ this(2,3) e(2), of demo_proto demo_garbage c u x] j
  show ?thesis unfolding e(1) r by blast
qed

text \<open>
  A trigger entered during the error is lost, its task is not.  The thread frees the queues under
  the lock and flushes the triggers after it; a request handled in between leaves a task in the queue
  whose trigger is gone.
\<close>

theorem flush_orphans_task:
  assumes "\<not> sc_stop (sched a)" and "\<And>n. malloc_ok w n"
  shows "\<exists>b v s. mix P g [Turn, Other (Enter m ty inst msg), Other (Post tty 1 0 (tx_next (trig a)) None 0), Turn]
      (Settle TASK_NET_ERROR now t, a, w) = (Tell, b, v)
    \<and> sc_jobs (sched b) = [s] \<and> tk_trig s = tx_next (trig a) \<and> trig_find_by_id (trig b) (tk_trig s) = None"
proof -
  obtain c x where c: "drop_queues a (task_free t w) = (c, x)" by fastforce
  have cc: "sc_jobs (sched c) = []" "trig c = trig a" "sc_stop (sched c) = sc_stop (sched a)"
    "malloc_ok x = malloc_ok w"
    using c by (auto simp: drop_queues_def Let_def)
  obtain s y where s: "trig_alloc m ty inst (Some msg) (msg_size msg) x = (s, y)" by fastforce
  note sa = trig_alloc_after [OF s]
  obtain h z where h: "task_alloc tty 1 0 (tx_next (trig a)) None 0 y = (h, z)" by fastforce
  note ha = task_alloc_after [OF h]
  have ok: "alloc_ok x (Some msg)" "alloc_ok y None"
    using assms(2) cc(4) sa(2) by (simp_all add: alloc_ok_def same_but_mem_def)
  let ?d = "c\<lparr>trig := trig_enter (new_trig (trig c) m ty inst msg) (trig c)\<rparr>"
  obtain r e v where p: "post_task tty 1 0 (tx_next (trig a)) None 0 ?d y = (r, e, v)" by (rule prod_cases3)
  have e: "\<exists>k. sc_jobs (sched e) = [(task_init tty 1 0 (tx_next (trig a)) None 0)\<lparr>tk_issued := k\<rparr>]"
    using p ok(2) cc assms(1) by (auto simp: post_task_eq agent_add_task_def sched_add_task_def clock_gettime_def)
  have "mix P g [Turn, Other (Enter m ty inst msg), Other (Post tty 1 0 (tx_next (trig a)) None 0), Turn]
      (Settle TASK_NET_ERROR now t, a, w) = (Tell, e\<lparr>trig := fst (trig_flush (trig e) v)\<rparr>, snd (trig_flush (trig e) v))"
    using c s sa(1) ok(1) p by (simp add: settle_def enter_trig_def trig_add_new split_beta)
  then show ?thesis using e by (auto simp: trig_find_by_id_def trig_flush_def)
qed

theorem flush_orphans_task_witness:
  "\<exists>b v s. mix demo_proto demo_garbage [Turn, Other (Enter 1 0 0 [1]), Other (Post TASK_TYPE_UE_REPORT 1 0 1 None 0), Turn]
      (Settle TASK_NET_ERROR (Timespec 0 0) hello_task, demo_agent [], demo_env) = (Tell, b, v)
    \<and> sc_jobs (sched b) = [s] \<and> tk_trig s = 1 \<and> trig_find_by_id (trig b) 1 = None"
proof -
  have n: "tx_next (trig (demo_agent [])) = 1" by (simp add: trig_ctx_init_def)
  have "\<not> sc_stop (sched (demo_agent []))" "malloc_ok demo_env k" for k by simp_all
  from flush_orphans_task [OF this, of demo_proto demo_garbage 1 0 0 "[1]" TASK_TYPE_UE_REPORT
      "Timespec 0 0" hello_task] show ?thesis unfolding n by metis
qed

end
