(* ===== verification/TurnMoves.thy ===== *)
theory TurnMoves
  imports TurnFacts Core
begin

text \<open>
  The handlers of messages and the calls of the API, as far as they reach one agent, are sequences of
  the moves of theory \<open>Turns\<close>, with arguments that respect the type of the task or trigger they make.
\<close>

section \<open>Types of tasks and triggers\<close>

text \<open>
  What the tag of a task promises of its other fields: a known type, a message exactly where the
  function behind the type reads one, a message as long as its size says, and no credit or endless
  credit (no caller gives another).
\<close>

definition with_message :: "int list" where
  "with_message = [TASK_TYPE_SEND, TASK_TYPE_ENB_SETUP, TASK_TYPE_HO, TASK_TYPE_RAN_SETUP, TASK_TYPE_RAN_SLICE]"

definition task_typed :: "emtask \<Rightarrow> bool" where
  "task_typed t \<longleftrightarrow>
     (case tk_msg t of None \<Rightarrow> tk_msg_size t = 0 | Some b \<Rightarrow> length b = unat (tk_msg_size t))
     \<and> (tk_msg t \<noteq> None \<longleftrightarrow> tk_type t \<in> set with_message
          \<or> tk_type t = TASK_TYPE_CELL_MEASURE \<and> \<not> 0 <s tk_trig t)
     \<and> (tk_type t \<in> set with_message \<or> tk_type t \<in> {TASK_TYPE_HELLO, TASK_TYPE_UE_REPORT,
          TASK_TYPE_UE_MEASURE, TASK_TYPE_CELL_MEASURE})
     \<and> tk_resch t \<in> {0, - 1}"

definition trig_typed :: "emtri \<Rightarrow> bool" where
  "trig_typed t \<longleftrightarrow> (\<exists>b. tr_msg t = Some b \<and> length b = unat (tr_msg_size t))"

definition agent_typed :: "emage \<Rightarrow> bool" where
  "agent_typed a \<longleftrightarrow> (\<forall>t \<in> set (sc_jobs (sched a)) \<union> set (sc_todo (sched a)). task_typed t)
     \<and> (\<forall>t \<in> set (tx_ts (trig a)). trig_typed t)
     \<and> nt_status (net a) \<in> {NET_STATUS_NOT_CONNECTED, NET_STATUS_CONNECTED}
     \<and> length (nt_buf (net a)) = EM_BUF_SIZE"

definition move_typed :: "move \<Rightarrow> bool" where
  "move_typed m = (case m of Post ty intv res trg msg sz \<Rightarrow> task_typed (task_init ty intv res trg msg sz)
     | _ \<Rightarrow> True)"

text \<open>What a handler may do: no connection is opened or closed; with the types of its tasks, or without.\<close>

definition plain_move :: "move \<Rightarrow> bool" where
  "plain_move m \<longleftrightarrow> move_ok m \<and> (\<forall>fd. m \<noteq> Up fd) \<and> m \<noteq> Down"

definition handler_move :: "move \<Rightarrow> bool" where
  "handler_move m \<longleftrightarrow> plain_move m \<and> move_typed m"

lemma msg_size_take [simp]: "length (take (unat (msg_size msg)) msg) = unat (msg_size msg)"
  by (simp add: msg_size_def unat_of_nat)

section \<open>Sequences of moves\<close>

definition by_moves :: "(move \<Rightarrow> bool) \<Rightarrow> emage \<Rightarrow> env \<Rightarrow> emage \<Rightarrow> env \<Rightarrow> bool" where
  "by_moves Q a w b v \<longleftrightarrow> (\<exists>ms. moves ms a w = (b, v) \<and> list_all Q ms)"

lemma moves_append: "moves ms a w = (b, v) \<Longrightarrow> moves (ms @ ns) a w = moves ns b v"
  by (induction ms arbitrary: a w) (auto simp: split_beta)

text \<open>A message of a handler that posts a task with it has the type the handler needs.\<close>

lemma posted_message_typed:
  "ty \<in> set with_message \<Longrightarrow> res \<in> {0, - 1} \<Longrightarrow> task_typed (task_init ty intv res 0 (Some msg) (msg_size msg))"
  "res \<in> {0, - 1} \<Longrightarrow> task_typed (task_init TASK_TYPE_CELL_MEASURE intv res 0 (Some msg) (msg_size msg))"
  by (auto simp: task_typed_def with_message_def const_simps simp del: length_take)

text \<open>Kinds of moves to which the moves of the handlers belong.\<close>

locale handler_moves =
  fixes Q :: "move \<Rightarrow> bool"
  assumes enters: "Q (Enter m ty inst msg)" and drops: "Q (DropId i)" "Q (DropInst m ty inst)"
    and says: "Q (Say proc what)"
    and posts: "task_typed (task_init ty intv res trg pay sz) \<Longrightarrow> pay = None \<longrightarrow> sz = 0
      \<Longrightarrow> Q (Post ty intv res trg pay sz)"
begin

lemma via_refl [simp]: "by_moves Q a w a w"
  unfolding by_moves_def by (intro exI [of _ "[]"]) simp

lemma via_trans [trans]:
  assumes "by_moves Q a w b v" and "by_moves Q b v c u"
  shows "by_moves Q a w c u"
proof -
  obtain ms ns where "moves ms a w = (b, v)" "list_all Q ms"
    "moves ns b v = (c, u)" "list_all Q ns" using assms by (auto simp: by_moves_def)
  then show ?thesis
    unfolding by_moves_def by (intro exI [of _ "ms @ ns"]) (simp add: moves_append)
qed

lemma via_one: "Q m \<Longrightarrow> move_step m a w = (b, v) \<Longrightarrow> by_moves Q a w b v"
  unfolding by_moves_def by (intro exI [of _ "[m]"]) simp

lemma via_log [simp]: "by_moves Q a w a (EMLOG (Some (enb_id a)) proc what w)"
  by (rule via_one [of "Say proc what"]) (simp_all add: says)

lemma via_post:
  assumes "post_task ty intv res trg msg sz a w = (r, b, v)"
    and "task_typed (task_init ty intv res trg msg sz)" and "msg = None \<longrightarrow> sz = 0"
  shows "by_moves Q a w b v"
  by (rule via_one [of "Post ty intv res trg msg sz"])
    (use assms posts in simp_all)

lemma via_drop: "drop_inst m ty inst a w = (r, b, v) \<Longrightarrow> by_moves Q a w b v"
  by (rule via_one [of "DropInst m ty inst"]) (simp_all add: drops)

text \<open>A request to watch: enter the trigger, post its task, or take the trigger out again.\<close>

lemma via_watch:
  assumes "watch proc m ty inst tty msg a w = (r, b, v)"
    and "Q (Post tty 1 0 (tx_next (trig a)) None 0)"
  shows "by_moves Q a w b v"
proof -
  obtain t u where t: "trig_alloc m ty inst (Some msg) (msg_size msg) w = (t, u)" by fastforce
  show ?thesis
  proof (cases t)
    case None
    have "by_moves Q a w a u" by (rule via_one [of "Enter m ty inst msg"]) (simp_all add: enters enter_trig_def t None)
    also have "by_moves Q a u a (EMLOG (Some (enb_id a)) proc ''Trigger creation failed!'' u)" by simp
    finally show ?thesis using assms(1) t None by (auto simp: watch_def)
  next
    case (Some t')
    obtain i t2 ctx where add: "trig_add (trig a) t' = (i, t2, ctx)" by (rule prod_cases3)
    then have i: "tr_id t2 = tx_next (trig a)" by (auto simp: trig_add_def Let_def)
    let ?a = "a\<lparr>trig := ctx\<rparr>"
    have e: "by_moves Q a w ?a u"
      by (rule via_one [of "Enter m ty inst msg"]) (simp_all add: enters enter_trig_def t Some add)
    obtain s x where s: "task_alloc tty 1 0 (tr_id t2) None 0 u = (s, x)" by fastforce
    obtain k c y where p: "post_task tty 1 0 (tr_id t2) None 0 ?a u = (k, c, y)" by (rule prod_cases3)
    have "by_moves Q ?a u c y" by (rule via_one [OF assms(2)]) (use p i in simp)
    with e have c: "by_moves Q a w c y" by (rule via_trans)
    show ?thesis
    proof (cases s)
      case None
      then have y: "c = ?a" "y = x" using p s by (simp_all add: post_task_def)
      let ?y = "EMLOG (Some (enb_id a)) proc ''Cannot create task!'' x"
      obtain r' d z where del: "trig_del_by_id ctx (tr_id t2) ?y = (r', d, z)" by (rule prod_cases3)
      have "by_moves Q ?a x ?a ?y" using via_log [of ?a x proc] by simp
      moreover have "by_moves Q ?a ?y (?a\<lparr>trig := d\<rparr>) z"
        by (rule via_one [of "DropId (tr_id t2)"]) (simp_all add: drops del)
      ultimately have "by_moves Q a w (?a\<lparr>trig := d\<rparr>) z" using c y by (blast intro: via_trans)
      then show ?thesis using assms(1) t Some add s None del by (auto simp: watch_def)
    next
      case (Some s')
      then show ?thesis using assms(1) t \<open>t = Some t'\<close> add s p c by (auto simp: watch_def post_task_def)
    qed
  qed
qed

lemma report_post: "Q (Post TASK_TYPE_UE_REPORT 1 0 i None 0)" "Q (Post TASK_TYPE_UE_MEASURE 1 0 i None 0)"
  by (rule posts; simp add: task_typed_def with_message_def const_simps)+

lemma via_measure_add:
  "ue_measure_add m rs msg n a w = (b, v) \<Longrightarrow> by_moves Q a w b v"
proof (induction n arbitrary: a w)
  case (Suc n)
  obtain r c u where s: "watch ''net_te_ue_measure'' m TR_TYPE_UE_MEAS (uint (meas_id (rs n)))
      TASK_TYPE_UE_MEASURE msg a w = (r, c, u)" by (rule prod_cases3)
  have wa: "by_moves Q a w c u"
    by (rule via_watch [OF s report_post(2)])
  show ?case
  proof (cases r)
    case None
    then show ?thesis using Suc.prems s wa
      by (simp add: ue_measure_add_watch del: ue_measure_add.simps)
  next
    case (Some k)
    then have "ue_measure_add m rs msg n c u = (b, v)"
      using Suc.prems s by (simp add: ue_measure_add_watch del: ue_measure_add.simps)
    from via_trans [OF wa Suc.IH [OF this]] show ?thesis .
  qed
qed simp

lemma via_measure_del:
  "ue_measure_del m rs n (trig a) w = (c, v) \<Longrightarrow> by_moves Q a w (a\<lparr>trig := c\<rparr>) v"
proof (induction n arbitrary: a w)
  case (Suc n)
  obtain r b u where d: "drop_inst m TR_TYPE_UE_MEAS (uint (meas_id (rs n))) a w = (r, b, u)" by (rule prod_cases3)
  have b: "b = a\<lparr>trig := trig b\<rparr>" using d by (auto simp: drop_inst_def split: prod.splits)
  have "ue_measure_del m rs n (trig b) u = (c, v)"
    using Suc.prems d by (simp add: ue_measure_del_drop del: ue_measure_del.simps)
  from Suc.IH [OF this] via_drop [OF d] have "by_moves Q a w (b\<lparr>trig := c\<rparr>) v"
    by (blast intro: via_trans)
  moreover have "b\<lparr>trig := c\<rparr> = a\<lparr>trig := c\<rparr>" by (subst b) simp
  ultimately show ?case by simp
next
  case 0
  have "a\<lparr>trig := trig a\<rparr> = a" by (cases a) simp
  then show ?case using 0 by auto
qed

lemma via_post_message:
  assumes "post_task ty intv res 0 (Some msg) (msg_size msg) a w = (r, b, v)"
    and "ty \<in> set with_message" and "res \<in> {0, - 1}"
  shows "by_moves Q a w b v"
  by (rule via_post [OF assms(1) posted_message_typed(1) [OF assms(2,3)]]) simp

lemma via_message:
  assumes "net_process_message P g a msg w = (r, b, v)"
    and "Q (Post TASK_TYPE_CELL_MEASURE 1 0 (tx_next (trig a)) None 0)"
  shows "by_moves Q a w b v"
proof -
  have report: "by_moves Q a w b v" if "net_te_ue_report P g a msg w = (r, b, v)"
    using that
    by (auto simp: net_trigger_watch(1) split: if_splits prod.splits intro: via_watch via_drop report_post)
  have cell: "by_moves Q a w b v" if "net_te_cell_meas_report P g a msg w = (r, b, v)"
    using that assms(2)
    by (auto simp: net_trigger_watch(2) split: if_splits prod.splits intro: via_watch via_drop)
  have meas: "by_moves Q a w b v" if "net_te_ue_measure P g a msg w = (r, b, v)"
    using that
    by (auto simp: net_te_ue_measure_def Let_def split: if_splits prod.splits
        intro: via_measure_add via_measure_del)
  show ?thesis
    using assms(1)
    by (auto simp: net_process_message_def net_process_single_event_def net_sc_hello_def
        net_process_sched_event_def net_process_trigger_event_def net_single_post Let_def with_message_def
        split: if_splits intro: report cell meas via_post_message via_post [OF _ posted_message_typed(2)])
qed

text \<open>\<open>core_send\<close>, the part of \<open>em_send\<close> that reaches the agent.\<close>

lemma via_send:
  assumes "core_send a msg sz w = (r, b, v)" and "unat sz \<le> length msg"
  shows "by_moves Q a w b v"
proof -
  obtain t u where t: "task_alloc TASK_TYPE_SEND 1 0 0 (Some msg) sz w = (t, u)" by fastforce
  obtain k c y where p: "post_task TASK_TYPE_SEND 1 0 0 (Some msg) sz a w = (k, c, y)" by (rule prod_cases3)
  have "by_moves Q a w c y"
    by (rule via_post [OF p]) (use assms(2) in \<open>simp_all add: task_typed_def with_message_def\<close>)
  moreover have "t = None \<Longrightarrow> by_moves Q a u a (EMLOG (Some (enb_id a)) ''core_send'' ''Cannot create new SEND task'' u)"
    by simp
  ultimately show ?thesis
    using assms(1) t p by (cases t) (auto simp: core_send_def post_task_def net_sched_task_def intro: via_trans)
qed

end

text \<open>
  Both kinds of moves are such; for the types of the tasks the counter of identifiers must not have
  become negative.
\<close>

interpretation ty: handler_moves handler_move
  by unfold_locales (simp_all add: handler_move_def plain_move_def move_ok_def move_typed_def)

interpretation pl: handler_moves plain_move
  by unfold_locales (simp_all add: plain_move_def move_ok_def)

lemma cell_post_typed:
  "0 <s i \<Longrightarrow> handler_move (Post TASK_TYPE_CELL_MEASURE 1 0 i None 0)"
  "plain_move (Post TASK_TYPE_CELL_MEASURE 1 0 i None 0)"
  by (simp_all add: handler_move_def plain_move_def move_ok_def move_typed_def task_typed_def with_message_def
      const_simps)

lemmas message_typed_moves = ty.via_message [OF _ cell_post_typed(1)]
lemmas message_moves = pl.via_message [OF _ cell_post_typed(2)]

end
