(* ===== verification/TurnTypes.thy ===== *)
theory TurnTypes
  imports TurnMoves Demo
begin

text \<open>
  Tasks and triggers keep the shape that the functions behind their types rely on, in every
  interleaving of a pass with messages and calls.
\<close>

section \<open>Steps keep the types\<close>

text \<open>Of \<open>libemproto\<close>: writing the sequence number into a message does not change its length.\<close>

definition seq_in_place :: "emproto \<Rightarrow> bool" where
  "seq_in_place P \<longleftrightarrow> (\<forall>m s. length (epf_seq P m s) = length m)"

lemma task_typed_again [simp]: "task_typed t \<Longrightarrow> task_typed (task_again now t)"
  by (auto simp: task_typed_def task_again_def split: option.splits)

lemma task_typed_issued [simp]: "task_typed (t\<lparr>tk_issued := now\<rparr>) = task_typed t"
  by (simp add: task_typed_def split: option.split)

lemma sent_same_length:
  "sched_send_msg P a m sz w = (r, m', b, v) \<Longrightarrow> seq_in_place P \<Longrightarrow> length m' = length m"
  by (auto simp: sched_send_msg_def seq_in_place_def Let_def split: if_splits prod.splits)

lemma dispatch_types:
  assumes "sched_dispatch P g a t w = (r, b, u, v)" and "seq_in_place P" and "task_typed t"
  shows "task_typed u"
  using assms
  by (auto simp: sched_dispatch_def sched_perform_send_def task_typed_def buf_of_def Let_def dest: sent_same_length
      split: if_splits prod.splits option.splits)

lemma job_types:
  assumes "sched_perform_job P g a t now w = (r, b, u, v)" and "seq_in_place P"
    and "task_typed t" and "agent_typed a"
  shows "task_typed u \<and> agent_typed b"
proof
  show "task_typed u"
    using assms(1) by (cases rule: sched_perform_job_cases) (use assms(2,3) dispatch_types in blast)+
  show "agent_typed b" using job_agent [OF assms(1)] assms(4) by (auto simp: agent_typed_def)
qed

definition pass_typed :: "place \<Rightarrow> emage \<Rightarrow> env \<Rightarrow> bool" where
  "pass_typed p a w \<longleftrightarrow> agent_typed a \<and> (\<forall>t \<in> set (held p). task_typed t)"

lemma pass_typed_step:
  assumes "pass_step P g p a w = (q, b, v)" and "pass_typed p a w" and "seq_in_place P"
  shows "pass_typed q b v"
proof (cases p)
  case (Perform t)
  let ?w = "w\<lparr>clocks := Suc (clocks w)\<rparr>"
  obtain r c u x where j: "sched_perform_job P g a t (clock w (clocks w)) ?w = (r, c, u, x)"
    by (rule prod_cases4)
  then show ?thesis
    using job_types [OF j assms(3)] assms(1,2) Perform by (auto simp: pass_typed_def clock_gettime_def)
next
  case (Settle op now t)
  then show ?thesis
    using assms(1,2)
    by (cases op) (auto simp: pass_typed_def agent_typed_def settle_def drop_queues_def todo_push_def Let_def)
qed (use assms in \<open>auto simp: pass_typed_def agent_typed_def trig_flush_def sched_requeue_def agent_not_connected_def
      net_not_connected_def Let_def split: list.splits if_splits prod.splits\<close>)

lemma posted_types:
  assumes "snd (agent_add_task a t w) = (b, v)" and "task_typed t" and "agent_typed a"
  shows "agent_typed b"
  using assms by (auto simp: agent_add_task_def sched_add_task_def clock_gettime_def agent_typed_def split: if_splits)

lemma pass_typed_move:
  assumes "move_step m a w = (b, v)" and "move_typed m" and "pass_typed p a w"
  shows "pass_typed p b v"
proof -
  have a: "agent_typed a" using assms(3) by (simp add: pass_typed_def)
  have "agent_typed b"
  proof (cases m)
    case (Post ty intv res trg msg sz)
    then show ?thesis
      using assms(1,2) a posted_types by (auto simp: post_task_eq move_typed_def split: if_splits)
  next
    case (Enter m' ty inst msg)
    obtain t u where t: "trig_alloc m' ty inst (Some msg) (msg_size msg) w = (t, u)" by fastforce
    have "trig_typed (new_trig ctx m' ty inst msg)" for ctx
      by (simp add: trig_typed_def new_trig_def del: length_take)
    then show ?thesis
      using assms(1) a Enter t trig_alloc_after(1) [OF t]
      by (auto simp: enter_trig_def trig_add_new agent_typed_def split: if_splits)
  next
    case (DropId i)
    then show ?thesis
      using assms(1) a
      by (auto dest!: delete_first_subset [THEN subsetD] simp: agent_typed_def trig_del_by_id_def split: option.splits prod.splits)
  next
    case (DropInst m' ty inst)
    then show ?thesis
      using assms(1) a
      by (auto dest!: delete_first_subset [THEN subsetD] simp: drop_inst_def agent_typed_def trig_del_by_inst_def split: option.splits prod.splits)
  next
    case (Up fd)
    obtain t u where t: "task_alloc TASK_TYPE_HELLO 2000 (- 1) 0 None 0 w = (t, u)" by fastforce
    have h: "task_typed (task_init TASK_TYPE_HELLO 2000 (- 1) 0 None 0)"
      by (simp add: task_typed_def with_message_def const_simps)
    then show ?thesis
      using assms(1) a Up t task_alloc_after(1) [OF t]
      by (auto simp: net_connected_def agent_add_task_def sched_add_task_def clock_gettime_def agent_typed_def
          split: if_splits)
  next
    case Down
    then show ?thesis
      using assms(1) a
      by (auto simp: agent_not_connected_def net_not_connected_def agent_typed_def Let_def split: if_splits)
  next
    case (Say proc what)
    then show ?thesis using assms(1) a by simp
  qed
  then show ?thesis using assms(3) by (simp add: pass_typed_def)
qed

section \<open>Properties\<close>

text \<open>
  (C24) Handling a message is a sequence of moves.  As long as the counter of trigger identifiers is
  positive (it has not overflowed), whatever the message and whichever allocations fail, the state that the handler leaves is the one that a list of moves leaves that post well-typed
  tasks, enter or remove triggers and write to the log.  What holds of a pass with any moves in between
  therefore holds when whole messages come in between, or halves of them.
\<close>

theorem message_is_moves:
  assumes "net_process_message P g a msg w = (r, b, v)" and "0 <s tx_next (trig a)"
  shows "\<exists>ms. moves ms a w = (b, v) \<and> list_all handler_move ms
    \<and> (\<forall>p. mix P g (map Other ms) (p, a, w) = (p, b, v))"
  using message_typed_moves [OF assms] by (auto simp: by_moves_def mix_moves)

theorem message_is_moves_witness:
  "\<exists>ms. moves ms (demo_agent []) demo_env
      = snd (net_process_message demo_proto demo_garbage (demo_agent []) [1, 4, 2, 0] demo_env)
    \<and> list_all handler_move ms"
proof -
  obtain r b v where m: "net_process_message demo_proto demo_garbage (demo_agent []) [1, 4, 2, 0] demo_env = (r, b, v)"
    by (rule prod_cases3)
  have "0 <s tx_next (trig (demo_agent []))" by (simp add: trig_ctx_init_def word_sless_alt)
  from message_is_moves [OF m this] show ?thesis unfolding m by auto
qed

text \<open>
  (C25) Types are kept.  In every interleaving, every task queued, deferred or in hand has a known type,
  a message exactly if the function behind its type reads one, as long as its size says, and no
  credit or endless credit; triggers have their message; the status is one of the two known and the
  buffer has its size.
\<close>

theorem mixed_pass_types:
  assumes "mix P g cs (Pop, a, w) = (p, b, v)" and "agent_typed a" and "seq_in_place P"
    and "\<forall>m. Other m \<in> set cs \<longrightarrow> move_typed m"
  shows "agent_typed b \<and> (\<forall>t \<in> set (held p). task_typed t)"
proof -
  have "pass_typed p b v"
    by (rule mix_invariant [where I = pass_typed, OF _ _ _ assms(1)])
      (use assms(2-4) pass_typed_step pass_typed_move in \<open>auto simp: pass_typed_def\<close>)
  then show ?thesis by (simp add: pass_typed_def)
qed

definition in_place_proto :: emproto where
  "in_place_proto = demo_proto\<lparr>epf_seq := (\<lambda>m s. take (length m) (ucast s # tl m))\<rparr>"

definition demo_post :: move where
  "demo_post = Post TASK_TYPE_HO 1 0 0 (Some [1, 4, 3, 0]) 4"

theorem mixed_pass_types_witness:
  "agent_typed (fst (snd (mix in_place_proto demo_garbage [Turn, Other demo_post, Turn, Turn]
     (Pop, demo_agent [hello_task, setup_task], demo_env))))"
proof -
  obtain p b v where m: "mix in_place_proto demo_garbage [Turn, Other demo_post, Turn, Turn]
    (Pop, demo_agent [hello_task, setup_task], demo_env) = (p, b, v)" by (rule prod_cases3)
  have "agent_typed (demo_agent [hello_task, setup_task])"
    by (simp add: agent_typed_def task_typed_def hello_task_def setup_task_def with_message_def const_simps
        trig_ctx_init_def demo_agent_def EM_BUF_SIZE_def)
  moreover have "seq_in_place in_place_proto" by (auto simp: seq_in_place_def in_place_proto_def)
  moreover have "move_typed demo_post"
    by (simp add: move_typed_def demo_post_def task_typed_def with_message_def const_simps)
  ultimately have "agent_typed b" using mixed_pass_types [OF m] by (simp add: demo_post_def)
  then show ?thesis by (simp only: m fst_conv snd_conv)
qed

end
