(* ===== verification/Borrow.thy ===== *)
theory Borrow
  imports Turns
begin

text \<open>
  The registry of triggers with its pointers.  \<open>trig_find_by_id\<close> and \<open>trig_add\<close> (\<open>src/agent/triggers.c\<close>)
  give back the lock of the context before they return, and their callers go on to read the trigger
  through the pointer: the scheduler in \<open>sched_perform_ue_measure\<close> and \<open>sched_perform_cell_meas\<close>, the
  listener in \<open>net_te_ue_report\<close> and its siblings.  Here a trigger has an address and can be freed, and
  the users of the registry take turns between any two accesses.
\<close>

section \<open>The store\<close>

type_synonym tri_addr = nat

text \<open>
  The addresses in the list, in its order; what is at an address (\<open>None\<close>: nothing allocated); the
  counter of identifiers; the first address \<open>malloc\<close> has not given out; the process.
\<close>

record store =
  st_list :: "tri_addr list"
  st_cell :: "tri_addr \<Rightarrow> emtri option"
  st_next :: i32
  st_fresh :: tri_addr
  st_env :: env

definition trctx_of :: "store \<Rightarrow> trctx" where
  "trctx_of s = \<lparr>tx_ts = map (\<lambda>x. the (st_cell s x)) (st_list s), tx_next = st_next s\<rparr>"

datatype bad = UseAfterFree tri_addr | DoubleFree tri_addr

section \<open>Accesses\<close>

text \<open>Under the lock: search, enter, unlink.  The search reads each trigger up to the one it looks for.\<close>

fun scan :: "(emtri \<Rightarrow> bool) \<Rightarrow> (tri_addr \<Rightarrow> emtri option) \<Rightarrow> tri_addr list \<Rightarrow> bad + tri_addr option" where
  "scan Q h [] = Inr None"
| "scan Q h (x # xs) =
     (case h x of
        None \<Rightarrow> Inl (UseAfterFree x)
      | Some t \<Rightarrow> if Q t then Inr (Some x) else scan Q h xs)"

definition search :: "(emtri \<Rightarrow> bool) \<Rightarrow> store \<Rightarrow> bad + tri_addr option" where
  "search Q s = scan Q (st_cell s) (st_list s)"

definition enter_at :: "tri_addr \<Rightarrow> store \<Rightarrow> store" where
  "enter_at x s =
     s\<lparr>st_cell := (st_cell s)(x := map_option (\<lambda>t. t\<lparr>tr_id := st_next s\<rparr>) (st_cell s x)),
       st_next := st_next s + 1, st_list := x # st_list s\<rparr>"

definition unlink :: "tri_addr \<Rightarrow> store \<Rightarrow> store" where
  "unlink x s = s\<lparr>st_list := remove1 x (st_list s)\<rparr>"

text \<open>Without the lock: allocate, free, read through a pointer.\<close>

definition make_at :: "u32 \<Rightarrow> int \<Rightarrow> int \<Rightarrow> bytes \<Rightarrow> store \<Rightarrow> tri_addr option \<times> store" where
  "make_at m ty inst msg s =
     (let (t, w) = trig_alloc m ty inst (Some msg) (msg_size msg) (st_env s);
          s = s\<lparr>st_env := w\<rparr>
      in case t of
           None \<Rightarrow> (None, s)
         | Some t \<Rightarrow>
             (Some (st_fresh s),
              s\<lparr>st_cell := (st_cell s)(st_fresh s := Some t), st_fresh := Suc (st_fresh s)\<rparr>))"

definition release_at :: "tri_addr \<Rightarrow> store \<Rightarrow> bad + store" where
  "release_at x s =
     (case st_cell s x of
        None \<Rightarrow> Inl (DoubleFree x)
      | Some t \<Rightarrow> Inr (s\<lparr>st_cell := (st_cell s)(x := None), st_env := trig_free t (st_env s)\<rparr>))"

text \<open>The loop of \<open>trig_flush\<close>, which frees under the lock.\<close>

fun sweep_from :: "tri_addr list \<Rightarrow> store \<Rightarrow> bad + store" where
  "sweep_from [] s = Inr s"
| "sweep_from (x # xs) s =
     (case release_at x (unlink x s) of Inl b \<Rightarrow> Inl b | Inr s \<Rightarrow> sweep_from xs s)"

definition deref :: "tri_addr \<Rightarrow> store \<Rightarrow> bad + emtri" where
  "deref x s = (case st_cell s x of None \<Rightarrow> Inl (UseAfterFree x) | Some t \<Rightarrow> Inr t)"

section \<open>Users\<close>

text \<open>
  Where a user stands.  The scheduler measures: looks a trigger up, reads its message, reads its module
  and identifier for each call of the wrapper.  The listener watches: allocates a trigger, enters it,
  reads its identifier for the task, reads it again to take the trigger out when there is no memory
  for the task.  Anyone removes: unlinks, then frees.  The scheduler flushes after a network error.
\<close>

datatype user =
    LookUe i32
  | ParseUe tri_addr
  | ReportUe tri_addr "nat \<Rightarrow> ep_rrc" nat
  | LookCell i32
  | ParseCell tri_addr
  | Make string u32 int int bytes int
  | Link string tri_addr int
  | Hand string tri_addr int
  | Undo tri_addr
  | SeekId i32
  | SeekInst u32 int int
  | Free tri_addr
  | Sweep
  | Done

definition parse_ue :: "emproto \<Rightarrow> stack_garbage \<Rightarrow> tri_addr \<Rightarrow> emtri \<Rightarrow> user" where
  "parse_ue P g x t =
     (let (e, m) = epp_trigger_uemeas_req P (buf_of (tr_msg t)) (g_meas g)
      in if e \<noteq> 0 then Done else ReportUe x (rrc m) (nof_rrc m))"

definition report_ue :: "u64 \<Rightarrow> (nat \<Rightarrow> ep_rrc) \<Rightarrow> nat \<Rightarrow> emtri \<Rightarrow> env \<Rightarrow> env" where
  "report_ue e rs n t w =
     call e (CbUeMeasure (tr_mod t) (tr_id t) (meas_id (rs n)) (rnti (rs n)) (earfcn (rs n))
       (interval (rs n)) (max_cells (rs n)) (max_meas (rs n))) w"

definition parse_cell :: "emproto \<Rightarrow> stack_garbage \<Rightarrow> u64 \<Rightarrow> emtri \<Rightarrow> env \<Rightarrow> env" where
  "parse_cell P g e t w =
     (let (r, hd) = epp_head P (buf_of (tr_msg t)) ((g_hdr g)\<lparr>hd_mod := 0\<rparr>)
      in if r \<noteq> 0 \<or> epp_trigger_cell_meas_req P (buf_of (tr_msg t)) \<noteq> 0 then w
         else call e (CbCellMeasure (hd_cell hd) (tr_mod t) 0 (tr_id t)) w)"

text \<open>What becomes of the task is the matter of the queue, which is not part of the store.\<close>

definition hand_over :: "string \<Rightarrow> u64 \<Rightarrow> tri_addr \<Rightarrow> int \<Rightarrow> emtri \<Rightarrow> env \<Rightarrow> user \<times> env" where
  "hand_over proc e x tty t w =
     (let (s, w) = task_alloc tty 1 0 (tr_id t) None 0 w
      in case s of
           None \<Rightarrow> (Undo x, EMLOG (Some e) proc ''Cannot create task!'' w)
         | Some s \<Rightarrow> (Done, w))"

definition seek :: "(emtri \<Rightarrow> bool) \<Rightarrow> store \<Rightarrow> bad + user \<times> store" where
  "seek Q s =
     (case search Q s of
        Inl b \<Rightarrow> Inl b
      | Inr None \<Rightarrow> Inr (Done, s)
      | Inr (Some x) \<Rightarrow> Inr (Free x, unlink x s))"

text \<open>The functions of \<open>triggers.c\<close> that remove: \<open>trig_del_by_id\<close>, \<open>trig_del_by_inst\<close>, \<open>trig_flush\<close>.\<close>

fun remove_step :: "user \<Rightarrow> store \<Rightarrow> bad + user \<times> store" where
  "remove_step (SeekId i) s = seek (\<lambda>t. tr_id t = i) s"
| "remove_step (SeekInst m ty inst) s = seek (inst_key m ty inst) s"
| "remove_step (Free x) s = (case release_at x s of Inl b \<Rightarrow> Inl b | Inr s \<Rightarrow> Inr (Done, s))"
| "remove_step Sweep s = (case sweep_from (st_list s) s of Inl b \<Rightarrow> Inl b | Inr s \<Rightarrow> Inr (Done, s))"
| "remove_step u s = Inr (u, s)"

text \<open>The listener in \<open>net_te_ue_report\<close> and its siblings; the other users are those above.\<close>

fun watch_step :: "u64 \<Rightarrow> user \<Rightarrow> store \<Rightarrow> bad + user \<times> store" where
  "watch_step e (Make proc m ty inst msg tty) s = Inr
     (let (x, s) = make_at m ty inst msg s
      in case x of
           None \<Rightarrow> (Done, s\<lparr>st_env := EMLOG (Some e) proc ''Trigger creation failed!'' (st_env s)\<rparr>)
         | Some x \<Rightarrow> (Link proc x tty, s))"
| "watch_step e (Link proc x tty) s =
     (case deref x s of Inl b \<Rightarrow> Inl b | Inr t \<Rightarrow> Inr (Hand proc x tty, enter_at x s))"
| "watch_step e (Hand proc x tty) s =
     (case deref x s of
        Inl b \<Rightarrow> Inl b
      | Inr t \<Rightarrow> Inr (let (u, w) = hand_over proc e x tty t (st_env s) in (u, s\<lparr>st_env := w\<rparr>)))"
| "watch_step e (Undo x) s =
     (case deref x s of Inl b \<Rightarrow> Inl b | Inr t \<Rightarrow> Inr (SeekId (tr_id t), s))"
| "watch_step e u s = remove_step u s"

text \<open>The scheduler in \<open>sched_perform_ue_measure\<close> and \<open>sched_perform_cell_meas\<close>, and all other users.\<close>

fun user_step :: "emproto \<Rightarrow> stack_garbage \<Rightarrow> u64 \<Rightarrow> user \<Rightarrow> store \<Rightarrow> bad + user \<times> store" where
  "user_step P g e (LookUe i) s =
     (case search (\<lambda>t. tr_id t = i) s of
        Inl b \<Rightarrow> Inl b
      | Inr None \<Rightarrow> Inr (Done, s\<lparr>st_env :=
          EMLOG (Some e) ''sched_perform_ue_measure'' ''Trigger %d not found'' (st_env s)\<rparr>)
      | Inr (Some x) \<Rightarrow> Inr (ParseUe x, s))"
| "user_step P g e (ParseUe x) s =
     (case deref x s of Inl b \<Rightarrow> Inl b | Inr t \<Rightarrow> Inr (parse_ue P g x t, s))"
| "user_step P g e (ReportUe x rs 0) s = Inr (Done, s)"
| "user_step P g e (ReportUe x rs (Suc n)) s =
     (case deref x s of
        Inl b \<Rightarrow> Inl b
      | Inr t \<Rightarrow> Inr (ReportUe x rs n, s\<lparr>st_env := report_ue e rs n t (st_env s)\<rparr>))"
| "user_step P g e (LookCell i) s =
     (case search (\<lambda>t. tr_id t = i) s of
        Inl b \<Rightarrow> Inl b
      | Inr None \<Rightarrow> Inr (Done, s)
      | Inr (Some x) \<Rightarrow> Inr (ParseCell x, s))"
| "user_step P g e (ParseCell x) s =
     (case deref x s of
        Inl b \<Rightarrow> Inl b
      | Inr t \<Rightarrow> Inr (Done, s\<lparr>st_env := parse_cell P g e t (st_env s)\<rparr>))"
| "user_step P g e u s = watch_step e u s"

section \<open>Interleavings\<close>

text \<open>Every list of indices is an interleaving; an index without user is skipped.\<close>

fun work :: "emproto \<Rightarrow> stack_garbage \<Rightarrow> u64 \<Rightarrow> nat list \<Rightarrow> user list \<Rightarrow> store \<Rightarrow> bad + user list \<times> store" where
  "work P g e [] us s = Inr (us, s)"
| "work P g e (n # ns) us s =
     (if n < length us
      then case user_step P g e (us ! n) s of
             Inl b \<Rightarrow> Inl b
           | Inr (u, s) \<Rightarrow> work P g e ns (us[n := u]) s
      else work P g e ns us s)"

text \<open>A contract of the users that each step keeps is kept by every interleaving.\<close>

locale contract =
  fixes P :: emproto and g :: stack_garbage and e :: u64
    and Inv :: "user list \<Rightarrow> store \<Rightarrow> bool" and may :: "bad \<Rightarrow> bool"
  assumes step: "Inv us s \<Longrightarrow> n < length us \<Longrightarrow> user_step P g e (us ! n) s = Inr (u, t) \<Longrightarrow> Inv (us[n := u]) t"
    and fails: "Inv us s \<Longrightarrow> n < length us \<Longrightarrow> user_step P g e (us ! n) s = Inl b \<Longrightarrow> may b"
begin

lemma kept: "Inv us s \<Longrightarrow> work P g e ns us s = Inr (vs, t) \<Longrightarrow> Inv vs t"
  by (induction ns arbitrary: us s) (auto split: if_splits sum.splits dest: step)

lemma failed: "Inv us s \<Longrightarrow> work P g e ns us s = Inl b \<Longrightarrow> may b"
  by (induction ns arbitrary: us s) (auto split: if_splits sum.splits dest: step fails)

end

end
