(* ===== verification/BorrowFacts.thy ===== *)
theory BorrowFacts
  imports Borrow
begin

text \<open>
  What every interleaving of the users of the registry keeps, and what a user does who is alone.
\<close>

section \<open>Searching and flushing\<close>

text \<open>Where every listed trigger is alive, the search is that of the list, and the flush frees all.\<close>

definition find_where :: "(emtri \<Rightarrow> bool) \<Rightarrow> store \<Rightarrow> tri_addr option" where
  "find_where Q s = List.find (\<lambda>x. Q (the (st_cell s x))) (st_list s)"

definition sweep :: "store \<Rightarrow> store" where
  "sweep s =
     s\<lparr>st_env := fold (\<lambda>x. trig_free (the (st_cell s x))) (st_list s) (st_env s),
       st_cell := (\<lambda>x. if x \<in> set (st_list s) then None else st_cell s x),
       st_list := []\<rparr>"

lemma scan_live: "\<forall>x \<in> set xs. h x \<noteq> None \<Longrightarrow> scan Q h xs = Inr (List.find (\<lambda>x. Q (the (h x))) xs)"
  by (induction xs) auto

lemma sweep_live:
  assumes "st_list s = xs" and "distinct xs" and "\<forall>x \<in> set xs. st_cell s x \<noteq> None"
  shows "sweep_from xs s = Inr (sweep s)"
  using assms
proof (induction xs arbitrary: s)
  case Nil
  then show ?case by (simp add: sweep_def)
next
  case (Cons x xs)
  note c = Cons.prems(1)
  obtain t where t: "st_cell s x = Some t" using Cons.prems(3) by auto
  let ?s = "s\<lparr>st_list := xs, st_cell := (st_cell s)(x := None), st_env := trig_free t (st_env s)\<rparr>"
  have r: "release_at x (unlink x s) = Inr ?s" by (simp add: release_at_def unlink_def t c)
  have "sweep_from xs ?s = Inr (sweep ?s)"
    by (rule Cons.IH) (use Cons.prems in auto)
  moreover have "fold (\<lambda>y. trig_free (the (if y = x then None else st_cell s y))) xs
    = fold (\<lambda>y. trig_free (the (st_cell s y))) xs"
    by (rule ext, rule fold_cong) (use Cons.prems(2) in auto)
  ultimately show ?case by (auto simp: c r sweep_def t fun_eq_iff)
qed

section \<open>Ownership\<close>

text \<open>A trigger that is being made, or unlinked and not yet freed, belongs to one user.\<close>

fun owns :: "user \<Rightarrow> tri_addr list" where
  "owns (Link proc x tty) = [x]"
| "owns (Free x) = [x]"
| "owns _ = []"

fun borrows :: "user \<Rightarrow> tri_addr list" where
  "borrows (ParseUe x) = [x]"
| "borrows (ReportUe x rs n) = [x]"
| "borrows (ParseCell x) = [x]"
| "borrows (Hand proc x tty) = [x]"
| "borrows (Undo x) = [x]"
| "borrows _ = []"

text \<open>How often an address is in the list, and how many users own it.\<close>

definition listed :: "store \<Rightarrow> tri_addr \<Rightarrow> nat" where
  "listed s x = count_list (st_list s) x"

definition owned :: "user list \<Rightarrow> tri_addr \<Rightarrow> nat" where
  "owned us x = (\<Sum>u\<leftarrow>us. count_list (owns u) x)"

text \<open>Each live trigger has one owner, the list or a user; nothing else is owned.\<close>

definition sound :: "user list \<Rightarrow> store \<Rightarrow> bool" where
  "sound us s \<longleftrightarrow> (\<forall>x. listed s x + owned us x = (if st_cell s x = None then 0 else 1))
     \<and> (\<forall>x \<ge> st_fresh s. st_cell s x = None)"

lemma soundD:
  "sound us s \<Longrightarrow> listed s x + owned us x = (if st_cell s x = None then 0 else 1)"
  "sound us s \<Longrightarrow> st_fresh s \<le> x \<Longrightarrow> st_cell s x = None"
  by (simp_all add: sound_def)

lemma sum_update:
  assumes "n < length us"
  shows "(\<Sum>u\<leftarrow>us[n := u]. f u) + f (us ! n) = (\<Sum>u\<leftarrow>us. f u) + (f u :: nat)"
proof -
  have "us = take n us @ us ! n # drop (Suc n) us" by (rule id_take_nth_drop [OF assms])
  then have "(\<Sum>u\<leftarrow>us. f u) = (\<Sum>u\<leftarrow>take n us. f u) + f (us ! n) + (\<Sum>u\<leftarrow>drop (Suc n) us. f u)"
    by (metis (no_types, lifting) add.assoc list.map(2) map_append sum_list.Cons sum_list_append)
  then show ?thesis by (simp add: upd_conv_take_nth_drop [OF assms])
qed

lemma owned_update:
  assumes "n < length us"
  shows "owned (us[n := u]) x + count_list (owns (us ! n)) x = owned us x + count_list (owns u) x"
  unfolding owned_def by (rule sum_update [OF assms])

lemma listed_set: "x \<in> set (st_list s) \<longleftrightarrow> 0 < listed s x"
  using count_list_0_iff [of "st_list s" x] by (auto simp: listed_def)

lemma owned_nth: "n < length us \<Longrightarrow> count_list (owns (us ! n)) x \<le> owned us x"
  unfolding owned_def by (rule member_le_sum_list) auto

lemma count_remove1: "x \<in> set xs \<Longrightarrow> count_list (remove1 x xs) y + (if y = x then 1 else 0) = count_list xs y"
  by (induction xs) (auto simp: count_list_0_iff)

lemma listed_simps [simp]:
  "listed (s\<lparr>st_env := w\<rparr>) x = listed s x" "listed (s\<lparr>st_cell := c\<rparr>) x = listed s x"
  "listed (s\<lparr>st_fresh := k\<rparr>) x = listed s x" "listed (sweep s) x = 0"
  "listed (enter_at y s) x = listed s x + (if y = x then 1 else 0)"
  by (simp_all add: listed_def enter_at_def sweep_def)

lemma sound_alive:
  assumes "sound us s" and "x \<in> set (st_list s) \<or> n < length us \<and> x \<in> set (owns (us ! n))"
  shows "st_cell s x \<noteq> None"
proof -
  have "0 < count_list (owns (us ! n)) x" if "x \<in> set (owns (us ! n))"
    using that by (metis count_list_0_iff not_gr_zero)
  then have "0 < listed s x + owned us x"
    using assms(2) owned_nth [of n us x] listed_set by fastforce
  then show ?thesis using soundD(1) [OF assms(1), of x] by (auto split: if_splits)
qed

lemma sound_distinct:
  assumes "sound us s"
  shows "distinct (st_list s)"
proof -
  have "count_list (st_list s) x \<le> 1" for x
    using soundD(1) [OF assms, of x] by (simp add: listed_def split: if_splits)
  then show ?thesis
  proof (induction "st_list s" arbitrary: s rule: list.induct)
    case (Cons y ys)
    have "count_list ys x \<le> 1" for x
      using Cons.prems [of x] unfolding Cons.hyps(2) [symmetric] by (simp split: if_splits)
    then have "distinct ys" using Cons.hyps(1) [of "s\<lparr>st_list := ys\<rparr>"] by simp
    moreover have "y \<notin> set ys"
      using Cons.prems [of y] unfolding Cons.hyps(2) [symmetric] by (simp add: count_list_0_iff)
    ultimately show ?case using Cons.hyps(2) by (metis distinct.simps(2))
  qed (metis distinct.simps(1))
qed

text \<open>The books of one step: what the list and the user win and lose is what becomes alive or dies.\<close>

lemma sound_update:
  assumes "sound us s" and "n < length us"
    and "\<And>x. listed t x + count_list (owns u) x + (if st_cell s x = None then 0 else 1)
      = listed s x + count_list (owns (us ! n)) x + (if st_cell t x = None then 0 else (1 :: nat))"
    and "\<And>x. st_fresh t \<le> x \<Longrightarrow> st_cell t x = None"
  shows "sound (us[n := u]) t"
proof -
  have "listed t x + owned (us[n := u]) x = (if st_cell t x = None then 0 else 1)" for x
    using soundD(1) [OF assms(1), of x] owned_update [OF assms(2), of u x] assms(3) [of x] by linarith
  then show ?thesis using assms(4) by (simp add: sound_def)
qed

lemma sound_same:
  assumes "sound us s" and "n < length us" and "owns u = owns (us ! n)"
  shows "sound (us[n := u]) (s\<lparr>st_env := w\<rparr>)" and "sound (us[n := u]) s"
  by (rule sound_update [OF assms(1,2)]; simp add: assms(3) soundD(2) [OF assms(1)])+

lemma sound_make:
  assumes "sound us s" and "n < length us" and "owns (us ! n) = []" and "owns u = [st_fresh s]"
  shows "sound (us[n := u]) (s\<lparr>st_env := w, st_cell := (st_cell s)(st_fresh s := Some t), st_fresh := Suc (st_fresh s)\<rparr>)"
  by (rule sound_update [OF assms(1,2)]) (use soundD(2) [OF assms(1)] assms(3,4) in auto)

lemma sound_link:
  assumes "sound us s" and "n < length us" and "owns (us ! n) = [x]" and "owns u = []"
  shows "sound (us[n := u]) (enter_at x s)"
proof (rule sound_update [OF assms(1,2)])
  have "st_cell s x \<noteq> None" using sound_alive [OF assms(1), of x n] assms(2,3) by simp
  then show "listed (enter_at x s) y + count_list (owns u) y + (if st_cell s y = None then 0 else 1)
      = listed s y + count_list (owns (us ! n)) y + (if st_cell (enter_at x s) y = None then 0 else (1 :: nat))" for y
    using assms(3,4) by (auto simp: enter_at_def listed_def)
  show "st_cell (enter_at x s) y = None" if "st_fresh (enter_at x s) \<le> y" for y
    using that soundD(2) [OF assms(1), of y] by (auto simp: enter_at_def)
qed

lemma sound_unlink:
  assumes "sound us s" and "n < length us" and "owns (us ! n) = []" and "owns u = [x]" and "x \<in> set (st_list s)"
  shows "sound (us[n := u]) (unlink x s)"
proof (rule sound_update [OF assms(1,2)])
  show "listed (unlink x s) y + count_list (owns u) y + (if st_cell s y = None then 0 else 1)
      = listed s y + count_list (owns (us ! n)) y + (if st_cell (unlink x s) y = None then 0 else (1 :: nat))" for y
    using count_remove1 [OF assms(5), of y] assms(3,4) by (auto simp: unlink_def listed_def)
  show "st_cell (unlink x s) y = None" if "st_fresh (unlink x s) \<le> y" for y
    using that soundD(2) [OF assms(1), of y] by (simp add: unlink_def)
qed

lemma sound_free:
  assumes "sound us s" and "n < length us" and "owns (us ! n) = [x]" and "owns u = []"
  shows "sound (us[n := u]) (s\<lparr>st_cell := (st_cell s)(x := None), st_env := w\<rparr>)"
proof -
  have "st_cell s x \<noteq> None" using sound_alive [OF assms(1), of x n] assms(2,3) by simp
  then show ?thesis
    by (intro sound_update [OF assms(1,2)]) (use soundD(2) [OF assms(1)] assms(3,4) in auto)
qed

lemma sound_sweep:
  assumes "sound us s" and "n < length us" and "owns (us ! n) = []" and "owns u = []"
  shows "sound (us[n := u]) (sweep s)"
proof (rule sound_update [OF assms(1,2)])
  have 1: "listed s x = 1" "st_cell s x \<noteq> None" if "x \<in> set (st_list s)" for x
    using that soundD(1) [OF assms(1), of x] listed_set [of x s] by (auto split: if_splits)
  have 0: "listed s x = 0" if "x \<notin> set (st_list s)" for x using that listed_set by simp
  show "listed (sweep s) x + count_list (owns u) x + (if st_cell s x = None then 0 else 1)
      = listed s x + count_list (owns (us ! n)) x + (if st_cell (sweep s) x = None then 0 else (1 :: nat))" for x
    using 1 [of x] 0 [of x] assms(3,4) by (simp add: sweep_def listed_def)
  show "st_cell (sweep s) x = None" if "st_fresh (sweep s) \<le> x" for x
    using that soundD(2) [OF assms(1), of x] by (simp add: sweep_def)
qed

lemma find_where_set: "find_where Q s = Some x \<Longrightarrow> x \<in> set (st_list s) \<and> Q (the (st_cell s x))"
  by (auto simp: find_where_def find_Some_iff)

lemma sound_live [simp]:
  assumes "sound us s"
  shows "search Q s = Inr (find_where Q s)"
    and "seek Q s = Inr (case find_where Q s of None \<Rightarrow> (Done, s) | Some x \<Rightarrow> (Free x, unlink x s))"
    and "sweep_from (st_list s) s = Inr (sweep s)"
proof -
  have a: "\<forall>x \<in> set (st_list s). st_cell s x \<noteq> None" using sound_alive [OF assms] by blast
  show f: "search Q s = Inr (find_where Q s)" by (simp add: search_def find_where_def scan_live [OF a])
  show "seek Q s = Inr (case find_where Q s of None \<Rightarrow> (Done, s) | Some x \<Rightarrow> (Free x, unlink x s))"
    by (simp add: seek_def f split: option.split)
  show "sweep_from (st_list s) s = Inr (sweep s)" by (rule sweep_live [OF refl sound_distinct [OF assms] a])
qed

lemma sound_step:
  assumes "sound us s" and "n < length us" and "user_step P g e (us ! n) s = Inr (u, t)"
  shows "sound (us[n := u]) t"
proof -
  have same: "sound (us[n := v]) (s\<lparr>st_env := w\<rparr>)" "sound (us[n := v]) s" if "owns v = []" "owns (us ! n) = []" for v w
    using that sound_same [OF assms(1,2), of v] by simp_all
  note live = sound_live [OF assms(1)]
  have sought: "sound (us[n := u]) t" if "seek Q s = Inr (u, t)" "owns (us ! n) = []" for Q
    using that same sound_unlink [OF assms(1,2)] find_where_set by (auto simp: live split: option.splits)
  show ?thesis
  proof (cases "us ! n")
    case (Make proc m ty inst msg tty)
    obtain t' w where a: "trig_alloc m ty inst (Some msg) (msg_size msg) (st_env s) = (t', w)" by fastforce
    show ?thesis
      using assms(3) same sound_make [OF assms(1,2)] Make a
      by (cases t') (auto simp: make_at_def Let_def)
  next
    case (Hand proc x tty)
    then show ?thesis
      using assms(3) same by (auto simp: hand_over_def split: sum.splits option.splits prod.splits)
  next
    case (ReportUe x rs k)
    then show ?thesis using assms(3) same by (cases k) (auto split: sum.splits)
  qed (use assms(3) same sought sound_link [OF assms(1,2)] sound_free [OF assms(1,2)] sound_sweep [OF assms(1,2)] in
      \<open>auto simp: live(1,3) parse_ue_def release_at_def split: option.splits sum.splits prod.splits if_splits\<close>)
qed

lemma sound_fails:
  assumes "sound us s" and "n < length us" and "user_step P g e (us ! n) s = Inl b"
  shows "\<exists>x. b = UseAfterFree x \<and> x \<in> set (borrows (us ! n)) \<and> st_cell s x = None"
proof -
  have own: "st_cell s x \<noteq> None" if "x \<in> set (owns (us ! n))" for x
    using sound_alive [OF assms(1)] assms(2) that by blast
  show ?thesis
  proof (cases "us ! n")
    case (ReportUe x rs k)
    then show ?thesis using assms(3) by (cases k) (auto simp: deref_def split: sum.splits option.splits)
  qed (use assms(3) own sound_live [OF assms(1)] in
      \<open>auto simp: deref_def release_at_def split: sum.splits option.splits\<close>)
qed

interpretation ow: contract P g e sound "\<lambda>b. \<exists>x. b = UseAfterFree x"
  by unfold_locales (auto dest: sound_fails intro: sound_step)

end
