(* ===== verification/BorrowAlone.thy ===== *)
theory BorrowAlone
  imports BorrowFacts
begin

text \<open>
  What a user does who is not interrupted is what the functions of the sequential model do to the
  registry that the store represents.
\<close>

section \<open>The registry of a store\<close>

lemma find_map: "List.find Q (map f xs) = map_option f (List.find (\<lambda>x. Q (f x)) xs)"
  by (induction xs) simp_all

lemma delete_first_map:
  "List.find (\<lambda>x. Q (f x)) xs = Some x \<Longrightarrow> delete_first Q (map f xs) = map f (remove1 x xs)"
  by (induction xs) (auto split: if_splits simp: find_Some_iff)

lemma find_trctx: "List.find Q (tx_ts (trctx_of s)) = map_option (\<lambda>x. the (st_cell s x)) (find_where Q s)"
  by (simp add: trctx_of_def find_map find_where_def)

lemma trctx_of_env [simp]: "trctx_of (s\<lparr>st_env := w\<rparr>) = trctx_of s"
  by (simp add: trctx_of_def)

text \<open>Taking a trigger out in two steps.\<close>

lemma take_out:
  assumes "find_where Q s = Some x" and "distinct (st_list s)" and "t = (unlink x s)\<lparr>st_cell := (st_cell s)(x := None), st_env := w\<rparr>"
  shows "trctx_of t = (trctx_of s)\<lparr>tx_ts := delete_first Q (tx_ts (trctx_of s))\<rparr>"
proof -
  have "x \<notin> set (remove1 x (st_list s))" using assms(2) by simp
  then show ?thesis
    using delete_first_map [of Q "\<lambda>x. the (st_cell s x)" "st_list s" x] assms(1,3)
    by (auto simp: trctx_of_def unlink_def find_where_def)
qed

lemma seek_alone:
  assumes "user_step P g e u s = seek Q s" and "sound [u] s" and "find_where Q s = Some x"
    and "st_cell s x = Some k"
  shows "work P g e [0, 0] [u] s
    = Inr ([Done], (unlink x s)\<lparr>st_cell := (st_cell s)(x := None), st_env := trig_free k (st_env s)\<rparr>)"
  using assms by (simp add: sound_live(2) [OF assms(2)] release_at_def unlink_def)

text \<open>The loop of reports.\<close>

lemma report_alone:
  assumes "st_cell s x = Some t" and "enb_id a = e"
  shows "work P g e (replicate (Suc n) 0) [ReportUe x rs n] s
    = Inr ([Done], s\<lparr>st_env := ue_measure_calls a t rs n (st_env s)\<rparr>)"
  using assms(1)
proof (induction n arbitrary: s)
  case (Suc n)
  then show ?case
    using Suc.IH [of "s\<lparr>st_env := report_ue e rs n t (st_env s)\<rparr>"] assms(2)
    by (simp add: deref_def report_ue_def)
qed simp

lemma work_append:
  "work P g e (ns @ ks) us s = (case work P g e ns us s of Inl b \<Rightarrow> Inl b | Inr (vs, t) \<Rightarrow> work P g e ks vs t)"
  by (induction ns arbitrary: us s) (auto split: sum.split)

lemma measure_alone:
  assumes "sound [u] s" and "u = LookUe i"
    and "trig a = trctx_of s" and "has_op a op_ue_measure" and "tk_trig k = i"
  shows "\<exists>n. work P g (enb_id a) (replicate n 0) [u] s
    = Inr ([Done], s\<lparr>st_env := snd (sched_perform_ue_measure P g a k (st_env s))\<rparr>)"
proof (cases "find_where (\<lambda>t. tr_id t = i) s")
  case None
  then show ?thesis
    using assms(2-5) by (intro exI [of _ 1]) (simp add: sound_live(1) [OF assms(1)] sched_perform_ue_measure_def trig_find_by_id_def find_trctx)
next
  case (Some x)
  then obtain t where t: "st_cell s x = Some t"
    using sound_alive [OF assms(1), of x 0] find_where_set [OF Some] by auto
  have f: "trig_find_by_id (trig a) (tk_trig k) = Some t"
    using Some t assms(3,5) by (simp add: trig_find_by_id_def find_trctx)
  obtain r m where m: "epp_trigger_uemeas_req P (buf_of (tr_msg t)) (g_meas g) = (r, m)" by fastforce
  show ?thesis
  proof (cases "r = 0")
    case True
    then show ?thesis
      using report_alone [OF t refl, of P g a "nof_rrc m" "rrc m"] Some t f m assms(2,4)
      by (intro exI [of _ "Suc (Suc (Suc (nof_rrc m)))"])
        (simp add: sound_live(1) [OF assms(1)] sched_perform_ue_measure_def deref_def parse_ue_def)
  next
    case False
    then show ?thesis
      using Some t f m assms(2,4)
      by (intro exI [of _ 2]) (simp add: sound_live(1) [OF assms(1)] sched_perform_ue_measure_def deref_def parse_ue_def numeral_2_eq_2)
  qed
qed

lemma cell_alone:
  assumes "sound [u] s" and "u = LookCell i"
    and "trig a = trctx_of s" and "has_op a op_cell_measure" and "tk_trig k = i" and "0 <s i"
  shows "\<exists>n. work P g (enb_id a) (replicate n 0) [u] s
    = Inr ([Done], s\<lparr>st_env := snd (sched_perform_cell_meas P g a k (st_env s))\<rparr>)"
proof (cases "find_where (\<lambda>t. tr_id t = i) s")
  case None
  then show ?thesis
    using assms(2-6) by (intro exI [of _ 1]) (simp add: sound_live(1) [OF assms(1)] sched_perform_cell_meas_def trig_find_by_id_def find_trctx)
next
  case (Some x)
  then obtain t where t: "st_cell s x = Some t"
    using sound_alive [OF assms(1), of x 0] find_where_set [OF Some] by auto
  have f: "trig_find_by_id (trig a) (tk_trig k) = Some t"
    using Some t assms(3,5) by (simp add: trig_find_by_id_def find_trctx)
  show ?thesis
    using Some t f assms(2,4-6)
    by (intro exI [of _ 2])
      (simp add: sound_live(1) [OF assms(1)] sched_perform_cell_meas_def deref_def parse_cell_def numeral_2_eq_2 split_beta)
qed

lemma remove_alone:
  assumes "sound [u] s" and "user_step P g e u s = seek Q s"
  shows "\<exists>n t. work P g e (replicate n 0) [u] s = Inr ([Done], t)
    \<and> (case List.find Q (tx_ts (trctx_of s)) of
         None \<Rightarrow> trctx_of t = trctx_of s \<and> st_env t = st_env s
       | Some k \<Rightarrow> trctx_of t = (trctx_of s)\<lparr>tx_ts := delete_first Q (tx_ts (trctx_of s))\<rparr>
           \<and> st_env t = trig_free k (st_env s))"
proof (cases "find_where Q s")
  case None
  then show ?thesis
    using assms by (intro exI [of _ 1] exI [of _ s]) (simp add: find_trctx sound_live(2) [OF assms(1)])
next
  case (Some x)
  then obtain k where k: "st_cell s x = Some k"
    using sound_alive [OF assms(1), of x 0] find_where_set [OF Some] by auto
  let ?t = "(unlink x s)\<lparr>st_cell := (st_cell s)(x := None), st_env := trig_free k (st_env s)\<rparr>"
  have "work P g e (replicate 2 0) [u] s = Inr ([Done], ?t)"
    using seek_alone [OF assms(2,1) Some k] by (simp add: numeral_2_eq_2)
  moreover have "trctx_of ?t = (trctx_of s)\<lparr>tx_ts := delete_first Q (tx_ts (trctx_of s))\<rparr>"
    by (rule take_out [OF Some sound_distinct [OF assms(1)] refl])
  ultimately show ?thesis
    using Some k by (intro exI [of _ 2] exI [of _ ?t]) (simp add: find_trctx)
qed

lemma remove_by_id_alone:
  assumes "sound [SeekId i] s"
  shows "\<exists>n t r. work P g e (replicate n 0) [SeekId i] s = Inr ([Done], t)
    \<and> trig_del_by_id (trctx_of s) i (st_env s) = (r, trctx_of t, st_env t)"
proof -
  obtain n t where n: "work P g e (replicate n 0) [SeekId i] s = Inr ([Done], t)"
    and t: "case List.find (\<lambda>t. tr_id t = i) (tx_ts (trctx_of s)) of
         None \<Rightarrow> trctx_of t = trctx_of s \<and> st_env t = st_env s
       | Some k \<Rightarrow> trctx_of t = (trctx_of s)\<lparr>tx_ts := delete_first (\<lambda>t. tr_id t = i) (tx_ts (trctx_of s))\<rparr>
           \<and> st_env t = trig_free k (st_env s)"
    using remove_alone [OF assms, of P g e "\<lambda>t. tr_id t = i"] by auto
  show ?thesis
    by (intro exI [of _ n] exI [of _ t]) (use n t in \<open>auto simp: trig_del_by_id_def split: option.splits\<close>)
qed

lemma remove_by_inst_alone:
  assumes "sound [SeekInst m ty inst] s"
  shows "\<exists>n t r. work P g e (replicate n 0) [SeekInst m ty inst] s = Inr ([Done], t)
    \<and> trig_del_by_inst (trctx_of s) m ty inst (st_env s) = (r, trctx_of t, st_env t)"
proof -
  obtain n t where n: "work P g e (replicate n 0) [SeekInst m ty inst] s = Inr ([Done], t)"
    and t: "case List.find (inst_key m ty inst) (tx_ts (trctx_of s)) of
         None \<Rightarrow> trctx_of t = trctx_of s \<and> st_env t = st_env s
       | Some k \<Rightarrow> trctx_of t = (trctx_of s)\<lparr>tx_ts := delete_first (inst_key m ty inst) (tx_ts (trctx_of s))\<rparr>
           \<and> st_env t = trig_free k (st_env s)"
    using remove_alone [OF assms, of P g e "inst_key m ty inst"] by auto
  show ?thesis
    by (intro exI [of _ n] exI [of _ t]) (use n t in \<open>auto simp: trig_del_by_inst_def split: option.splits\<close>)
qed

lemma sweep_alone: "trctx_of (sweep s) = fst (trig_flush (trctx_of s) w)
  \<and> st_env (sweep s) = snd (trig_flush (trctx_of s) (st_env s))"
  by (simp add: trctx_of_def sweep_def trig_flush_def fold_map comp_def)

text \<open>Making and entering a trigger.\<close>

lemma make_alone:
  assumes "sound [u] s" and "u = Make proc m ty inst msg tty" and "trig a = trctx_of s"
    and "alloc_ok (st_env s) (Some msg)"
  shows "\<exists>t x. work P g e [0, 0] [u] s = Inr ([Hand proc x tty], t)
    \<and> enter_trig m ty inst msg a (st_env s) = (a\<lparr>trig := trctx_of t\<rparr>, st_env t)"
proof -
  obtain k w where k: "trig_alloc m ty inst (Some msg) (msg_size msg) (st_env s) = (k, w)" by fastforce
  then obtain k' where k': "k = Some k'" using trig_alloc_after(1) [OF k] assms(4) by auto
  let ?s = "s\<lparr>st_env := w, st_cell := (st_cell s)(st_fresh s := Some k'), st_fresh := Suc (st_fresh s)\<rparr>"
  have "st_fresh s \<notin> set (st_list s)"
    using sound_alive [OF assms(1), of "st_fresh s" 0] soundD(2) [OF assms(1), of "st_fresh s"] by auto
  then have "trctx_of (enter_at (st_fresh s) ?s) = snd (snd (trig_add (trctx_of s) k'))"
    by (auto simp: trctx_of_def enter_at_def trig_add_def Let_def)
  moreover have "work P g e [0, 0] [u] s = Inr ([Hand proc (st_fresh s) tty], enter_at (st_fresh s) ?s)"
    using assms(2) k k' by (simp add: make_at_def deref_def)
  moreover have "enter_trig m ty inst msg a (st_env s) = (a\<lparr>trig := snd (snd (trig_add (trctx_of s) k'))\<rparr>, w)"
    using k k' assms(3) by (simp add: enter_trig_def split_beta)
  moreover have "st_env (enter_at (st_fresh s) ?s) = w" by (simp add: enter_at_def)
  ultimately show ?thesis by metis
qed

section \<open>The function behind a user\<close>

fun by_function :: "emproto \<Rightarrow> stack_garbage \<Rightarrow> emage \<Rightarrow> emtask \<Rightarrow> user \<Rightarrow> env \<Rightarrow> (trctx \<times> env) option" where
  "by_function P g a k (LookUe i) w = Some (trig a, snd (sched_perform_ue_measure P g a (k\<lparr>tk_trig := i\<rparr>) w))"
| "by_function P g a k (LookCell i) w =
     (if 0 <s i then Some (trig a, snd (sched_perform_cell_meas P g a (k\<lparr>tk_trig := i\<rparr>) w)) else None)"
| "by_function P g a k (SeekId i) w = Some (snd (trig_del_by_id (trig a) i w))"
| "by_function P g a k (SeekInst m ty inst) w = Some (snd (trig_del_by_inst (trig a) m ty inst w))"
| "by_function P g a k Sweep w = Some (trig_flush (trig a) w)"
| "by_function P g a k _ w = None"

end
