(* ===== verification/BorrowApart.thy ===== *)
theory BorrowApart
  imports BorrowFacts
begin

text \<open>
  Users who remove triggers next to users who hold pointers to others.  The pointers stay good as long
  as nobody removes a trigger that is being measured or entered, by its identifier or by its module,
  type and instance, and nobody flushes.
\<close>

section \<open>Who works on which trigger\<close>

text \<open>The identifiers that are looked up and sought, and what the searches by instance are for.\<close>

fun looks :: "user \<Rightarrow> i32 list" where
  "looks (LookUe i) = [i]"
| "looks (LookCell i) = [i]"
| "looks _ = []"

fun seeks :: "user \<Rightarrow> i32 list" where
  "seeks (SeekId i) = [i]"
| "seeks _ = []"

type_synonym inst = "u32 \<times> int \<times> int"

fun seeks_inst :: "user \<Rightarrow> inst list" where
  "seeks_inst (SeekInst m ty inst) = [(m, ty, inst)]"
| "seeks_inst _ = []"

fun makes :: "user \<Rightarrow> inst list" where
  "makes (Make proc m ty inst msg tty) = [(m, ty, inst)]"
| "makes _ = []"

definition inst_of :: "emtri \<Rightarrow> inst" where
  "inst_of t = (tr_mod t, tr_type t, tr_instance t)"

lemma inst_key_of: "inst_key m ty inst t \<longleftrightarrow> inst_of t = (m, ty, inst)"
  by (auto simp: inst_key_def inst_of_def)

lemma inst_of_id [simp]: "inst_of (t\<lparr>tr_id := i\<rparr>) = inst_of t"
  by (simp add: inst_of_def)

text \<open>At its beginning a user has no pointer yet; one that flushes does not take part.\<close>

fun begins :: "user \<Rightarrow> bool" where
  "begins (LookUe i) = True"
| "begins (LookCell i) = True"
| "begins (Make proc m ty inst msg tty) = True"
| "begins (SeekId i) = True"
| "begins (SeekInst m ty inst) = True"
| "begins Done = True"
| "begins _ = False"

definition all_of :: "(user \<Rightarrow> 'a list) \<Rightarrow> user list \<Rightarrow> 'a set" where
  "all_of f us = set (concat (map f us))"

text \<open>
  No user seeks, by identifier or by instance, what another looks up or makes; all identifiers named were
  given out before, and the counter has room for a trigger of each user.
\<close>

definition apart :: "user list \<Rightarrow> store \<Rightarrow> bool" where
  "apart us s \<longleftrightarrow> list_all begins us
     \<and> all_of looks us \<inter> all_of seeks us = {}
     \<and> all_of makes us \<inter> all_of seeks_inst us = {}
     \<and> (\<forall>x \<in> set (st_list s). tr_id (the (st_cell s x)) \<in> all_of looks us
          \<longrightarrow> inst_of (the (st_cell s x)) \<notin> all_of seeks_inst us)
     \<and> (\<forall>i \<in> all_of looks us \<union> all_of seeks us. unat i < unat (st_next s))
     \<and> unat (st_next s) + length us < 2 ^ 31"

section \<open>What each user keeps to\<close>

text \<open>
  With \<open>I\<close> the identifiers that are looked up, \<open>K\<close> the instances that are sought, and \<open>b\<close> the counter at
  the beginning.  A user who enters a trigger has an identifier from \<open>b\<close> on, as a ticket.
\<close>

definition tid :: "store \<Rightarrow> tri_addr \<Rightarrow> i32" where
  "tid s x = tr_id (the (st_cell s x))"

definition tinst :: "store \<Rightarrow> tri_addr \<Rightarrow> inst" where
  "tinst s x = inst_of (the (st_cell s x))"

fun ticket :: "nat \<Rightarrow> store \<Rightarrow> user \<Rightarrow> i32 list" where
  "ticket b s (Hand proc x tty) = [tid s x]"
| "ticket b s (Undo x) = [tid s x]"
| "ticket b s (SeekId i) = (if b \<le> unat i then [i] else [])"
| "ticket b s _ = []"

fun keeps_to :: "i32 set \<Rightarrow> inst set \<Rightarrow> nat \<Rightarrow> user \<Rightarrow> store \<Rightarrow> bool" where
  "keeps_to I K b (LookUe i) s = (i \<in> I)"
| "keeps_to I K b (ParseUe x) s = (x \<in> set (st_list s) \<and> tid s x \<in> I)"
| "keeps_to I K b (ReportUe x rs n) s = (x \<in> set (st_list s) \<and> tid s x \<in> I)"
| "keeps_to I K b (LookCell i) s = (i \<in> I)"
| "keeps_to I K b (ParseCell x) s = (x \<in> set (st_list s) \<and> tid s x \<in> I)"
| "keeps_to I K b (Make proc m ty inst msg tty) s = ((m, ty, inst) \<notin> K)"
| "keeps_to I K b (Link proc x tty) s = (tinst s x \<notin> K)"
| "keeps_to I K b (Hand proc x tty) s = (x \<in> set (st_list s) \<and> tinst s x \<notin> K \<and> b \<le> unat (tid s x))"
| "keeps_to I K b (Undo x) s = (x \<in> set (st_list s) \<and> tinst s x \<notin> K \<and> b \<le> unat (tid s x))"
| "keeps_to I K b (SeekId i) s = (i \<notin> I)"
| "keeps_to I K b (SeekInst m ty inst) s = ((m, ty, inst) \<in> K)"
| "keeps_to I K b (Free x) s = True"
| "keeps_to I K b Sweep s = False"
| "keeps_to I K b Done s = True"

text \<open>Who may still draw a ticket.\<close>

fun draws :: "user \<Rightarrow> nat" where
  "draws (Make proc m ty inst msg tty) = 1"
| "draws (Link proc x tty) = 1"
| "draws _ = 0"

definition spared :: "i32 set \<Rightarrow> inst set \<Rightarrow> nat \<Rightarrow> user list \<Rightarrow> store \<Rightarrow> bool" where
  "spared I K b us s \<longleftrightarrow> sound us s
     \<and> (\<forall>u \<in> set us. keeps_to I K b u s \<and> (\<forall>i \<in> set (ticket b s u). unat i < unat (st_next s)))
     \<and> (\<forall>m < length us. \<forall>n < length us. m \<noteq> n \<longrightarrow>
          set (ticket b s (us ! m)) \<inter> set (ticket b s (us ! n)) = {})
     \<and> (\<forall>x \<in> set (st_list s). tid s x \<in> I \<longrightarrow> tinst s x \<notin> K)
     \<and> (\<forall>i \<in> I. unat i < b) \<and> b \<le> unat (st_next s)
     \<and> unat (st_next s) + (\<Sum>u\<leftarrow>us. draws u) < 2 ^ 31"

lemma sparedD:
  assumes "spared I K b us s"
  shows "sound us s" and "n < length us \<Longrightarrow> keeps_to I K b (us ! n) s"
    and "n < length us \<Longrightarrow> i \<in> set (ticket b s (us ! n)) \<Longrightarrow> unat i < unat (st_next s)"
    and "m < length us \<Longrightarrow> n < length us \<Longrightarrow> m \<noteq> n \<Longrightarrow>
      i \<in> set (ticket b s (us ! m)) \<Longrightarrow> i \<notin> set (ticket b s (us ! n))"
    and "x \<in> set (st_list s) \<Longrightarrow> tid s x \<in> I \<Longrightarrow> tinst s x \<notin> K"
    and "i \<in> I \<Longrightarrow> unat i < b" and "b \<le> unat (st_next s)"
    and "unat (st_next s) + (\<Sum>u\<leftarrow>us. draws u) < 2 ^ 31"
  using assms unfolding spared_def by (simp_all add: disjoint_iff) (metis nth_mem)

lemma apart_spared:
  assumes "sound us s" and "apart us s"
  shows "spared (all_of looks us) (all_of seeks_inst us) (unat (st_next s)) us s"
proof -
  let ?I = "all_of looks us" and ?K = "all_of seeks_inst us" and ?b = "unat (st_next s)"
  have mem: "set (f u) \<subseteq> all_of f us" if "u \<in> set us" for u and f :: "user \<Rightarrow> 'a list"
    using that by (auto simp: all_of_def)
  have u: "keeps_to ?I ?K ?b u s \<and> ticket ?b s u = []" if "u \<in> set us" for u
    using mem [OF that, of looks] mem [OF that, of seeks] mem [OF that, of seeks_inst] mem [OF that, of makes]
      assms(2) that by (cases u) (auto simp: apart_def list_all_iff dest: leD)
  have "(\<Sum>u\<leftarrow>vs. draws u) \<le> length vs" for vs
  proof (induction vs)
    case (Cons v vs)
    then show ?case by (cases v) auto
  qed simp
  then have "?b + (\<Sum>u\<leftarrow>us. draws u) < 2 ^ 31"
    using assms(2) by (metis add_le_cancel_left apart_def le_less_trans)
  then show ?thesis
    using assms u unfolding spared_def by (auto simp: apart_def tid_def tinst_def)
qed

section \<open>Every step keeps to it\<close>

text \<open>What other users need: their pointers stay in the list, what they own stays as it is.\<close>

lemma keeps_to_frame:
  assumes "keeps_to I K b v s"
    and "\<And>x. x \<in> set (borrows v) \<Longrightarrow> x \<in> set (st_list s) \<Longrightarrow> x \<in> set (st_list t) \<and> st_cell t x = st_cell s x"
    and "\<And>x. x \<in> set (owns v) \<Longrightarrow> st_cell t x = st_cell s x"
  shows "keeps_to I K b v t \<and> ticket b t v = ticket b s v"
  using assms by (cases v) (auto simp: tid_def tinst_def)

lemma spared_update:
  assumes sp: "spared I K b us s" and n: "n < length us" and so: "sound (us[n := u]) t"
    and u: "keeps_to I K b u t"
    and tk: "\<And>i. i \<in> set (ticket b t u) \<Longrightarrow>
      unat i < unat (st_next t) \<and> (i \<in> set (ticket b s (us ! n)) \<or> unat (st_next s) \<le> unat i)"
    and fr: "\<And>m x. m < length us \<Longrightarrow> m \<noteq> n \<Longrightarrow> x \<in> set (st_list s) \<Longrightarrow> x \<in> set (borrows (us ! m)) \<Longrightarrow>
      x \<in> set (st_list t) \<and> st_cell t x = st_cell s x"
    and ow: "\<And>m x. m < length us \<Longrightarrow> m \<noteq> n \<Longrightarrow> x \<in> set (owns (us ! m)) \<Longrightarrow> st_cell t x = st_cell s x"
    and li: "\<And>x. x \<in> set (st_list t) \<Longrightarrow> tid t x \<in> I \<Longrightarrow> tinst t x \<notin> K"
    and nx: "unat (st_next s) \<le> unat (st_next t)"
      "unat (st_next t) + draws u \<le> unat (st_next s) + draws (us ! n)"
  shows "spared I K b (us[n := u]) t"
proof -
  note sd = sparedD [OF sp]
  have f: "keeps_to I K b (us ! m) t \<and> ticket b t (us ! m) = ticket b s (us ! m)" if "m < length us" "m \<noteq> n" for m
    by (rule keeps_to_frame [OF sd(2) [OF that(1)]]) (use fr [OF that] ow [OF that] in blast)+
  have k: "keeps_to I K b (us[n := u] ! m) t
      \<and> (\<forall>i \<in> set (ticket b t (us[n := u] ! m)). unat i < unat (st_next t))" if "m < length us" for m
    using f [OF that] u tk sd(3) [OF that] nx(1) by (cases "m = n") (fastforce simp: n)+
  have d: "set (ticket b t (us[n := u] ! m)) \<inter> set (ticket b t (us[n := u] ! k)) = {}"
    if "m < length us" "k < length us" "m \<noteq> k" for m k
  proof -
    have o: "set (ticket b t u) \<inter> set (ticket b s (us ! j)) = {}" if "j < length us" "j \<noteq> n" for j
      using tk sd(3) [OF that(1)] sd(4) [OF n that(1)] that(2) by (fastforce simp: disjoint_iff)
    show ?thesis
      using that f [of m] f [of k] o [of m] o [of k] sd(4) [OF that] n
      by (cases "m = n"; cases "k = n") (auto simp: disjoint_iff)
  qed
  have "(\<Sum>u\<leftarrow>us[n := u]. draws u) + draws (us ! n) = (\<Sum>u\<leftarrow>us. draws u) + draws u"
    by (rule sum_update [OF n])
  then have "unat (st_next t) + (\<Sum>u\<leftarrow>us[n := u]. draws u) < 2 ^ 31" using sd(8) nx(2) by linarith
  moreover have "keeps_to I K b v t \<and> (\<forall>i \<in> set (ticket b t v). unat i < unat (st_next t))"
    if "v \<in> set (us[n := u])" for v
    using that k unfolding in_set_conv_nth by auto
  ultimately show ?thesis
    using so d li sd(6,7) nx(1) unfolding spared_def by auto
qed

text \<open>A step that leaves the registry alone.\<close>

lemma spared_quiet:
  assumes sp: "spared I K b us s" and n: "n < length us" and "sound (us[n := u]) t"
    and "st_list t = st_list s" and "st_cell t = st_cell s" and "st_next t = st_next s"
    and "keeps_to I K b u s" and "set (ticket b s u) \<subseteq> set (ticket b s (us ! n))" and "draws u \<le> draws (us ! n)"
  shows "spared I K b (us[n := u]) t"
proof (rule spared_update [OF sp n assms(3)])
  have "keeps_to I K b u t \<and> ticket b t u = ticket b s u"
    by (rule keeps_to_frame [OF assms(7)]) (simp_all add: assms(4,5))
  then show "keeps_to I K b u t"
    and "\<And>i. i \<in> set (ticket b t u) \<Longrightarrow>
      unat i < unat (st_next t) \<and> (i \<in> set (ticket b s (us ! n)) \<or> unat (st_next s) \<le> unat i)"
    using assms(6,8) sparedD(3) [OF sp n] by auto
qed (use assms(4-6,9) sparedD(5) [OF sp] in \<open>simp_all add: tid_def tinst_def\<close>)

lemma own_apart:
  assumes "sound us s" and "n < length us" and "x \<in> set (owns (us ! n))"
  shows "x \<notin> set (st_list s)" and "m < length us \<Longrightarrow> m \<noteq> n \<Longrightarrow> x \<notin> set (owns (us ! m))"
proof -
  have c: "0 < count_list ys x" if "x \<in> set ys" for ys using that by (metis count_list_0_iff not_gr_zero)
  have o: "owned (us[n := Done]) x + count_list (owns (us ! n)) x = owned us x"
    using owned_update [OF assms(2), of Done x] by simp
  have "listed s x + owned us x \<le> 1" using soundD(1) [OF assms(1), of x] by (simp split: if_splits)
  then have z: "listed s x = 0" "owned (us[n := Done]) x = 0" using o c [OF assms(3)] by linarith+
  then show "x \<notin> set (st_list s)" by (simp add: listed_set)
  assume "m < length us" "m \<noteq> n"
  then have "count_list (owns (us ! m)) x \<le> 0" using owned_nth [of m "us[n := Done]" x] z(2) by simp
  then show "x \<notin> set (owns (us ! m))" using c by fastforce
qed

text \<open>What a pointer that is held says of its trigger.\<close>

lemma held_pointer:
  assumes "keeps_to I K b v s" and "x \<in> set (borrows v)"
  shows "x \<in> set (st_list s) \<and> (tid s x \<in> I
    \<or> tid s x \<in> set (ticket b s v) \<and> b \<le> unat (tid s x) \<and> tinst s x \<notin> K)"
  using assms by (cases v) auto

lemma spared_unlink:
  assumes sp: "spared I K b us s" and n: "n < length us" and so: "sound (us[n := Free x]) (unlink x s)"
    and x: "(\<exists>i. us ! n = SeekId i \<and> tid s x = i) \<or> (\<exists>m ty inst. us ! n = SeekInst m ty inst \<and> tinst s x = (m, ty, inst))"
  shows "spared I K b (us[n := Free x]) (unlink x s)"
proof (rule spared_update [OF sp n so])
  note sd = sparedD [OF sp]
  show "y \<in> set (st_list (unlink x s)) \<and> st_cell (unlink x s) y = st_cell s y"
    if m: "m < length us" "m \<noteq> n" and y: "y \<in> set (st_list s)" "y \<in> set (borrows (us ! m))" for m y
  proof -
    note h = held_pointer [OF sd(2) [OF m(1)] y(2)]
    from x have "y \<noteq> x"
    proof (elim disjE exE conjE)
      fix i assume i: "us ! n = SeekId i" "tid s x = i"
      then have "i \<notin> I" using sd(2) [OF n] by simp
      moreover have "b \<le> unat i \<Longrightarrow> i \<notin> set (ticket b s (us ! m))" using sd(4) [OF n m(1)] m(2) i(1) by simp
      ultimately show ?thesis using h i(2) by auto
    next
      fix k ty inst assume i: "us ! n = SeekInst k ty inst" "tinst s x = (k, ty, inst)"
      then have "tinst s x \<in> K" using sd(2) [OF n] by simp
      then show ?thesis using h sd(5) [OF y(1)] by auto
    qed
    then show ?thesis using y(1) by (simp add: unlink_def)
  qed
qed (use sparedD(5) [OF sp] in \<open>auto simp: unlink_def tid_def tinst_def dest: notin_set_remove1 [rotated] set_remove1_subset [THEN subsetD]\<close>)

lemma spared_make:
  assumes sp: "spared I K b us s" and n: "n < length us" and m: "us ! n = Make proc m ty inst msg tty"
    and so: "sound (us[n := Link proc (st_fresh s) tty]) t"
    and t: "t = s\<lparr>st_env := w, st_cell := (st_cell s)(st_fresh s := Some (trig_init m ty inst d k)), st_fresh := Suc (st_fresh s)\<rparr>"
  shows "spared I K b (us[n := Link proc (st_fresh s) tty]) t"
proof (rule spared_update [OF sp n so])
  note sd = sparedD [OF sp]
  have f: "x \<noteq> st_fresh s" if "x \<in> set (st_list s) \<or> j < length us \<and> x \<in> set (owns (us ! j))" for x j
    using sound_alive [OF sd(1) that] soundD(2) [OF sd(1), of "st_fresh s"] by auto
  show "keeps_to I K b (Link proc (st_fresh s) tty) t"
    using sd(2) [OF n] m by (simp add: t tinst_def inst_of_def trig_init_def)
  show "tinst t x \<notin> K" if "x \<in> set (st_list t)" "tid t x \<in> I" for x
    using that sd(5) [of x] f [of x] by (simp add: t tid_def tinst_def)
  show "x \<in> set (st_list t) \<and> st_cell t x = st_cell s x" if "x \<in> set (st_list s)" for x
    using that f [of x] by (simp add: t)
  show "st_cell t x = st_cell s x" if "j < length us" "x \<in> set (owns (us ! j))" for j x
    using that f [of x j] by (simp add: t)
qed (use m in \<open>simp_all add: t\<close>)

lemma spared_link:
  assumes sp: "spared I K b us s" and n: "n < length us" and m: "us ! n = Link proc x tty"
    and so: "sound (us[n := Hand proc x tty]) (enter_at x s)"
  shows "spared I K b (us[n := Hand proc x tty]) (enter_at x s)"
proof (rule spared_update [OF sp n so])
  note sd = sparedD [OF sp]
  obtain k where k: "st_cell s x = Some k" using sound_alive [OF sd(1), of x n] n m by auto
  have own: "x \<notin> set (st_list s)" "\<And>j. j < length us \<Longrightarrow> j \<noteq> n \<Longrightarrow> x \<notin> set (owns (us ! j))"
    using own_apart [OF sd(1) n, of x] m by simp_all
  have "draws (us ! n) \<le> (\<Sum>u\<leftarrow>us. draws u)" using n by (intro member_le_sum_list) auto
  then have "Suc (unat (st_next s)) < 2 ^ 31" using sd(8) m by simp
  then have nx: "unat (st_next s + 1) = Suc (unat (st_next s))" by (simp add: unat_word_ariths)
  have kt: "tid (enter_at x s) x = st_next s" "tinst (enter_at x s) x = tinst s x"
    using k by (simp_all add: tid_def tinst_def enter_at_def)
  show "keeps_to I K b (Hand proc x tty) (enter_at x s)"
    using sd(2) [OF n] sd(7) m kt by (simp add: enter_at_def)
  show "unat i < unat (st_next (enter_at x s)) \<and> (i \<in> set (ticket b s (us ! n)) \<or> unat (st_next s) \<le> unat i)"
    if "i \<in> set (ticket b (enter_at x s) (Hand proc x tty))" for i
    using that kt nx by (simp add: enter_at_def)
  show "tinst (enter_at x s) y \<notin> K" if "y \<in> set (st_list (enter_at x s))" "tid (enter_at x s) y \<in> I" for y
  proof (cases "y = x")
    case True
    then show ?thesis using kt sd(2) [OF n] m by simp
  next
    case False
    then show ?thesis using that sd(5) [of y] by (simp add: enter_at_def tid_def tinst_def)
  qed
  show "unat (st_next s) \<le> unat (st_next (enter_at x s))"
    and "unat (st_next (enter_at x s)) + draws (Hand proc x tty) \<le> unat (st_next s) + draws (us ! n)"
    using nx m by (simp_all add: enter_at_def)
qed (use own_apart [OF sparedD(1) [OF sp] n, of x] m in \<open>auto simp: enter_at_def\<close>)

lemma spared_free:
  assumes sp: "spared I K b us s" and n: "n < length us" and m: "us ! n = Free x"
    and so: "sound (us[n := Done]) t" and t: "t = s\<lparr>st_cell := (st_cell s)(x := None), st_env := w\<rparr>"
  shows "spared I K b (us[n := Done]) t"
  by (rule spared_update [OF sp n so])
    (use own_apart [OF sparedD(1) [OF sp] n, of x] sparedD(5) [OF sp] m in \<open>auto simp: t tid_def tinst_def\<close>)

lemma spared_step:
  assumes sp: "spared I K b us s" and n: "n < length us" and st: "user_step P g e (us ! n) s = Inr (u, t)"
  shows "spared I K b (us[n := u]) t"
proof -
  note sd = sparedD [OF sp]
  note so = sound_step [OF sd(1) n st]
  note live = sound_live [OF sd(1)]
  note k = sd(2) [OF n]
  have q: "spared I K b (us[n := u]) t"
    if "st_list t = st_list s" "st_cell t = st_cell s" "st_next t = st_next s" "keeps_to I K b u s"
      "set (ticket b s u) \<subseteq> set (ticket b s (us ! n))" "draws u \<le> draws (us ! n)"
    by (rule spared_quiet [OF sp n so that])
  have fw: "x \<in> set (st_list s) \<and> tid s x = i" if "find_where (\<lambda>t. tr_id t = i) s = Some x" for x i
    using find_where_set [OF that] by (simp add: tid_def)
  show ?thesis
  proof (cases "us ! n")
    case (LookUe i)
    then show ?thesis using st k fw q by (auto simp: live split: option.splits)
  next
    case (LookCell i)
    then show ?thesis using st k fw q by (auto simp: live split: option.splits)
  next
    case (ParseUe x)
    then show ?thesis using st k q by (auto simp: parse_ue_def split: sum.splits prod.splits if_splits)
  next
    case (ReportUe x rs j)
    then show ?thesis using st k q by (cases j) (auto split: sum.splits)
  next
    case (ParseCell x)
    then show ?thesis using st k q by (auto split: sum.splits)
  next
    case (Make proc m ty inst msg tty)
    obtain r w where a: "trig_alloc m ty inst (Some msg) (msg_size msg) (st_env s) = (r, w)" by fastforce
    note r = trig_alloc_after(1) [OF a]
    show ?thesis
    proof (cases "alloc_ok (st_env s) (Some msg)")
      case True
      then have "u = Link proc (st_fresh s) tty" and "t = s\<lparr>st_env := w, st_cell :=
          (st_cell s)(st_fresh s := Some (trig_init m ty inst (Some msg) (msg_size msg))), st_fresh := Suc (st_fresh s)\<rparr>"
        using st Make a r by (simp_all add: make_at_def)
      then show ?thesis using spared_make [OF sp n Make] so by simp
    next
      case False
      then show ?thesis using st Make a r q by (auto simp: make_at_def)
    qed
  next
    case (Link proc x tty)
    then show ?thesis using st so spared_link [OF sp n Link] by (auto split: sum.splits)
  next
    case (Hand proc x tty)
    then show ?thesis using st k q by (auto simp: hand_over_def split: sum.splits prod.splits option.splits)
  next
    case (Undo x)
    then obtain v where v: "st_cell s x = Some v" "u = SeekId (tid s x)" "t = s"
      using st by (auto simp: deref_def tid_def split: option.splits sum.splits)
    have "tid s x \<notin> I" using k Undo sd(6) by fastforce
    then show ?thesis using q v k Undo by simp
  next
    case (SeekId i)
    then show ?thesis
      using st so q fw spared_unlink [OF sp n] by (auto simp: live split: option.splits)
  next
    case (SeekInst m ty inst)
    have "tinst s x = (m, ty, inst)" if "find_where (inst_key m ty inst) s = Some x" for x
      using find_where_set [OF that] by (simp add: inst_key_of tinst_def)
    then show ?thesis
      using st so q SeekInst spared_unlink [OF sp n] by (auto simp: live split: option.splits)
  next
    case (Free x)
    then show ?thesis
      using st so spared_free [OF sp n Free] by (auto simp: release_at_def split: option.splits)
  next
    case Sweep
    then show ?thesis using k by simp
  next
    case Done
    then show ?thesis using st q by simp
  qed
qed

lemma spared_fails:
  assumes sp: "spared I K b us s" and n: "n < length us" and st: "user_step P g e (us ! n) s = Inl c"
  shows False
proof -
  note sd = sparedD [OF sp]
  obtain x where x: "x \<in> set (borrows (us ! n))" "st_cell s x = None" using sound_fails [OF sd(1) n st] by blast
  then show False using held_pointer [OF sd(2) [OF n] x(1)] sound_alive [OF sd(1), of x] by auto
qed

interpretation sp: contract P g e "spared I K b" "\<lambda>c. False"
  by unfold_locales (blast intro: spared_step spared_fails)+

end
