(* ===== verification/BorrowProps.thy ===== *)
theory BorrowProps
  imports BorrowAlone BorrowApart Demo
begin

text \<open>
  The properties of the registry as shared by threads that hold pointers into it.
\<close>

definition empty_store :: store where
  "empty_store = \<lparr>st_list = [], st_cell = (\<lambda>_. None), st_next = 1, st_fresh = 0, st_env = demo_env\<rparr>"

definition demo_trig :: emtri where
  "demo_trig = \<lparr>tr_id = 1, tr_type = TR_TYPE_UE_MEAS, tr_mod = 7, tr_instance = 0, tr_msg = Some [3, 5, 7, 1, 2], tr_msg_size = 5\<rparr>"

definition demo_store :: store where
  "demo_store = \<lparr>st_list = [0], st_cell = [0 \<mapsto> demo_trig], st_next = 2, st_fresh = 1, st_env = demo_env\<rparr>"

lemma demo_sound: "owns u = [] \<Longrightarrow> owns v = [] \<Longrightarrow> sound [u, v] demo_store" "owns u = [] \<Longrightarrow> sound [u] demo_store"
  by (simp_all add: sound_def demo_store_def listed_def owned_def)

text \<open>
  (C26) Ownership of triggers.  In every interleaving of any number of users, each live trigger is once
  in the list or in the hands of one user who is making or freeing it: none is freed twice, none is
  leaked.  The only fault there can be is a read through a pointer to a trigger that was freed.
\<close>

theorem triggers_have_one_owner:
  assumes "sound us s"
  shows "case work P g e ns us s of
      Inl b \<Rightarrow> \<exists>x. b = UseAfterFree x
    | Inr (vs, t) \<Rightarrow> sound vs t \<and> distinct (st_list t) \<and> (\<forall>x \<in> set (st_list t). st_cell t x \<noteq> None)"
proof (cases "work P g e ns us s")
  case (Inl b)
  then show ?thesis using ow.failed [OF assms Inl] by simp
next
  case (Inr r)
  obtain vs t where r: "r = (vs, t)" by fastforce
  have "sound vs t" using ow.kept [OF assms] Inr r by blast
  then show ?thesis using sound_distinct [of vs t] sound_alive [of vs t] Inr r by auto
qed

theorem triggers_have_one_owner_witness:
  "\<forall>ns. case work demo_proto demo_garbage 5 ns [SeekId 1, SeekId 1] demo_store of
      Inl b \<Rightarrow> \<exists>x. b = UseAfterFree x
    | Inr (vs, t) \<Rightarrow> distinct (st_list t)"
proof
  show "case work demo_proto demo_garbage 5 ns [SeekId 1, SeekId 1] demo_store of
      Inl b \<Rightarrow> \<exists>x. b = UseAfterFree x | Inr (vs, t) \<Rightarrow> distinct (st_list t)" for ns
    using triggers_have_one_owner [OF demo_sound(1) [of "SeekId 1" "SeekId 1"], of demo_proto demo_garbage 5 ns]
    by (auto split: sum.splits)
qed

text \<open>
  (C27) Removals spare the triggers of others.  Users look triggers up and report, enter new ones (and
  take them out again when there is no memory for the task), and remove and free, by identifier or by
  module, type and instance.  If no one seeks to remove what another looks up or is making, no one
  flushes, the identifiers that are named were given out before, and the counter does not overflow,
  then no interleaving reads a freed trigger, and every pointer that is held is to a trigger that is
  alive and in the list.
\<close>

theorem borrowing_is_safe:
  assumes "sound us s" and "apart us s"
  shows "\<exists>vs t. work P g e ns us s = Inr (vs, t)
    \<and> (\<forall>v \<in> set vs. \<forall>x \<in> set (borrows v). x \<in> set (st_list t) \<and> st_cell t x \<noteq> None)"
proof -
  note l = apart_spared [OF assms]
  show ?thesis
  proof (cases "work P g e ns us s")
    case (Inl b)
    then show ?thesis using sp.failed [OF l] by blast
  next
    case (Inr r)
    obtain vs t where r: "r = (vs, t)" by fastforce
    note q = sp.kept [OF l Inr [unfolded r]]
    have "x \<in> set (st_list t)" if "v \<in> set vs" "x \<in> set (borrows v)" for v x
      using q that held_pointer [OF _ that(2)] unfolding spared_def by blast
    then show ?thesis using Inr r sound_alive [OF sparedD(1) [OF q]] by blast
  qed
qed

text \<open>
  A measurement of trigger 1 while trigger 2 is removed by its identifier and trigger 3 by its instance,
  and a fourth is entered.
\<close>

definition busy_store :: store where
  "busy_store = \<lparr>st_list = [2, 1, 0], st_cell = [0 \<mapsto> demo_trig, 1 \<mapsto> demo_trig\<lparr>tr_id := 2, tr_mod := 8\<rparr>,
     2 \<mapsto> demo_trig\<lparr>tr_id := 3, tr_mod := 9\<rparr>], st_next = 4, st_fresh = 3, st_env = demo_env\<rparr>"

definition busy_users :: "user list" where
  "busy_users = [LookUe 1, SeekId 2, SeekInst 9 TR_TYPE_UE_MEAS 0, Make ''p'' 7 0 0 [1] 4]"

theorem borrowing_is_safe_witness:
  "(\<forall>ns. \<exists>r. work demo_proto demo_garbage 5 ns busy_users busy_store = Inr r)
    \<and> (\<exists>vs t. work demo_proto demo_garbage 5 [0, 1, 2, 1, 2] busy_users busy_store = Inr (ParseUe 0 # vs, t)
        \<and> st_cell t 0 \<noteq> None \<and> st_list t = [0] \<and> st_cell t 1 = None \<and> st_cell t 2 = None)"
proof -
  have so: "sound busy_users busy_store"
    by (auto simp: sound_def busy_store_def busy_users_def listed_def owned_def)
  have "apart busy_users busy_store"
    by (simp add: apart_def all_of_def busy_store_def busy_users_def demo_trig_def inst_of_def)
  note safe = borrowing_is_safe [OF so this, of demo_proto demo_garbage 5]
  obtain vs t where w: "work demo_proto demo_garbage 5 [0, 1, 2, 1, 2] busy_users busy_store = Inr (vs, t)"
    "\<forall>v \<in> set vs. \<forall>x \<in> set (borrows v). x \<in> set (st_list t) \<and> st_cell t x \<noteq> None" using safe by blast
  have "\<exists>us. vs = ParseUe 0 # us" "st_list t = [0]" "st_cell t 1 = None" "st_cell t 2 = None"
    using w(1) by (auto simp: busy_store_def busy_users_def search_def seek_def demo_trig_def unlink_def
        release_at_def inst_key_def)
  with w safe show ?thesis by fastforce
qed

text \<open>
  (C29) The scheduler reads a freed trigger.  \<open>trig_find_by_id\<close> returns after it has given the lock back;
  when the trigger is deleted before \<open>sched_perform_ue_measure\<close> reads its message, or between two of its
  reports, the read is of freed memory.  The same holds for a cell measurement.
\<close>

theorem deleted_while_measured:
  assumes "sound [u, SeekId i] s" and "find_where (\<lambda>t. tr_id t = i) s = Some x"
    and "(u = LookUe i \<or> u = LookCell i) \<and> ns = [0, 1, 1, 0] \<or> u = ReportUe x rs (Suc n) \<and> ns = [1, 1, 0]"
  shows "work P g e ns [u, SeekId i] s = Inl (UseAfterFree x)"
proof -
  obtain t where t: "st_cell s x = Some t"
    using sound_alive [OF assms(1), of x 0] find_where_set [OF assms(2)] by auto
  show ?thesis
    using assms(2,3) t sound_live(1,2) [OF assms(1)] by (auto simp: deref_def release_at_def unlink_def)
qed

theorem deleted_while_measured_witness:
  "work demo_proto demo_garbage 5 [0, 1, 1, 0] [LookUe 1, SeekId 1] demo_store = Inl (UseAfterFree 0)"
proof (rule deleted_while_measured [where i = 1 and n = 0])
  show "sound [LookUe 1, SeekId 1] demo_store" by (simp add: demo_sound)
  show "find_where (\<lambda>t. tr_id t = 1) demo_store = Some 0" by (simp add: find_where_def demo_store_def demo_trig_def)
qed simp

text \<open>
  The listener reads a freed trigger.  After \<open>trig_add\<close> the trigger is in the list, and
  \<open>net_te_ue_report\<close> reads its identifier for the task; a flush by the scheduler in between frees it.
\<close>

theorem flushed_while_entered:
  assumes "alloc_ok (st_env s) (Some msg)" and "sound [Make proc m ty inst msg tty, Sweep] s"
  shows "work P g e [0, 0, 1, 0] [Make proc m ty inst msg tty, Sweep] s = Inl (UseAfterFree (st_fresh s))"
proof -
  obtain us t where t: "work P g e [0, 0] [Make proc m ty inst msg tty, Sweep] s = Inr (us, t)"
    "us = [Hand proc (st_fresh s) tty, Sweep]" "st_fresh s \<in> set (st_list t)"
    using assms(1) by (cases "trig_alloc m ty inst (Some msg) (msg_size msg) (st_env s)")
      (auto simp: make_at_def deref_def enter_at_def dest!: trig_alloc_after(1))
  have "sound us t" by (rule ow.kept [OF assms(2) t(1)])
  then have "work P g e [1, 0] us t = Inl (UseAfterFree (st_fresh s))"
    using t(3) sound_live(3) by (simp add: t(2) deref_def sweep_def)
  moreover have "work P g e ([0, 0] @ [1, 0]) [Make proc m ty inst msg tty, Sweep] s = work P g e [1, 0] us t"
    unfolding work_append t(1) by simp
  ultimately show ?thesis by simp
qed

theorem flushed_while_entered_witness:
  "work demo_proto demo_garbage 5 [0, 0, 1, 0] [Make ''p'' 7 0 0 [1] 4, Sweep] empty_store = Inl (UseAfterFree 0)"
  using flushed_while_entered [of empty_store "[1]" "''p''" 7 0 0 4 demo_proto demo_garbage 5]
  by (simp add: empty_store_def sound_def listed_def owned_def)

text \<open>
  (C28) The steps are those of the functions.  A user who is not interrupted leaves the registry and the
  process as the sequential model does: a measurement makes the calls of \<open>sched_perform_ue_measure\<close> or
  \<open>sched_perform_cell_meas\<close>, a removal is \<open>trig_del_by_id\<close> or \<open>trig_del_by_inst\<close>, a flush is \<open>trig_flush\<close>.
\<close>

theorem trigger_user_alone:
  assumes "sound [u] s" and "trig a = trctx_of s" and "has_op a op_ue_measure" and "has_op a op_cell_measure"
    and "by_function P g a k u (st_env s) = Some (ctx, w)"
  shows "\<exists>n t. work P g (enb_id a) (replicate n 0) [u] s = Inr ([Done], t) \<and> trctx_of t = ctx \<and> st_env t = w"
proof (cases u)
  case (LookUe i)
  then show ?thesis
    using measure_alone [OF assms(1) LookUe assms(2,3), of "k\<lparr>tk_trig := i\<rparr>"] assms(2,5) by fastforce
next
  case (LookCell i)
  then have "0 <s i" using assms(5) by (simp split: if_splits)
  from cell_alone [OF assms(1) LookCell assms(2,4) _ this, of "k\<lparr>tk_trig := i\<rparr>"] LookCell this assms(2,5)
  show ?thesis by fastforce
next
  case (SeekId i)
  then show ?thesis
    using remove_by_id_alone [OF assms(1) [unfolded SeekId], of P g "enb_id a"] assms(2,5) by fastforce
next
  case (SeekInst m ty inst)
  then show ?thesis
    using remove_by_inst_alone [OF assms(1) [unfolded SeekInst], of P g "enb_id a"] assms(2,5) by fastforce
next
  case Sweep
  then show ?thesis
    using sweep_alone [of s "st_env s"] assms(2,5) sound_live(3) [OF assms(1)]
    by (intro exI [of _ 1] exI [of _ "sweep s"]) simp
qed (use assms(5) in simp_all)

theorem trigger_user_alone_witness:
  "\<exists>n t. work demo_proto demo_garbage 5 (replicate n 0) [SeekId 1] demo_store = Inr ([Done], t) \<and> tx_ts (trctx_of t) = []"
proof -
  let ?a = "(demo_agent [])\<lparr>trig := trctx_of demo_store\<rparr>"
  have "sound [SeekId 1] demo_store" "trig ?a = trctx_of demo_store"
    "has_op ?a op_ue_measure" "has_op ?a op_cell_measure" by (simp_all add: demo_sound has_op_def all_ops_def)
  moreover have "by_function demo_proto demo_garbage ?a hello_task (SeekId 1) (st_env demo_store)
      = Some (\<lparr>tx_ts = [], tx_next = 2\<rparr>, trig_free demo_trig demo_env)"
    by (simp add: trctx_of_def demo_store_def demo_trig_def trig_del_by_id_def)
  ultimately show ?thesis using trigger_user_alone by fastforce
qed

end
