(* ===== verification/Whole.thy ===== *)
theory Whole
  imports TurnMoves NetLoopProps
begin

text \<open>
  An agent at work: the thread of the scheduler (\<open>sched_loop\<close>), step by step at the grain of its lock, the
  thread of the listener (\<open>net_loop\<close>), and calls of the API that reach the agent, in any interleaving, up to the
  end of both threads.
\<close>

section \<open>The thread of the scheduler\<close>

text \<open>
  At the look at the flag, in a pass, before the sleep, before the queues are freed, and gone.  The code
  converts the interval once, before its loop; \<open>sched_start\<close> has set it and nothing changes it.
\<close>

datatype sched_place = AtLook | InPass place | AtSleep | AtExit | Gone

fun thread_step ::
    "emproto \<Rightarrow> stack_garbage \<Rightarrow> sched_place \<Rightarrow> emage \<Rightarrow> env \<Rightarrow> sched_place \<times> emage \<times> env" where
  "thread_step P g AtLook a w = (if \<not> sc_stop (sched a) then InPass Pop else AtExit, a, w)"
| "thread_step P g (InPass p) a w =
     (let (q, a, w) = pass_step P g p a w in (if q = Over then AtSleep else InPass q, a, w))"
| "thread_step P g AtSleep a w = (AtLook, a, emit (EvSleep (wait_time (sc_interval (sched a)) 0)) w)"
| "thread_step P g AtExit a w =
     (let (s, w) = sched_loop_exit (sched a) w in (Gone, a\<lparr>sched := s\<rparr>, w))"
| "thread_step P g Gone a w = (Gone, a, w)"

section \<open>The agent\<close>

text \<open>
  What can happen next: a step of the scheduler, a step of the listener with the answers of the kernel,
  a move of a caller, and the flags that \<open>sched_stop\<close> and \<open>net_stop\<close> set before they wait for the threads.
\<close>

datatype act = Sched | Listen sysin | Api move | StopSched | StopNet

type_synonym whole = "sched_place \<times> netloop"

fun act_step :: "emproto \<Rightarrow> stack_garbage \<Rightarrow> act \<Rightarrow> whole \<Rightarrow> whole" where
  "act_step P g Sched (t, s) =
     (let (t, a, w) = thread_step P g t (nl_agent s) (nl_env s) in (t, s\<lparr>nl_agent := a, nl_env := w\<rparr>))"
| "act_step P g (Listen i) (t, s) = (t, net_step P g i s)"
| "act_step P g (Api m) (t, s) =
     (let (a, w) = move_step m (nl_agent s) (nl_env s) in (t, s\<lparr>nl_agent := a, nl_env := w\<rparr>))"
| "act_step P g StopSched (t, s) =
     (t, s\<lparr>nl_agent := (nl_agent s)\<lparr>sched := (sched (nl_agent s))\<lparr>sc_stop := True\<rparr>\<rparr>\<rparr>)"
| "act_step P g StopNet (t, s) =
     (t, s\<lparr>nl_agent := (nl_agent s)\<lparr>net := (net (nl_agent s))\<lparr>nt_stop := True\<rparr>\<rparr>\<rparr>)"

definition whole_run :: "emproto \<Rightarrow> stack_garbage \<Rightarrow> act list \<Rightarrow> whole \<Rightarrow> whole" where
  "whole_run P g xs z = fold (act_step P g) xs z"

text \<open>What each act that is allowed keeps, every run of such acts keeps.\<close>

locale agent_contract =
  fixes P :: emproto and g :: stack_garbage and Inv :: "sched_place \<Rightarrow> netloop \<Rightarrow> bool" and allowed :: "act \<Rightarrow> bool"
  assumes keeps: "Inv t s \<Longrightarrow> allowed x \<Longrightarrow> act_step P g x (t, s) = (u, r) \<Longrightarrow> Inv u r"
begin

lemma run: "Inv t s \<Longrightarrow> list_all allowed xs \<Longrightarrow> whole_run P g xs (t, s) = (u, r) \<Longrightarrow> Inv u r"
proof (induction xs arbitrary: t s)
  case (Cons x xs)
  obtain t' s' where x: "act_step P g x (t, s) = (t', s')" by fastforce
  have "Inv t' s'" by (rule keeps [OF Cons.prems(1) _ x]) (use Cons.prems(2) in simp)
  then show ?case by (rule Cons.IH) (use Cons.prems(2,3) x in \<open>simp_all add: whole_run_def\<close>)
qed (simp add: whole_run_def)

end

end
