(* ===== verification/WholeFacts.thy ===== *)
theory WholeFacts
  imports Whole
begin

text \<open>
  Invariants of an agent at work.
\<close>

section \<open>Accounts\<close>

fun holds :: "sched_place \<Rightarrow> emtask list" where
  "holds (InPass p) = held p"
| "holds _ = []"

definition accounts :: "u32 \<Rightarrow> u32 \<Rightarrow> sched_place \<Rightarrow> netloop \<Rightarrow> bool" where
  "accounts k l t s \<longleftrightarrow> books (k + tasks_bytes (nl_env s) (holds t)) l (nl_agent s) (nl_env s)
     \<and> \<not> sc_stop (sched (nl_agent s))"

definition running :: "act \<Rightarrow> bool" where
  "running x = (case x of Api m \<Rightarrow> move_ok m | StopSched \<Rightarrow> False | _ \<Rightarrow> True)"

lemma sizeof_step: "sizeof_emtask (nl_env (net_step P g i s)) = sizeof_emtask (nl_env s)"
proof (cases "nl_phase s")
  case AtTop
  obtain ad b v where p: "net_connect_prepare i (nl_agent s) (nl_env s) = (ad, b, v)" by (rule prod_cases3)
  then show ?thesis
    using AtTop minor_prepare [OF p]
    by (auto simp: net_step.simps Let_def minor_def same_heap_def relax_def split: option.split)
next
  case (AtConnect ad)
  obtain r e v where y: "net_connect_try i ad (nl_agent s) (nl_errno s) (nl_env s) = (r, e, v)" by (rule prod_cases3)
  obtain c b u where n: "net_connected (nl_agent s) v = (c, b, u)" by (rule prod_cases3)
  obtain h x where h: "task_alloc TASK_TYPE_HELLO 2000 (- 1) 0 None 0 v = (h, x)" by fastforce
  have "sizeof_emtask u = sizeof_emtask v"
    using n h task_alloc_after(2) [OF h]
    by (auto simp: net_connected_def agent_add_task_def sched_add_task_def clock_gettime_def same_but_mem_def
        split: option.splits if_splits)
  then show ?thesis
    using AtConnect y n minor_try [OF y] minor_not_connected [of b u]
    by (auto simp: net_step.simps Let_def minor_def same_heap_def relax_def split_beta split: option.split)
next
  case (AtHeader b)
  then show ?thesis using kept_collect minor_reset [of s]
    by (auto simp: net_step.simps Let_def kept_def minor_def same_heap_def)
next
  case (AtBody b mlen)
  obtain r c v where p: "net_process_message P g (nl_agent s) (take b (nt_buf (net (nl_agent s)))) (nl_env s) = (r, c, v)"
    by (rule prod_cases3)
  then show ?thesis
    using AtBody kept_collect minor_reset [of s] calm_sizes(4) [OF calm_net_process_message [OF p]]
    by (auto simp: net_step.simps Let_def kept_def minor_def same_heap_def)
qed (simp add: net_step.simps Let_def)

lemma accounts_step:
  assumes "accounts k l t s" and "running x" and "act_step P g x (t, s) = (u, r)"
  shows "accounts k l u r"
proof (cases x)
  case Sched
  obtain t' b v where t: "thread_step P g t (nl_agent s) (nl_env s) = (t', b, v)" by (rule prod_cases3)
  have r: "u = t'" "r = s\<lparr>nl_agent := b, nl_env := v\<rparr>" using assms(3) Sched t by simp_all
  have a: "books (k + tasks_bytes (nl_env s) (holds t)) l (nl_agent s) (nl_env s)" "\<not> sc_stop (sched (nl_agent s))"
    using assms(1) by (simp_all add: accounts_def)
  have "books (k + tasks_bytes v (holds t')) l b v \<and> \<not> sc_stop (sched b)"
  proof (cases t)
    case (InPass p)
    obtain q c y where q: "pass_step P g p (nl_agent s) (nl_env s) = (q, c, y)" by (rule prod_cases3)
    have "pass_books k l q c y" by (rule pass_books_step [OF q]) (use a InPass in \<open>simp add: pass_books_def\<close>)
    then show ?thesis using t InPass q by (auto simp: pass_books_def)
  next
    case AtSleep
    then show ?thesis using a t
      by (auto simp: books_def tasks_bytes_cong [of v "nl_env s"] trigs_bytes_cong [of v "nl_env s"])
  next
    case AtExit
    then show ?thesis using a t
      by (auto simp: sched_loop_exit_def Let_def books_def task_free_all_mem)
  qed (use a t in auto)
  then show ?thesis by (simp add: accounts_def r)
next
  case (Listen i)
  let ?r = "net_step P g i s"
  have r: "u = t" "r = ?r" using assms(3) Listen by simp_all
  have "tasks_bytes (nl_env ?r) (holds t) = tasks_bytes (nl_env s) (holds t)"
    by (rule tasks_bytes_cong) (rule sizeof_step)
  then show ?thesis
    using assms(1) net_step_books [of "k + tasks_bytes (nl_env s) (holds t)" l s P g i]
    by (simp add: accounts_def r)
next
  case (Api m)
  obtain b v where m: "move_step m (nl_agent s) (nl_env s) = (b, v)" by fastforce
  from move_books [OF m] assms Api m show ?thesis
    by (auto simp: accounts_def running_def tasks_bytes_cong [of v "nl_env s"])
next
  case StopNet
  then show ?thesis using assms by (auto simp: accounts_def books_def)
qed (use assms in \<open>simp add: running_def\<close>)

interpretation ac: agent_contract P g "accounts k l" running
  by unfold_locales (rule accounts_step)

section \<open>No undefined behaviour\<close>

lemma sound_simps [simp]:
  "sound w (emit (EvSleep t) w)" "sound w (call e cb w)" "sound w (EMLOG ag p x w)"
  by (simp_all add: sound_def call_def EMLOG_fault_iff)

lemma sound_calls [simp]: "sound w (ue_measure_calls a t rs n w)"
  by (induction n arbitrary: w) (auto intro: sound_trans [OF sound_simps(2)])

lemma sound_send: "sched_send_msg P a m sz w = (r, m', b, v) \<Longrightarrow> sound w v"
  by (auto simp: sched_send_msg_def net_send_def send_def Let_def sound_def EMLOG_fault_iff
      split: if_splits prod.splits)

lemma sound_dispatch: "sched_dispatch P g a t w = (r, b, u, v) \<Longrightarrow> sound w v"
  by (auto simp: sched_dispatch_def sched_perform_send_def sched_perform_hello_def
      sched_perform_enb_setup_def sched_perform_ue_report_def sched_perform_ue_measure_def
      sched_perform_cell_meas_def sched_perform_ho_def sched_perform_ran_setup_def
      sched_perform_ran_slice_def Let_def
      split: if_splits prod.splits option.splits
      dest: sound_send)

lemma sound_job: "sched_perform_job P g a t now w = (r, b, u, v) \<Longrightarrow> sound w v"
  by (erule sched_perform_job_cases) (auto dest: sound_dispatch)

lemma sound_same_but_mem: "same_but_mem w v \<Longrightarrow> sound w v"
  by (auto simp: sound_def dest: same_but_memD)

lemma sound_free_all [simp]: "sound w (task_free_all ts w)"
  by (rule sound_same_but_mem) simp

lemma sound_pass_step:
  assumes "pass_step P g p a w = (q, b, v)" and "ops a \<noteq> None"
  shows "sound w v"
proof (cases p)
  case (Perform t)
  let ?w = "w\<lparr>clocks := Suc (clocks w)\<rparr>"
  obtain r c u x where j: "sched_perform_job P g a t (clock w (clocks w)) ?w = (r, c, u, x)"
    by (rule prod_cases4)
  have "sound ?w x" by (rule sound_job [OF j])
  then show ?thesis using assms(1) Perform j by (auto simp: clock_gettime_def sound_def)
next
  case (Settle op now t)
  have free: "sound w (task_free t w)" by (rule sound_same_but_mem) simp
  then show ?thesis
    using assms(1) Settle sound_trans [OF free] sound_trans [OF sound_free_all sound_free_all]
    by (cases op) (auto simp: settle_def drop_queues_def Let_def)
next
  case Flush
  then show ?thesis using assms(1) sound_same_but_mem [OF trig_flush_env(1) [of w "trig a"]]
    by (auto split: prod.splits)
next
  case Close
  then show ?thesis using assms(1) minor_sound [OF minor_not_connected [of a w]] by (auto split: prod.splits)
qed (use assms in \<open>auto simp: tell_disconnected_def split: list.splits\<close>)

lemma sound_move:
  assumes "move_step m a w = (b, v)"
  shows "sound w v \<and> ops b = ops a"
proof (cases m)
  case (Post ty intv res trg msg sz)
  obtain r where "post_task ty intv res trg msg sz a w = (r, b, v)"
    using assms Post by (cases "post_task ty intv res trg msg sz a w") simp
  from calm_post [OF this] show ?thesis by (simp add: calm_def sound_def)
next
  case (Enter m' ty inst msg)
  obtain t u where t: "trig_alloc m' ty inst (Some msg) (msg_size msg) w = (t, u)" by fastforce
  have "sound w u" by (rule sound_same_but_mem [OF trig_alloc_after(2) [OF t]])
  then show ?thesis using assms Enter t by (auto simp: enter_trig_def split: option.splits prod.splits)
next
  case (DropId i)
  then show ?thesis using assms by (auto split: prod.splits dest!: same_but_mem_del(1) simp: sound_same_but_mem)
next
  case (DropInst m' ty inst)
  then show ?thesis
    using assms by (auto simp: drop_inst_def sound_same_but_mem split: prod.splits dest!: same_but_mem_del(2))
next
  case (Up fd)
  let ?a = "a\<lparr>net := (net a)\<lparr>nt_sockfd := fd\<rparr>\<rparr>"
  obtain r where c: "net_connected ?a w = (r, b, v)" using assms Up by (cases "net_connected ?a w") simp
  have "ops b = ops ?a" using c
    by (auto simp: net_connected_def agent_add_task_def sched_add_task_def clock_gettime_def Let_def
        split: option.splits if_splits prod.splits)
  then show ?thesis using net_connected_quiet [OF c] by (simp add: sound_def)
next
  case Down
  then show ?thesis using assms minor_not_connected [of a w] by (auto simp: minor_def sound_def same_heap_def)
qed (use assms in auto)

lemma collect_ops: "ops (nl_agent (net_collect i b n ph s)) = ops (nl_agent s)"
proof -
  obtain r ctx e w where q: "net_recv (net (nl_agent s)) b n (in_recv i) (nl_errno s) (nl_env s) = (r, ctx, e, w)"
    by (rule prod_cases4)
  have "ops (nl_agent (net_reset z)) = ops (nl_agent z)" for z using minor_reset [of z] by (simp add: minor_def)
  then show ?thesis by (simp add: net_collect_def q Let_def)
qed

lemma net_step_ops: "ops (nl_agent (net_step P g i s)) = ops (nl_agent s)"
proof (cases "nl_phase s")
  case AtTop
  obtain ad b v where p: "net_connect_prepare i (nl_agent s) (nl_env s) = (ad, b, v)" by (rule prod_cases3)
  then show ?thesis using AtTop minor_prepare [OF p] by (auto simp: net_step.simps Let_def minor_def split: option.split)
next
  case (AtConnect ad)
  obtain r e v where y: "net_connect_try i ad (nl_agent s) (nl_errno s) (nl_env s) = (r, e, v)" by (rule prod_cases3)
  obtain c b u where n: "net_connected (nl_agent s) v = (c, b, u)" by (rule prod_cases3)
  have "ops b = ops (nl_agent s)" using n
    by (auto simp: net_connected_def agent_add_task_def sched_add_task_def clock_gettime_def Let_def
        split: option.splits if_splits prod.splits)
  then show ?thesis
    using AtConnect y n minor_not_connected [of b u]
    by (auto simp: net_step.simps Let_def minor_def split_beta split: option.split)
next
  case (AtHeader b)
  then show ?thesis using collect_ops minor_reset [of s]
    by (auto simp: net_step.simps Let_def minor_def)
next
  case (AtBody b mlen)
  obtain r c v where p: "net_process_message P g (nl_agent s) (take b (nt_buf (net (nl_agent s)))) (nl_env s) = (r, c, v)"
    by (rule prod_cases3)
  then show ?thesis
    using AtBody collect_ops minor_reset [of s] calm_net_process_message [OF p]
    by (auto simp: net_step.simps Let_def minor_def calm_def)
qed (simp add: net_step.simps Let_def)

text \<open>As long as every announced length fits, nothing that any thread does is undefined.\<close>

definition in_bounds :: "emproto \<Rightarrow> fault list \<Rightarrow> sched_place \<Rightarrow> netloop \<Rightarrow> bool" where
  "in_bounds P fs t s \<longleftrightarrow> in_buffer P s \<and> ops (nl_agent s) \<noteq> None \<and> faults_of (trace (nl_env s)) = fs"

definition fits :: "emproto \<Rightarrow> bool" where
  "fits P \<longleftrightarrow> EP_HEADER_SIZE P \<le> EM_BUF_SIZE \<and> (\<forall>h. epp_msg_length P h \<le> int EM_BUF_SIZE)"

lemma in_bounds_step:
  assumes "in_bounds P fs t s" and "fits P" and "act_step P g x (t, s) = (u, r)"
  shows "in_bounds P fs u r"
proof (cases x)
  case Sched
  obtain t' b v where t: "thread_step P g t (nl_agent s) (nl_env s) = (t', b, v)" by (rule prod_cases3)
  have "sound (nl_env s) v \<and> ops b = ops (nl_agent s)"
  proof (cases t)
    case (InPass p)
    obtain q c y where q: "pass_step P g p (nl_agent s) (nl_env s) = (q, c, y)" by (rule prod_cases3)
    then show ?thesis
      using t InPass sound_pass_step [OF q] pass_step_agent [OF q] assms(1) by (simp add: in_bounds_def)
  next
    case AtExit
    then show ?thesis using t sound_trans [OF sound_free_all sound_free_all]
      by (auto simp: sched_loop_exit_def Let_def)
  qed (use t in auto)
  then show ?thesis using assms(1,3) Sched t by (auto simp: in_bounds_def in_buffer_def sound_def)
next
  case (Listen i)
  have b: "EP_HEADER_SIZE P \<le> EM_BUF_SIZE" "\<And>h. epp_msg_length P h \<le> int EM_BUF_SIZE" "in_buffer P s"
    using assms(1,2) by (simp_all add: fits_def in_bounds_def)
  from net_step_sound [OF b, of g i] net_step_ops [of P g i s] show ?thesis
    using assms(1,3) Listen b(3) by (auto simp: in_bounds_def in_buffer_def sound_def)
next
  case (Api m)
  obtain b v where m: "move_step m (nl_agent s) (nl_env s) = (b, v)" by fastforce
  from sound_move [OF m] show ?thesis
    using assms(1,3) Api m by (auto simp: in_bounds_def in_buffer_def sound_def)
qed (use assms in \<open>auto simp: in_bounds_def in_buffer_def\<close>)

interpretation bo: agent_contract P g "in_bounds P fs" "\<lambda>x. fits P"
  by unfold_locales (rule in_bounds_step)

section \<open>The end of the threads\<close>

definition stopping :: "sched_place \<Rightarrow> netloop \<Rightarrow> bool" where
  "stopping t s \<longleftrightarrow> sc_stop (sched (nl_agent s)) \<and> nt_stop (net (nl_agent s))
     \<and> (t = Gone \<longrightarrow> sc_jobs (sched (nl_agent s)) = [] \<and> sc_todo (sched (nl_agent s)) = [])"

fun sched_left :: "sched_place \<Rightarrow> emage \<Rightarrow> nat" where
  "sched_left Gone a = 0"
| "sched_left AtExit a = 1"
| "sched_left AtLook a = 2"
| "sched_left AtSleep a = 3"
| "sched_left (InPass p) a = 4 + pass_left p a"

text \<open>After the flag is set nobody can post a task.\<close>

lemma shut_move:
  assumes "move_step m a w = (b, v)" and "sc_stop (sched a)" and "plain_move m"
  shows "sched b = sched a \<and> net b = net a"
proof (cases m)
  case (Enter m' ty inst msg)
  then show ?thesis using assms(1) by (auto simp: enter_trig_def split: option.splits prod.splits)
qed (use assms in \<open>auto simp: plain_move_def post_task_eq agent_add_task_def sched_add_task_def clock_gettime_def
      drop_inst_def split: prod.splits if_splits\<close>)

lemma shut_moves:
  "moves ms a w = (b, v) \<Longrightarrow> sc_stop (sched a) \<Longrightarrow> list_all plain_move ms \<Longrightarrow> sched b = sched a \<and> net b = net a"
proof (induction ms arbitrary: a w)
  case (Cons m ms)
  obtain c u where "move_step m a w = (c, u)" by fastforce
  then show ?case using Cons shut_move [of m a w c u] by auto
qed simp

lemma shut_connected: "net_connected a w = (r, b, v) \<Longrightarrow> sc_stop (sched a) \<Longrightarrow> sched b = sched a"
  by (auto simp: net_connected_def agent_add_task_def sched_add_task_def clock_gettime_def Let_def
      split: option.splits if_splits prod.splits)

lemma shut_listen:
  assumes "sc_stop (sched (nl_agent s))"
  shows "sched (nl_agent (net_step P g i s)) = sched (nl_agent s)"
proof (cases "nl_phase s")
  case AtTop
  obtain ad b v where p: "net_connect_prepare i (nl_agent s) (nl_env s) = (ad, b, v)" by (rule prod_cases3)
  then show ?thesis using AtTop minor_prepare [OF p] by (auto simp: net_step.simps Let_def minor_def split: option.split)
next
  case (AtConnect ad)
  obtain r e v where y: "net_connect_try i ad (nl_agent s) (nl_errno s) (nl_env s) = (r, e, v)" by (rule prod_cases3)
  obtain c b u where n: "net_connected (nl_agent s) v = (c, b, u)" by (rule prod_cases3)
  then show ?thesis
    using AtConnect y shut_connected [OF n assms] minor_not_connected [of b u]
    by (auto simp: net_step.simps Let_def minor_def split_beta split: option.split)
next
  case (AtHeader b)
  then show ?thesis using kept_collect minor_reset [of s]
    by (auto simp: net_step.simps Let_def minor_def kept_def)
next
  case (AtBody b mlen)
  obtain r c v where p: "net_process_message P g (nl_agent s) (take b (nt_buf (net (nl_agent s)))) (nl_env s) = (r, c, v)"
    by (rule prod_cases3)
  then have "sched c = sched (nl_agent s)"
    using message_moves [OF p] shut_moves assms by (auto simp: by_moves_def)
  then show ?thesis
    using AtBody p kept_collect minor_reset [of s]
    by (auto simp: net_step.simps Let_def minor_def kept_def)
qed (simp add: net_step.simps Let_def)

definition ending :: "act \<Rightarrow> bool" where
  "ending x = (case x of Api m \<Rightarrow> plain_move m | _ \<Rightarrow> True)"

definition scheds :: "act list \<Rightarrow> nat" where
  "scheds xs = length (filter (\<lambda>x. x = Sched) xs)"

definition listens :: "act list \<Rightarrow> nat" where
  "listens xs = length (filter (\<lambda>x. \<exists>i. x = Listen i) xs)"

lemma sched_step_left:
  assumes "thread_step P g t a w = (u, b, v)" and "sc_stop (sched a)"
  shows "sched_left u b \<le> sched_left t a - 1 \<and> sc_stop (sched b) \<and> nt_stop (net b) = nt_stop (net a)
    \<and> (t = Gone \<longrightarrow> u = Gone \<and> b = a) \<and> (t \<noteq> Gone \<and> u = Gone \<longrightarrow> sc_jobs (sched b) = [] \<and> sc_todo (sched b) = [])
    \<and> nt_status (net b) \<in> {nt_status (net a), NET_STATUS_NOT_CONNECTED}"
proof (cases t)
  case (InPass p)
  obtain q c y where q: "pass_step P g p a w = (q, c, y)" by (rule prod_cases3)
  have "pass_left q c \<le> pass_left p a - 1 \<and> (q \<noteq> Over \<longrightarrow> pass_left q c < pass_left p a)"
  proof (cases "p = Over")
    case True
    then show ?thesis using q by (simp add: pass_left_def)
  next
    case False
    from pass_step_left [OF q this] show ?thesis by linarith
  qed
  then show ?thesis using assms InPass q pass_step_agent [OF q] by (auto split: if_splits)
next
  case AtExit
  then show ?thesis using assms by (auto simp: sched_loop_exit_def Let_def)
qed (use assms in auto)

lemma act_left:
  assumes "act_step P g x (t, s) = (u, r)" and "stopping t s" and "ending x" and "0 < EP_HEADER_SIZE P"
  shows "stopping u r \<and> sched_left u (nl_agent r) \<le> sched_left t (nl_agent s) - scheds [x]
    \<and> to_end P r \<le> to_end P s - listens [x]"
proof (cases x)
  case Sched
  obtain t' b v where t: "thread_step P g t (nl_agent s) (nl_env s) = (t', b, v)" by (rule prod_cases3)
  have r: "u = t'" "r = s\<lparr>nl_agent := b, nl_env := v\<rparr>" using assms(1) Sched t by simp_all
  have st: "sc_stop (sched (nl_agent s))" using assms(2) by (simp add: stopping_def)
  note l = sched_step_left [OF t st]
  have "to_end P r \<le> to_end P s" using l by (auto simp: r to_end_def split: net_phase.split)
  moreover have "stopping u r" using l assms(2) by (auto simp: stopping_def r)
  ultimately show ?thesis using l Sched by (simp add: r scheds_def listens_def)
next
  case (Listen i)
  have st: "nt_stop (net (nl_agent s))" "sc_stop (sched (nl_agent s))" using assms(2) by (simp_all add: stopping_def)
  have r: "u = t" "r = net_step P g i s" using assms(1) Listen by simp_all
  note sh = shut_listen [OF st(2), of P g i]
  have "sched_left t (nl_agent r) = sched_left t (nl_agent s)" using sh by (cases t) (simp_all add: r pass_left_def)
  then show ?thesis
    using to_end_step [OF st(1) assms(4), of g i] sh assms(2) Listen
    by (auto simp: r stopping_def scheds_def listens_def)
next
  case (Api m)
  obtain b v where m: "move_step m (nl_agent s) (nl_env s) = (b, v)" by fastforce
  have r: "u = t" "r = s\<lparr>nl_agent := b, nl_env := v\<rparr>" using assms(1) Api m by simp_all
  have sh: "sched b = sched (nl_agent s)" "net b = net (nl_agent s)"
    using shut_move [OF m] assms(2,3) Api by (simp_all add: stopping_def ending_def)
  have "sched_left t b = sched_left t (nl_agent s)" using sh by (cases t) (simp_all add: pass_left_def)
  then show ?thesis using assms(2) Api sh
    by (simp add: r stopping_def scheds_def listens_def to_end_def)
qed (use assms in \<open>cases t; auto simp: stopping_def scheds_def listens_def to_end_def pass_left_def\<close>)+

lemma whole_end:
  assumes "whole_run P g xs (t, s) = (u, r)" and "stopping t s" and "list_all ending xs" and "0 < EP_HEADER_SIZE P"
  shows "stopping u r \<and> sched_left u (nl_agent r) \<le> sched_left t (nl_agent s) - scheds xs
    \<and> to_end P r \<le> to_end P s - listens xs"
  using assms(1-3)
proof (induction xs arbitrary: t s)
  case (Cons x xs)
  obtain t' s' where x: "act_step P g x (t, s) = (t', s')" by fastforce
  have e: "ending x" "list_all ending xs" using Cons.prems(3) by simp_all
  note a = act_left [OF x Cons.prems(2) e(1) assms(4)]
  have "whole_run P g xs (t', s') = (u, r)" using Cons.prems(1) x by (simp add: whole_run_def)
  note i = Cons.IH [OF this _ e(2)]
  have "scheds (x # xs) = scheds [x] + scheds xs" "listens (x # xs) = listens [x] + listens xs"
    by (simp_all add: scheds_def listens_def)
  with a i show ?case by auto
qed (simp add: whole_run_def scheds_def listens_def)

lemma sched_left_bound: "sched_left t a \<le> 4 * length (sc_jobs (sched a)) + 9"
proof -
  have "place_rank p \<le> 5" for p by (cases p) simp_all
  then show ?thesis by (cases t) (auto simp: pass_left_def)
qed

section \<open>The scheduler alone\<close>

text \<open>The steps of a pass are steps of the thread.\<close>

lemma pass_in_thread:
  assumes "mix P g (replicate n Turn) (p, nl_agent s, nl_env s) = (Over, b, v)" and "p \<noteq> Over"
  shows "\<exists>m. whole_run P g (replicate m Sched) (InPass p, s) = (AtSleep, s\<lparr>nl_agent := b, nl_env := v\<rparr>)"
  using assms
proof (induction n arbitrary: p s)
  case (Suc n)
  obtain q c y where q: "pass_step P g p (nl_agent s) (nl_env s) = (q, c, y)" by (rule prod_cases3)
  let ?s = "s\<lparr>nl_agent := c, nl_env := y\<rparr>"
  have m: "mix P g (replicate n Turn) (q, c, y) = (Over, b, v)" using Suc.prems(1) q by simp
  show ?case
  proof (cases "q = Over")
    case True
    have "mix P g (replicate k Turn) (Over, c, y) = (Over, c, y)" for k by (induction k) simp_all
    then have "b = c" "v = y" using m True by simp_all
    then show ?thesis using q True by (intro exI [of _ 1]) (simp add: whole_run_def)
  next
    case False
    from Suc.IH [of q ?s] m False obtain k where
      "whole_run P g (replicate k Sched) (InPass q, ?s) = (AtSleep, ?s\<lparr>nl_agent := b, nl_env := v\<rparr>)" by auto
    then show ?thesis using q False by (intro exI [of _ "Suc k"]) (simp add: whole_run_def)
  qed
qed simp

lemma sched_turn_steps:
  assumes "sched_loop_turn P g (nl_agent s) (nl_env s) = (e, b, v)"
  shows "\<exists>n. whole_run P g (replicate n Sched) (AtLook, s)
    = (if e then Gone else AtLook, s\<lparr>nl_agent := b, nl_env := v\<rparr>)"
proof (cases "sc_stop (sched (nl_agent s))")
  case True
  then show ?thesis using assms
    by (intro exI [of _ 2]) (auto simp: whole_run_def sched_loop_turn_def numeral_2_eq_2 split: prod.splits)
next
  case False
  obtain r c y where c: "sched_consume P g (nl_agent s) (nl_env s) = (r, c, y)" by (rule prod_cases3)
  let ?s = "s\<lparr>nl_agent := c, nl_env := y\<rparr>"
  obtain n where "mix P g (replicate n Turn) (Pop, nl_agent s, nl_env s) = (Over, c, y)"
    using consume_alone [OF c] by blast
  then obtain m where m: "whole_run P g (replicate m Sched) (InPass Pop, s) = (AtSleep, ?s)"
    using pass_in_thread by blast
  have "whole_run P g (replicate (Suc (m + 1)) Sched) (AtLook, s)
      = act_step P g Sched (whole_run P g (replicate m Sched) (InPass Pop, s))"
    using False by (simp add: whole_run_def replicate_append_same [symmetric])
  then show ?thesis using assms c False m
    by (intro exI [of _ "Suc (m + 1)"]) (auto simp: sched_loop_turn_def)
qed

end
