(* ===== verification/WholeProps.thy ===== *)
theory WholeProps
  imports WholeFacts Demo
begin

text \<open>
  The properties of an agent at work.
\<close>

text \<open>
  (C6) The accounts of a whole agent.  However the thread of the scheduler, the thread of the listener
  and the calls of the API interleave, whatever the kernel and the controller send and whichever
  allocations fail, the memory counters are what the queues, the registry and the task in the hands of
  the scheduler cost, as long as the scheduler is not told to stop.
\<close>

theorem whole_agent_accounts:
  assumes "whole_run P g xs (AtLook, s) = (u, r)" and "books k l (nl_agent s) (nl_env s)"
    and "\<not> sc_stop (sched (nl_agent s))" and "list_all running xs"
  shows "books (k + tasks_bytes (nl_env r) (holds u)) l (nl_agent r) (nl_env r)"
  using ac.run [OF _ assms(4,1), of k l] assms(2,3) by (simp add: accounts_def)

theorem whole_agent_accounts_witness:
  "books (tasks_bytes demo_env [hello_task]) 0 (nl_agent (snd (whole_run demo_proto demo_garbage [Sched, Sched]
      (AtLook, demo_loop\<lparr>nl_agent := demo_agent [hello_task], nl_env := demo_env\<lparr>task_mem := 80\<rparr>\<rparr>))))
    (nl_env (snd (whole_run demo_proto demo_garbage [Sched, Sched]
      (AtLook, demo_loop\<lparr>nl_agent := demo_agent [hello_task], nl_env := demo_env\<lparr>task_mem := 80\<rparr>\<rparr>))))"
proof -
  let ?s = "demo_loop\<lparr>nl_agent := demo_agent [hello_task], nl_env := demo_env\<lparr>task_mem := 80\<rparr>\<rparr>"
  obtain u r where r: "whole_run demo_proto demo_garbage [Sched, Sched] (AtLook, ?s) = (u, r)" by fastforce
  have h: "holds u = [hello_task] \<and> sizeof_emtask (nl_env r) = sizeof_emtask demo_env"
    using r by (auto simp: whole_run_def)
  have "books 0 0 (nl_agent ?s) (nl_env ?s)"
    by (simp add: books_def tasks_bytes_def task_price_def block_cost_def hello_task_def trig_ctx_init_def demo_env_def)
  from whole_agent_accounts [OF r this] h tasks_bytes_cong [of "nl_env r" demo_env "[hello_task]"]
  show ?thesis unfolding r by (simp add: running_def)
qed

text \<open>
  (C7) A whole agent records no fault.  If no header announces more than the buffer holds, the log is
  open, the table of callbacks is set and the listener starts at its top, then no interleaving of the
  two threads and the calls adds a fault to the trace: no write past the buffer, no message to a closed
  log, no call through a missing table of callbacks.
  Triggers have no addresses here; reads of triggers that were freed are not among these faults
  (theory \<open>BorrowProps\<close> has them, with interleavings where they do happen).
\<close>

theorem whole_agent_in_bounds:
  assumes "whole_run P g xs (AtLook, s) = (u, r)" and "fits P"
    and "log_fd (nl_env s) \<noteq> None" and "ops (nl_agent s) \<noteq> None" and "nl_phase s = AtTop"
  shows "faults_of (trace (nl_env r)) = faults_of (trace (nl_env s))"
proof -
  have "in_bounds P (faults_of (trace (nl_env s))) u r"
    by (rule bo.run [OF _ _ assms(1)])
      (use assms(2-5) in \<open>auto simp: in_bounds_def in_buffer_def list_all_iff\<close>)
  then show ?thesis by (simp add: in_bounds_def)
qed

theorem whole_agent_in_bounds_witness:
  "faults_of (trace (nl_env (snd (whole_run demo_proto demo_garbage [Sched, Listen demo_sysin, Sched, Listen demo_sysin]
    (AtLook, demo_loop))))) = []"
proof -
  let ?xs = "[Sched, Listen demo_sysin, Sched, Listen demo_sysin]"
  obtain u r where r: "whole_run demo_proto demo_garbage ?xs (AtLook, demo_loop) = (u, r)" by fastforce
  have "epp_msg_length demo_proto h \<le> int EM_BUF_SIZE" for h
  proof -
    have "uint (h ! 1) < 2 ^ LENGTH(8)" by (rule uint_bounded)
    then show ?thesis by (simp add: EM_BUF_SIZE_def)
  qed
  then have "fits demo_proto" by (simp add: fits_def EM_BUF_SIZE_def)
  from whole_agent_in_bounds [OF r this] show ?thesis unfolding r by (simp add: demo_loop_def)
qed

text \<open>
  (C8) A whole agent stops.  Once both flags are set, nothing that the kernel, the controller or callers do
  keeps the threads: after nine steps of the scheduler and four for each queued task, and four steps of
  the listener, in any order, both are gone and the queues are empty.
\<close>

theorem whole_agent_stops:
  assumes "whole_run P g xs (t, s) = (u, r)" and "stopping t s" and "list_all ending xs" and "0 < EP_HEADER_SIZE P"
    and "4 * length (sc_jobs (sched (nl_agent s))) + 9 \<le> scheds xs" and "4 \<le> listens xs"
  shows "u = Gone \<and> nl_phase r = AtEnd
    \<and> sc_jobs (sched (nl_agent r)) = [] \<and> sc_todo (sched (nl_agent r)) = []"
proof -
  have e: "stopping u r" "sched_left u (nl_agent r) \<le> sched_left t (nl_agent s) - scheds xs"
    "to_end P r \<le> to_end P s - listens xs" using whole_end [OF assms(1-4)] by simp_all
  have "to_end P s \<le> 4" by (simp add: to_end_def split: net_phase.split)
  then have "to_end P r = 0" using e(3) assms(6) by simp
  then have p: "nl_phase r = AtEnd" by (simp add: to_end_def split: net_phase.splits if_splits)
  have "sched_left u (nl_agent r) = 0" using e(2) sched_left_bound [of t "nl_agent s"] assms(5) by simp
  then have "u = Gone" by (cases u) simp_all
  then show ?thesis using e(1) p by (simp add: stopping_def)
qed

theorem whole_agent_stops_witness:
  "fst (whole_run demo_proto demo_garbage (replicate 13 Sched @ [Api (DropId 1)] @ replicate 4 (Listen demo_sysin))
    (AtLook, snd (whole_run demo_proto demo_garbage [StopSched, StopNet] (AtLook, demo_loop\<lparr>nl_agent := demo_agent [hello_task]\<rparr>)))) = Gone"
proof -
  let ?s = "snd (whole_run demo_proto demo_garbage [StopSched, StopNet] (AtLook, demo_loop\<lparr>nl_agent := demo_agent [hello_task]\<rparr>))"
  let ?xs = "replicate 13 Sched @ [Api (DropId 1)] @ replicate 4 (Listen demo_sysin)"
  obtain u r where r: "whole_run demo_proto demo_garbage ?xs (AtLook, ?s) = (u, r)" by fastforce
  have "stopping AtLook ?s" by (simp add: whole_run_def stopping_def)
  moreover have "list_all ending ?xs" by (simp add: ending_def plain_move_def move_ok_def list_all_iff)
  moreover have "sc_jobs (sched (nl_agent ?s)) = [hello_task]" by (simp add: whole_run_def)
  ultimately have "u = Gone" using whole_agent_stops [OF r] by (simp add: scheds_def listens_def)
  then show ?thesis unfolding r by simp
qed

text \<open>
  A turn of the scheduler thread.  The steps of the thread alone, from one look at the flag to the
  next, or to its end, are the turn of the sequential model.
\<close>

theorem sched_turn_alone:
  assumes "sched_loop_turn P g (nl_agent s) (nl_env s) = (e, b, v)"
  shows "\<exists>n. whole_run P g (replicate n Sched) (AtLook, s)
    = (if e then Gone else AtLook, s\<lparr>nl_agent := b, nl_env := v\<rparr>)"
  using sched_turn_steps [OF assms] .

theorem sched_turn_alone_witness:
  "\<exists>n. whole_run demo_proto demo_garbage (replicate n Sched) (AtLook, demo_loop)
    = (AtLook, demo_loop\<lparr>nl_agent := fst (snd (sched_loop_turn demo_proto demo_garbage (nl_agent demo_loop) (nl_env demo_loop))),
        nl_env := snd (snd (sched_loop_turn demo_proto demo_garbage (nl_agent demo_loop) (nl_env demo_loop)))\<rparr>)"
proof -
  obtain e b v where t: "sched_loop_turn demo_proto demo_garbage (nl_agent demo_loop) (nl_env demo_loop) = (e, b, v)"
    by (rule prod_cases3)
  have "\<not> e" using t by (auto simp: sched_loop_turn_def demo_loop_def split: prod.splits)
  with sched_turn_alone [OF t] show ?thesis unfolding t by simp
qed

end
