(* ===== verification/Pointers.thy ===== *)
theory Pointers
  imports Emloops "HOL-Library.Monad_Syntax"
begin

text \<open>
  The lists of the agent where they are: objects in allocated memory that carry the node of
  \<open>emlist.h\<close> as their first member, so that an object and its node have one address, and heads that
  are members of a context.  Every read and write names what it touches, and \<open>None\<close> is an access to
  memory that is not allocated (or a loop that does not end).  The abstraction \<open>family\<close> says which
  lists of which objects the memory holds; each routine and loop is related to it once, here, for
  the registry of triggers and the queues of the scheduler.
\<close>

section \<open>Memory\<close>

record 'v memory =
  nodes :: heap
  objs :: "addr \<Rightarrow> 'v option"

text \<open>\<open>H\<close> are the addresses of the heads, which live as long as their context.\<close>

definition live :: "addr set \<Rightarrow> 'v memory \<Rightarrow> addr \<Rightarrow> bool" where
  "live H s p \<longleftrightarrow> p \<in> H \<or> objs s p \<noteq> None"

definition read_next :: "addr set \<Rightarrow> 'v memory \<Rightarrow> addr \<Rightarrow> addr option" where
  "read_next H s p = (if live H s p then Some (fwd (nodes s) p) else None)"

definition write_obj :: "'v memory \<Rightarrow> addr \<Rightarrow> 'v \<Rightarrow> 'v memory option" where
  "write_obj s p v = (if objs s p = None then None else Some (s\<lparr>objs := (objs s)(p \<mapsto> v)\<rparr>))"

text \<open>\<open>malloc\<close> at a given address with \<open>INIT_LIST_HEAD\<close> on the node, and \<open>free\<close>.\<close>

definition create :: "'v memory \<Rightarrow> addr \<Rightarrow> 'v \<Rightarrow> 'v memory" where
  "create s p v = s\<lparr>nodes := INIT_LIST_HEAD (nodes s) p, objs := (objs s)(p \<mapsto> v)\<rparr>"

definition release :: "'v memory \<Rightarrow> addr \<Rightarrow> 'v memory option" where
  "release s p = (if objs s p = None then None else Some (s\<lparr>objs := (objs s)(p := None)\<rparr>))"

text \<open>\<open>list_del\<close>, \<open>list_add\<close> and \<open>list_add_tail\<close> with the nodes they touch.\<close>

definition unlink_at :: "addr set \<Rightarrow> 'v memory \<Rightarrow> addr \<Rightarrow> 'v memory option" where
  "unlink_at H s p =
     (if live H s p \<and> live H s (lprev (nodes s p)) \<and> live H s (lnext (nodes s p))
      then Some (s\<lparr>nodes := list_del (nodes s) p\<rparr>) else None)"

definition link_front :: "addr set \<Rightarrow> 'v memory \<Rightarrow> addr \<Rightarrow> addr \<Rightarrow> 'v memory option" where
  "link_front H s p head =
     (if live H s p \<and> live H s head \<and> live H s (lnext (nodes s head))
      then Some (s\<lparr>nodes := list_add (nodes s) p head\<rparr>) else None)"

definition link_back :: "addr set \<Rightarrow> 'v memory \<Rightarrow> addr \<Rightarrow> addr \<Rightarrow> 'v memory option" where
  "link_back H s p head =
     (if live H s p \<and> live H s head \<and> live H s (lprev (nodes s head))
      then Some (s\<lparr>nodes := list_add_tail (nodes s) p head\<rparr>) else None)"

text \<open>
  \<open>list_for_each_entry\<close> whose body looks at the object, and \<open>list_for_each_entry_safe\<close> whose body may
  change the memory and leave the loop (\<open>True\<close>); \<open>'w\<close> is whatever else the body changes.
\<close>

partial_function (option) seek_from ::
    "addr set \<Rightarrow> 'v memory \<Rightarrow> ('v \<Rightarrow> bool) \<Rightarrow> addr \<Rightarrow> addr \<Rightarrow> addr option option" where
  "seek_from H s P head pos =
     (if pos = head then Some None
      else do {
        v \<leftarrow> objs s pos;
        if P v then Some (Some pos)
        else do {
          pos \<leftarrow> read_next H s pos;
          seek_from H s P head pos } })"

definition seek_entry :: "addr set \<Rightarrow> 'v memory \<Rightarrow> ('v \<Rightarrow> bool) \<Rightarrow> addr \<Rightarrow> addr option option" where
  "seek_entry H s P head = do { pos \<leftarrow> read_next H s head; seek_from H s P head pos }"

type_synonym ('v, 'w) loop_body = "addr \<Rightarrow> 'v memory \<Rightarrow> 'w \<Rightarrow> (bool \<times> 'v memory \<times> 'w) option"

partial_function (option) each_from ::
    "addr set \<Rightarrow> ('v, 'w) loop_body \<Rightarrow> addr \<Rightarrow> addr \<Rightarrow> addr \<Rightarrow> 'v memory \<Rightarrow> 'w
      \<Rightarrow> (bool \<times> 'v memory \<times> 'w) option" where
  "each_from H body head pos n s w =
     (if pos = head then Some (False, s, w)
      else do {
        (stop, s, w) \<leftarrow> body pos s w;
        if stop then Some (True, s, w)
        else do {
          m \<leftarrow> read_next H s n;
          each_from H body head n m s w } })"

definition each_safe ::
    "addr set \<Rightarrow> ('v, 'w) loop_body \<Rightarrow> addr \<Rightarrow> 'v memory \<Rightarrow> 'w \<Rightarrow> (bool \<times> 'v memory \<times> 'w) option" where
  "each_safe H body head s w =
     do {
       pos \<leftarrow> read_next H s head;
       n \<leftarrow> read_next H s pos;
       each_from H body head pos n s w }"

text \<open>
  Freeing an object, with what that does to the rest of the process (\<open>fr\<close>), and the body of the loops
  that free a whole list.
\<close>

definition free_at :: "('v \<Rightarrow> 'w \<Rightarrow> 'w) \<Rightarrow> addr \<Rightarrow> 'v memory \<Rightarrow> 'w \<Rightarrow> ('v memory \<times> 'w) option" where
  "free_at fr p s w = do { v \<leftarrow> objs s p; s \<leftarrow> release s p; Some (s, fr v w) }"

definition drain_body :: "addr set \<Rightarrow> ('v \<Rightarrow> 'w \<Rightarrow> 'w) \<Rightarrow> ('v, 'w) loop_body" where
  "drain_body H fr p s w =
     do { s \<leftarrow> unlink_at H s p; (s, w) \<leftarrow> free_at fr p s w; Some (False, s, w) }"

section \<open>What the memory holds\<close>

text \<open>
  \<open>F\<close> gives for each head in use the entries of its list, with their addresses.  Objects outside
  all lists (in the hands of a thread) are not mentioned.
\<close>

type_synonym 'v entries = "(addr \<times> 'v) list"

definition family :: "addr set \<Rightarrow> 'v memory \<Rightarrow> (addr \<Rightarrow> 'v entries option) \<Rightarrow> bool" where
  "family H s F \<longleftrightarrow> dom F \<subseteq> H \<and> (\<forall>p \<in> H. objs s p = None)
     \<and> (\<forall>r xs. F r = Some xs \<longrightarrow> dlist (nodes s) r (map fst xs) \<and> (\<forall>(p, v) \<in> set xs. objs s p = Some v))
     \<and> (\<forall>r q xs ys. F r = Some xs \<longrightarrow> F q = Some ys \<longrightarrow> r \<noteq> q \<longrightarrow>
           apart r (map fst xs) q (map fst ys))"

text \<open>The addresses on a list, and an address on none.\<close>

definition addrs :: "'v entries \<Rightarrow> addr set" where
  "addrs xs = set (map fst xs)"

definition loose :: "(addr \<Rightarrow> 'v entries option) \<Rightarrow> addr \<Rightarrow> bool" where
  "loose F p \<longleftrightarrow> (\<forall>r xs. F r = Some xs \<longrightarrow> p \<notin> addrs xs)"

lemma in_addrs: "(p, v) \<in> set xs \<Longrightarrow> p \<in> addrs xs"
  by (force simp: addrs_def)

lemma addrs_in: "p \<in> addrs xs \<Longrightarrow> \<exists>v. (p, v) \<in> set xs"
  by (auto simp: addrs_def)

lemma addrs_simps [simp]:
  "addrs [] = {}" "addrs (e # xs) = insert (fst e) (addrs xs)" "addrs (xs @ ys) = addrs xs \<union> addrs ys"
  "fst ` set xs = addrs xs"
  by (simp_all add: addrs_def)

lemma familyD:
  assumes "family H s F" and "F r = Some xs"
  shows "r \<in> H" and "dlist (nodes s) r (map fst xs)" and "(p, v) \<in> set xs \<Longrightarrow> objs s p = Some v"
    and "distinct (r # map fst xs)" and "q \<in> H \<Longrightarrow> objs s q = None"
    and "F q = Some ys \<Longrightarrow> r \<noteq> q \<Longrightarrow> apart r (map fst xs) q (map fst ys)"
  using assms unfolding family_def dlist_def by (blast, blast, fastforce, blast, blast, blast)

lemma family_live:
  assumes "family H s F" and "F r = Some xs" and "p \<in> set (r # map fst xs)"
  shows "live H s p"
  using assms(3) familyD(1,3) [OF assms(1,2)] by (auto simp: live_def dest!: addrs_in)

lemma looseI: "(\<And>r xs. F r = Some xs \<Longrightarrow> p \<notin> addrs xs) \<Longrightarrow> loose F p"
  unfolding loose_def by blast

lemma looseD: "loose F p \<Longrightarrow> F r = Some xs \<Longrightarrow> p \<notin> addrs xs"
  unfolding loose_def by blast

lemma loose_upd: "loose F p \<Longrightarrow> p \<notin> addrs xs \<Longrightarrow> loose (F(r \<mapsto> xs)) p"
  by (rule looseI) (auto dest: looseD split: if_splits)

lemma not_live_loose:
  assumes "family H s F" and "\<not> live H s p"
  shows "loose F p"
proof (rule looseI)
  fix r xs assume "F r = Some xs"
  then show "p \<notin> addrs xs" using family_live [OF assms(1)] assms(2) by fastforce
qed

text \<open>One list is replaced by another made of its own entries and loose objects.\<close>

lemma family_relink:
  assumes f: "family H s F" and r: "F r = Some xs"
    and d: "dlist h r (map fst ys)"
    and v: "\<And>p v. (p, v) \<in> set ys \<Longrightarrow> objs s p = Some v \<and> (p \<in> addrs xs \<or> loose F p)"
    and o: "\<And>q zs. F q = Some zs \<Longrightarrow> q \<noteq> r \<Longrightarrow> dlist h q (map fst zs)"
  shows "family H (s\<lparr>nodes := h\<rparr>) (F(r \<mapsto> ys))"
proof -
  have ap: "apart r (map fst ys) q (map fst zs)" if "F q = Some zs" "q \<noteq> r" for q zs
  proof -
    have a: "apart r (map fst xs) q (map fst zs)" using familyD(6) [OF f r] that by blast
    have q: "objs s q = None" using familyD(5) [OF f r] familyD(1) [OF f that(1)] by blast
    have "p \<notin> insert q (addrs zs)" if "p \<in> addrs ys" for p
    proof -
      from that obtain u where "(p, u) \<in> set ys" by (auto dest: addrs_in)
      then have u: "objs s p = Some u" "p \<in> addrs xs \<or> loose F p" using v by blast+
      then show ?thesis using a q \<open>F q = Some zs\<close> by (auto simp: apart_def loose_def)
    qed
    then show ?thesis using a by (auto simp: apart_def)
  qed
  show ?thesis
    unfolding family_def
  proof (intro conjI allI impI)
    show "dom (F(r \<mapsto> ys)) \<subseteq> H" using f r by (auto simp: family_def)
    show "\<forall>p \<in> H. objs (s\<lparr>nodes := h\<rparr>) p = None" using f by (auto simp: family_def)
    fix q zs assume q: "(F(r \<mapsto> ys)) q = Some zs"
    show "dlist (nodes (s\<lparr>nodes := h\<rparr>)) q (map fst zs)" using q d o by (auto split: if_splits)
    show "\<forall>(p, v) \<in> set zs. objs (s\<lparr>nodes := h\<rparr>) p = Some v"
      using q v familyD(3) [OF f] by (fastforce split: if_splits)
    fix q' zs' assume "(F(r \<mapsto> ys)) q' = Some zs'" and "q \<noteq> q'"
    then show "apart q (map fst zs) q' (map fst zs')"
      using q ap familyD(6) [OF f] by (auto split: if_splits simp: apart_sym [of _ _ r])
  qed
qed

lemma family_unlink:
  assumes f: "family H s F" and r: "F r = Some (xs @ (p, v) # ys)"
  shows "\<exists>s'. unlink_at H s p = Some s' \<and> family H s' (F(r \<mapsto> xs @ ys)) \<and> objs s' = objs s"
proof -
  have d: "dlist (nodes s) r (map fst xs @ p # map fst ys)" using familyD(2) [OF f r] by simp
  have "last (r # map fst xs) \<in> set (r # map fst xs)" by (rule last_in_set) simp
  then have 1: "lprev (nodes s p) \<in> set (r # map fst (xs @ (p, v) # ys))"
    unfolding dlist_neighbours [OF d] by auto
  have "hd (map fst ys @ [r]) \<in> set (map fst ys @ [r])" by (rule hd_in_set) simp
  then have 2: "lnext (nodes s p) \<in> set (r # map fst (xs @ (p, v) # ys))"
    unfolding dlist_neighbours [OF d] by auto
  have l: "live H s p" "live H s (lprev (nodes s p))" "live H s (lnext (nodes s p))"
    using family_live [OF f r] 1 2 by simp_all
  have "family H (s\<lparr>nodes := list_del (nodes s) p\<rparr>) (F(r \<mapsto> xs @ ys))"
  proof (rule family_relink [OF f r])
    show "dlist (list_del (nodes s) p) r (map fst (xs @ ys))" using dlist_list_del [OF d] by simp
    show "objs s a = Some u \<and> (a \<in> addrs (xs @ (p, v) # ys) \<or> loose F a)"
      if "(a, u) \<in> set (xs @ ys)" for a u
      using that familyD(3) [OF f r, of a u] by (force dest: in_addrs)
    show "dlist (list_del (nodes s) p) q (map fst zs)" if "F q = Some zs" "q \<noteq> r" for q zs
      using dlist_list_del_other [OF d] familyD(2) [OF f that(1)] familyD(6) [OF f r that(1)] that(2)
      by simp
  qed
  with l show ?thesis by (auto simp: unlink_at_def)
qed

lemma family_link_front:
  assumes f: "family H s F" and r: "F r = Some xs" and p: "objs s p = Some v" "loose F p"
  shows "\<exists>s'. link_front H s p r = Some s' \<and> family H s' (F(r \<mapsto> (p, v) # xs)) \<and> objs s' = objs s"
proof -
  note d = familyD(2) [OF f r]
  have new: "p \<notin> set (r # map fst xs)"
    using p familyD(5) [OF f r familyD(1) [OF f r]] r by (auto simp: loose_def)
  have "live H s (lnext (nodes s r))" using dlist_first_in [OF d] by (auto intro!: family_live [OF f r])
  then have l: "live H s p" "live H s r" "live H s (lnext (nodes s r))"
    using p familyD(1) [OF f r] by (auto simp: live_def)
  have "family H (s\<lparr>nodes := list_add (nodes s) p r\<rparr>) (F(r \<mapsto> (p, v) # xs))"
  proof (rule family_relink [OF f r])
    show "dlist (list_add (nodes s) p r) r (map fst ((p, v) # xs))" using dlist_list_add [OF d new] by simp
    show "objs s a = Some u \<and> (a \<in> addrs xs \<or> loose F a)" if "(a, u) \<in> set ((p, v) # xs)" for a u
      using that p familyD(3) [OF f r, of a u] by (force dest: in_addrs)
    show "dlist (list_add (nodes s) p r) q (map fst zs)" if q: "F q = Some zs" "q \<noteq> r" for q zs
    proof (rule dlist_list_add_other [OF d familyD(2) [OF f q(1)]])
      have "objs s q = None" using familyD(5) [OF f r] familyD(1) [OF f q(1)] by blast
      then show "apart r (p # map fst xs) q (map fst zs)"
        using p q familyD(6) [OF f r q(1)] by (auto simp: apart_def loose_def)
    qed
  qed
  with l show ?thesis by (auto simp: link_front_def)
qed

lemma family_link_back:
  assumes f: "family H s F" and r: "F r = Some xs" and p: "objs s p = Some v" "loose F p"
  shows "\<exists>s'. link_back H s p r = Some s' \<and> family H s' (F(r \<mapsto> xs @ [(p, v)])) \<and> objs s' = objs s"
proof -
  note d = familyD(2) [OF f r]
  have new: "p \<notin> set (r # map fst xs)"
    using p familyD(5) [OF f r familyD(1) [OF f r]] r by (auto simp: loose_def)
  have "live H s (lprev (nodes s r))" using dlist_last_in [OF d] by (auto intro!: family_live [OF f r])
  then have l: "live H s p" "live H s r" "live H s (lprev (nodes s r))"
    using p familyD(1) [OF f r] by (auto simp: live_def)
  have "family H (s\<lparr>nodes := list_add_tail (nodes s) p r\<rparr>) (F(r \<mapsto> xs @ [(p, v)]))"
  proof (rule family_relink [OF f r])
    show "dlist (list_add_tail (nodes s) p r) r (map fst (xs @ [(p, v)]))"
      using dlist_list_add_tail [OF d new] by simp
    show "objs s a = Some u \<and> (a \<in> addrs xs \<or> loose F a)" if "(a, u) \<in> set (xs @ [(p, v)])" for a u
      using that p familyD(3) [OF f r, of a u] by (force dest: in_addrs)
    show "dlist (list_add_tail (nodes s) p r) q (map fst zs)" if q: "F q = Some zs" "q \<noteq> r" for q zs
    proof (rule list_add_tail_other [OF d familyD(2) [OF f q(1)]])
      have "objs s q = None" using familyD(5) [OF f r] familyD(1) [OF f q(1)] by blast
      then show "apart r (p # map fst xs) q (map fst zs)"
        using p q familyD(6) [OF f r q(1)] by (auto simp: apart_def loose_def)
    qed
  qed
  with l show ?thesis by (auto simp: link_back_def)
qed

text \<open>Allocating, changing and freeing what is on no list.\<close>

lemma family_objs:
  assumes "family H s F" and "loose F p" and "p \<notin> H" and "\<And>q. q \<noteq> p \<Longrightarrow> h q = objs s q"
  shows "family H (s\<lparr>objs := h\<rparr>) F"
proof -
  have v: "h q = Some v" if "(q, v) \<in> set xs" "F r = Some xs" for q v xs r
    using assms(4) [of q] looseD [OF assms(2) that(2)] in_addrs [OF that(1)]
      familyD(3) [OF assms(1) that(2,1)] by auto
  moreover have "h q = None" if "q \<in> H" for q
    using assms(1,3) assms(4) [of q] that by (auto simp: family_def)
  ultimately show ?thesis using assms(1) unfolding family_def by (auto intro: v)
qed

lemma family_write:
  assumes f: "family H s F" and "objs s p = Some u" and "loose F p"
  shows "\<exists>s'. write_obj s p v = Some s' \<and> family H s' F \<and> objs s' = (objs s)(p \<mapsto> v)"
proof -
  have "p \<notin> H" using f assms(2) by (auto simp: family_def)
  then have "family H (s\<lparr>objs := (objs s)(p \<mapsto> v)\<rparr>) F" by (intro family_objs [OF f assms(3)]) auto
  with assms(2) show ?thesis by (simp add: write_obj_def)
qed

lemma family_release:
  assumes f: "family H s F" and "objs s p = Some u" and "loose F p"
  shows "\<exists>s'. release s p = Some s' \<and> family H s' F \<and> objs s' = (objs s)(p := None)"
proof -
  have "p \<notin> H" using f assms(2) by (auto simp: family_def)
  then have "family H (s\<lparr>objs := (objs s)(p := None)\<rparr>) F" by (intro family_objs [OF f assms(3)]) auto
  with assms(2) show ?thesis by (simp add: release_def)
qed

lemma family_create:
  assumes f: "family H s F" and new: "\<not> live H s p"
  shows "family H (create s p v) F" and "loose F p" and "objs (create s p v) p = Some v"
proof -
  show l: "loose F p" using not_live_loose [OF f new] .
  have "p \<notin> H" using new by (simp add: live_def)
  then have f': "family H (s\<lparr>objs := (objs s)(p \<mapsto> v)\<rparr>) F" by (intro family_objs [OF f l]) auto
  have "dlist (INIT_LIST_HEAD (nodes s) p) r (map fst xs)" if "F r = Some xs" for r xs
    using familyD(1,2) [OF f that] looseD [OF l that] \<open>p \<notin> H\<close> by (intro dlist_INIT_other) auto
  with f' show "family H (create s p v) F" by (simp add: family_def create_def)
  show "objs (create s p v) p = Some v" by (simp add: create_def)
qed

text \<open>Off the list, an object is loose.\<close>

lemma loose_unlinked:
  assumes f: "family H s F" and r: "F r = Some (xs @ (p, v) # ys)"
  shows "loose (F(r \<mapsto> xs @ ys)) p" and "objs s p = Some v"
proof (rule looseI)
  fix q zs assume q: "(F(r \<mapsto> xs @ ys)) q = Some zs"
  show "p \<notin> addrs zs"
  proof (cases "q = r")
    case True
    then show ?thesis using q familyD(4) [OF f r] by auto
  next
    case False
    then show ?thesis using q familyD(6) [OF f r, of q zs] by (auto simp: apart_def)
  qed
qed (use familyD(3) [OF f r] in auto)

text \<open>No object is lost: whatever is allocated is on a list, or among the given addresses in hands.\<close>

definition linked_but :: "addr set \<Rightarrow> 'v memory \<Rightarrow> (addr \<Rightarrow> 'v entries option) \<Rightarrow> bool" where
  "linked_but A s F \<longleftrightarrow> (\<forall>p. objs s p \<noteq> None \<longrightarrow> loose F p \<longrightarrow> p \<in> A)"

lemma loose_relinked:
  assumes "loose (F(r \<mapsto> ys)) p" and "F r = Some xs" and "addrs xs - A \<subseteq> addrs ys" and "p \<notin> A"
  shows "loose F p"
proof (rule looseI)
  fix q zs assume q: "F q = Some zs"
  show "p \<notin> addrs zs"
    using looseD [OF assms(1), of q zs] looseD [OF assms(1), of r ys] assms(2-4) q
    by (cases "q = r") auto
qed

text \<open>After a step: what is allocated now was allocated before or is in hands.\<close>

lemma linked_but_relink:
  assumes "linked_but A s F" and "F r = Some xs" and "addrs xs - B \<subseteq> addrs ys"
    and "\<And>p. objs s' p \<noteq> None \<Longrightarrow> p \<notin> B \<Longrightarrow>
      p \<in> addrs ys \<or> p \<in> C \<or> objs s p \<noteq> None \<and> p \<notin> A"
    and "\<And>p. p \<in> B \<Longrightarrow> objs s' p \<noteq> None \<Longrightarrow> p \<in> C \<or> p \<in> addrs ys"
  shows "linked_but C s' (F(r \<mapsto> ys))"
  unfolding linked_but_def
proof (intro allI impI)
  fix p assume p: "objs s' p \<noteq> None" "loose (F(r \<mapsto> ys)) p"
  have ys: "p \<notin> addrs ys" using looseD [OF p(2), of r ys] by simp
  show "p \<in> C"
  proof (cases "p \<in> B")
    case False
    have "loose F p" using loose_relinked [OF p(2) assms(2,3) False] .
    then show ?thesis using assms(1) assms(4) [OF p(1) False] ys by (auto simp: linked_but_def)
  qed (use assms(5) p(1) ys in blast)
qed

section \<open>Reading a list\<close>

lemma family_next:
  assumes f: "family H s F" and r: "F r = Some (xs @ e # ys)"
  shows "read_next H s (fst e) = Some (hd (map fst ys @ [r]))" and "fst e \<noteq> r"
proof -
  have "dlist (nodes s) r (map fst xs @ fst e # map fst ys)" using familyD(2) [OF f r] by simp
  then have "fwd (nodes s) (fst e) = hd (map fst ys @ [r])" by (rule em.rep_nxt)
  moreover have "live H s (fst e)" by (rule family_live [OF f r]) simp
  ultimately show "read_next H s (fst e) = Some (hd (map fst ys @ [r]))" by (simp add: read_next_def)
  show "fst e \<noteq> r" using familyD(4) [OF f r] by auto
qed

lemma family_first:
  assumes f: "family H s F" and r: "F r = Some xs"
  shows "read_next H s r = Some (hd (map fst xs @ [r]))"
  using em.rep_first [OF familyD(2) [OF f r]] familyD(1) [OF f r] by (simp add: read_next_def live_def)

lemma seek_from_suffix:
  assumes f: "family H s F" and r: "F r = Some (xs @ ys)"
  shows "seek_from H s P r (hd (map fst ys @ [r])) = Some (map_option fst (List.find (P \<circ> snd) ys))"
  using r
proof (induction ys arbitrary: xs)
  case Nil
  show ?case by (subst seek_from.simps) simp
next
  case (Cons e ys)
  have v: "objs s (fst e) = Some (snd e)" using familyD(3) [OF f Cons.prems, of "fst e" "snd e"] by simp
  note n = family_next [OF f Cons.prems]
  have "seek_from H s P r (hd (map fst ys @ [r])) = Some (map_option fst (List.find (P \<circ> snd) ys))"
    using Cons.prems by (intro Cons.IH [of "xs @ [e]"]) simp
  with v n show ?case by (subst seek_from.simps) simp
qed

lemma seek_entry:
  assumes "family H s F" and "F r = Some xs"
  shows "seek_entry H s P r = Some (map_option fst (List.find (P \<circ> snd) xs))"
  using seek_from_suffix [OF assms(1), of r "[]" xs P] assms(2)
  by (simp add: seek_entry_def family_first [OF assms])

text \<open>A search misses, or splits the list at the first hit.\<close>

lemma seek_cases:
  assumes f: "family H s F" and r: "F r = Some xs"
  obtains (miss) "seek_entry H s P r = Some None" "List.find P (map snd xs) = None"
      "\<forall>(p, v) \<in> set xs. \<not> P v"
  | (hit) us p v vs where "xs = us @ (p, v) # vs" "seek_entry H s P r = Some (Some p)"
      "List.find P (map snd xs) = Some v" "\<forall>u \<in> set (map snd us). \<not> P u" "P v" "objs s p = Some v"
proof (cases "List.find (P \<circ> snd) xs")
  case None
  then show ?thesis using seek_entry [OF f r, of P]
    by (intro miss) (auto simp: find_None_iff_ball)
next
  case (Some e)
  obtain p v where e: "e = (p, v)" by fastforce
  obtain us vs where x: "xs = us @ (p, v) # vs" "\<forall>u \<in> set us. \<not> P (snd u)" "P v"
    using find_split [OF Some] unfolding e comp_def by auto
  then have "List.find P (map snd xs) = Some v" by (induction us arbitrary: xs) auto
  then show ?thesis using x seek_entry [OF f r, of P] Some e familyD(3) [OF f r, of p v]
    by (intro hit) auto
qed

text \<open>Changing an object on a list.\<close>

lemma family_write_linked:
  assumes f: "family H s F" and r: "F r = Some (xs @ (p, v) # ys)" and l: "linked_but A s F"
  shows "\<exists>s'. write_obj s p u = Some s' \<and> family H s' (F(r \<mapsto> xs @ (p, u) # ys))
    \<and> linked_but A s' (F(r \<mapsto> xs @ (p, u) # ys))"
proof -
  have o: "objs s p = Some v" using loose_unlinked(2) [OF f r] .
  let ?s = "s\<lparr>objs := (objs s)(p \<mapsto> u)\<rparr>" and ?G = "F(r \<mapsto> xs @ (p, u) # ys)"
  have other: "q \<noteq> p" if "F a = Some zs" "a \<noteq> r" "(q, z) \<in> set zs" for a q z zs
    using familyD(6) [OF f r that(1)] that(2) in_addrs [OF that(3)] by (auto simp: apart_def)
  have same: "q \<noteq> p" if "(q, z) \<in> set xs \<union> set ys" for q z
    using familyD(4) [OF f r] that by (auto dest: in_addrs)
  have "family H ?s ?G"
    unfolding family_def
  proof (intro conjI allI impI)
    show "dom ?G \<subseteq> H" using f r by (auto simp: family_def)
    show "\<forall>q \<in> H. objs ?s q = None" using f o by (auto simp: family_def)
    fix a zs assume a: "?G a = Some zs"
    show "dlist (nodes ?s) a (map fst zs)"
      using a familyD(2) [OF f r] familyD(2) [OF f, of a zs] by (auto split: if_splits)
    show "\<forall>(q, z) \<in> set zs. objs ?s q = Some z"
    proof (safe)
      fix q z assume qz: "(q, z) \<in> set zs"
      show "objs ?s q = Some z"
      proof (cases "a = r")
        case True
        then show ?thesis using a qz same [of q z] familyD(3) [OF f r, of q z] by auto
      next
        case False
        then show ?thesis using a qz other [of a zs q z] familyD(3) [OF f, of a zs q z] by auto
      qed
    qed
    fix b zs' assume "?G b = Some zs'" and "a \<noteq> b"
    then show "apart a (map fst zs) b (map fst zs')"
      using a familyD(6) [OF f r, of b zs'] familyD(6) [OF f, of a zs b zs'] familyD(6) [OF f r, of a zs]
      by (auto split: if_splits simp: apart_sym [of a _ r])
  qed
  moreover have "linked_but A ?s ?G"
    by (rule linked_but_relink [OF l r, where B = "{}"])
      (use l loose_unlinked(2) [OF f r] in \<open>auto simp: linked_but_def split: if_splits\<close>)
  ultimately show ?thesis using o by (simp add: write_obj_def)
qed

section \<open>Loops that change the memory\<close>

text \<open>The loop that acts on the first hit and leaves.\<close>

lemma each_first_from:
  assumes f: "family H s F" and r: "F r = Some (xs @ ys)"
    and n: "read_next H s (hd (map fst ys @ [r])) = Some n"
    and skip: "\<And>p v. (p, v) \<in> set ys \<Longrightarrow> \<not> P v \<Longrightarrow> body p s w = Some (False, s, w)"
    and hit: "\<And>p v. (p, v) \<in> set ys \<Longrightarrow> P v \<Longrightarrow> \<exists>s' w'. body p s w = Some (True, s', w')"
  shows "each_from H body r (hd (map fst ys @ [r])) n s w =
    (case List.find (P \<circ> snd) ys of None \<Rightarrow> Some (False, s, w) | Some e \<Rightarrow> body (fst e) s w)"
  using r n skip hit
proof (induction ys arbitrary: xs n)
  case Nil
  show ?case by (subst each_from.simps) simp
next
  case (Cons e ys)
  note e = family_next [OF f Cons.prems(1)]
  have n: "n = hd (map fst ys @ [r])" using Cons.prems(2) e by simp
  show ?case
  proof (cases "P (snd e)")
    case True
    then obtain s' w' where b: "body (fst e) s w = Some (True, s', w')"
      using Cons.prems(4) [of "fst e" "snd e"] by auto
    with True e show ?thesis by (subst each_from.simps) simp
  next
    case False
    have b: "body (fst e) s w = Some (False, s, w)" using Cons.prems(3) [of "fst e" "snd e"] False by simp
    have "live H s (hd (map fst ys @ [r]))"
      by (rule family_live [OF f Cons.prems(1)]) (cases ys; simp)
    then obtain m where m: "read_next H s (hd (map fst ys @ [r])) = Some m" by (simp add: read_next_def)
    have "each_from H body r (hd (map fst ys @ [r])) m s w =
        (case List.find (P \<circ> snd) ys of None \<Rightarrow> Some (False, s, w) | Some e \<Rightarrow> body (fst e) s w)"
    proof (rule Cons.IH [of "xs @ [e]"])
      show "body p s w = Some (False, s, w)" if "(p, v) \<in> set ys" "\<not> P v" for p v
        using Cons.prems(3) [of p v] that by simp
      show "\<exists>s' w'. body p s w = Some (True, s', w')" if "(p, v) \<in> set ys" "P v" for p v
        using Cons.prems(4) [of p v] that by simp
    qed (simp_all add: Cons.prems m)
    with False b e n m show ?thesis by (subst each_from.simps) simp
  qed
qed

lemma each_first:
  assumes f: "family H s F" and r: "F r = Some xs"
    and skip: "\<And>p v. (p, v) \<in> set xs \<Longrightarrow> \<not> P v \<Longrightarrow> body p s w = Some (False, s, w)"
    and hit: "\<And>p v. (p, v) \<in> set xs \<Longrightarrow> P v \<Longrightarrow> \<exists>s' w'. body p s w = Some (True, s', w')"
  shows "each_safe H body r s w =
    (case List.find (P \<circ> snd) xs of None \<Rightarrow> Some (False, s, w) | Some e \<Rightarrow> body (fst e) s w)"
proof -
  have "live H s (hd (map fst xs @ [r]))" by (rule family_live [OF f r]) (cases xs; simp)
  then obtain n where n: "read_next H s (hd (map fst xs @ [r])) = Some n" by (simp add: read_next_def)
  have "F r = Some ([] @ xs)" using r by simp
  from each_first_from [where P = P and body = body and w = w, OF f this n] skip hit show ?thesis
    by (simp add: each_safe_def family_first [OF f r] n)
qed

text \<open>
  The loop that takes every entry off the list: \<open>R\<close> relates the memory to the entries that are left.
\<close>

lemma each_drain_from:
  assumes rep: "\<And>s w xs. R s w xs \<Longrightarrow> \<exists>F. family H s F \<and> F r = Some xs"
    and step: "\<And>s w p v xs. R s w ((p, v) # xs) \<Longrightarrow>
      \<exists>s' w'. body p s w = Some (False, s', w') \<and> R s' w' xs"
    and "R s w xs" and "read_next H s (hd (map fst xs @ [r])) = Some n"
  shows "\<exists>s' w'. each_from H body r (hd (map fst xs @ [r])) n s w = Some (False, s', w') \<and> R s' w' []"
  using assms(3,4)
proof (induction xs arbitrary: s w n)
  case Nil
  then show ?case by (subst each_from.simps) simp
next
  case (Cons e xs)
  obtain F where f: "family H s F" "F r = Some ([] @ e # xs)" using rep [OF Cons.prems(1)] by auto
  note e = family_next [OF f]
  obtain p v where pv: "e = (p, v)" by fastforce
  obtain s' w' where b: "body p s w = Some (False, s', w')" "R s' w' xs"
    using step Cons.prems(1) pv by blast
  obtain F' where f': "family H s' F'" "F' r = Some xs" using rep [OF b(2)] by blast
  have "live H s' (hd (map fst xs @ [r]))" by (rule family_live [OF f']) (cases xs; simp)
  then obtain m where m: "read_next H s' (hd (map fst xs @ [r])) = Some m" by (simp add: read_next_def)
  from Cons.IH [OF b(2) m] obtain s'' w'' where
    i: "each_from H body r (hd (map fst xs @ [r])) m s' w' = Some (False, s'', w'')" "R s'' w'' []" by blast
  have "n = hd (map fst xs @ [r])" using Cons.prems(2) e by simp
  then show ?case using b m i e pv by (subst each_from.simps) simp
qed

lemma each_drain:
  assumes rep: "\<And>s w xs. R s w xs \<Longrightarrow> \<exists>F. family H s F \<and> F r = Some xs"
    and step: "\<And>s w p v xs. R s w ((p, v) # xs) \<Longrightarrow>
      \<exists>s' w'. body p s w = Some (False, s', w') \<and> R s' w' xs"
    and R: "R s w xs"
  shows "\<exists>s' w'. each_safe H body r s w = Some (False, s', w') \<and> R s' w' []"
proof -
  obtain F where f: "family H s F" "F r = Some xs" using rep [OF R] by blast
  have "live H s (hd (map fst xs @ [r]))" by (rule family_live [OF f]) (cases xs; simp)
  then obtain n where n: "read_next H s (hd (map fst xs @ [r])) = Some n" by (simp add: read_next_def)
  from each_drain_from [where R = R and body = body, OF rep step R n] show ?thesis
    by (simp add: each_safe_def family_first [OF f] n)
qed

text \<open>Unlinking and freeing an entry, and all entries.\<close>

lemma unlink_free:
  assumes f: "family H s F" and r: "F r = Some (xs @ (p, v) # ys)" and l: "linked_but A s F"
  shows "\<exists>s1 s2. unlink_at H s p = Some s1 \<and> free_at fr p s1 w = Some (s2, fr v w)
    \<and> family H s2 (F(r \<mapsto> xs @ ys)) \<and> linked_but A s2 (F(r \<mapsto> xs @ ys))"
proof -
  obtain s1 where s1: "unlink_at H s p = Some s1" "family H s1 (F(r \<mapsto> xs @ ys))" "objs s1 = objs s"
    using family_unlink [OF f r] by blast
  have p: "objs s1 p = Some v" using s1(3) loose_unlinked(2) [OF f r] by simp
  obtain s2 where s2: "release s1 p = Some s2" "family H s2 (F(r \<mapsto> xs @ ys))" "objs s2 = (objs s)(p := None)"
    using family_release [OF s1(2) p loose_unlinked(1) [OF f r]] s1(3) by auto
  have "linked_but A s2 (F(r \<mapsto> xs @ ys))"
    by (rule linked_but_relink [OF l r, where B = "{p}"]) (auto simp: s2(3) split: if_splits)
  then show ?thesis using s1 s2 p by (auto simp: free_at_def)
qed

lemma drain_loop:
  assumes f: "family H s F" and r: "F r = Some xs" and l: "linked_but A s F"
  shows "\<exists>s'. each_safe H (drain_body H fr) r s w = Some (False, s', fold fr (map snd xs) w)
    \<and> family H s' (F(r \<mapsto> [])) \<and> linked_but A s' (F(r \<mapsto> []))"
proof -
  let ?R = "\<lambda>s' v ys. family H s' (F(r \<mapsto> ys)) \<and> linked_but A s' (F(r \<mapsto> ys))
    \<and> fold fr (map snd ys) v = fold fr (map snd xs) w"
  have "\<exists>s' w'. each_safe H (drain_body H fr) r s w = Some (False, s', w') \<and> ?R s' w' []"
  proof (rule each_drain [where R = ?R])
    show "?R s w xs" using f r l by (simp add: fun_upd_idem)
    show "\<exists>G. family H s' G \<and> G r = Some ys" if "?R s' v ys" for s' v ys using that by auto
    show "\<exists>s' w'. drain_body H fr p s1 v = Some (False, s', w') \<and> ?R s' w' ys"
      if "?R s1 v ((p, t) # ys)" for s1 v p t ys
      using unlink_free [of H s1 "F(r \<mapsto> (p, t) # ys)" r "[]" p t ys A fr v] that
      by (auto simp: drain_body_def)
  qed
  then show ?thesis by auto
qed

section \<open>Sequences of operations\<close>

text \<open>
  A list of operations on the memory, where any may fail, and on the abstract state.  \<open>ok\<close> is what the
  environment promises before an operation (\<open>malloc\<close> returns memory that is not in use).
\<close>

fun crun :: "('c \<Rightarrow> 'o \<Rightarrow> ('r \<times> 'c) option) \<Rightarrow> 'c \<Rightarrow> 'o list \<Rightarrow> ('r list \<times> 'c) option" where
  "crun step c [] = Some ([], c)"
| "crun step c (x # xs) =
     do { (r, c) \<leftarrow> step c x; (rs, c) \<leftarrow> crun step c xs; Some (r # rs, c) }"

fun arun :: "('a \<Rightarrow> 'o \<Rightarrow> 'r \<times> 'a) \<Rightarrow> 'a \<Rightarrow> 'o list \<Rightarrow> 'r list \<times> 'a" where
  "arun step a [] = ([], a)"
| "arun step a (x # xs) = (let (r, a) = step a x; (rs, a) = arun step a xs in (r # rs, a))"

fun allowed ::
    "('c \<Rightarrow> 'o \<Rightarrow> ('r \<times> 'c) option) \<Rightarrow> ('c \<Rightarrow> 'o \<Rightarrow> bool) \<Rightarrow> 'c \<Rightarrow> 'o list \<Rightarrow> bool" where
  "allowed step ok c [] \<longleftrightarrow> True"
| "allowed step ok c (x # xs) \<longleftrightarrow> ok c x
     \<and> (case step c x of None \<Rightarrow> True | Some (r, c) \<Rightarrow> allowed step ok c xs)"

locale simulation =
  fixes rel :: "'c \<Rightarrow> 'a \<Rightarrow> bool"
    and cstep :: "'c \<Rightarrow> 'o \<Rightarrow> ('r \<times> 'c) option"
    and astep :: "'a \<Rightarrow> 'o \<Rightarrow> 'r \<times> 'a"
    and ok :: "'c \<Rightarrow> 'o \<Rightarrow> bool"
  assumes sim: "rel c a \<Longrightarrow> ok c x \<Longrightarrow>
    \<exists>c'. cstep c x = Some (fst (astep a x), c') \<and> rel c' (snd (astep a x))"
begin

lemma run:
  assumes "rel c a" and "allowed cstep ok c xs"
  shows "\<exists>c'. crun cstep c xs = Some (fst (arun astep a xs), c') \<and> rel c' (snd (arun astep a xs))"
  using assms
proof (induction xs arbitrary: c a)
  case (Cons x xs)
  obtain c' where c': "cstep c x = Some (fst (astep a x), c')" "rel c' (snd (astep a x))"
    using sim [OF Cons.prems(1)] Cons.prems(2) by auto
  have "allowed cstep ok c' xs" using Cons.prems(2) c'(1) by simp
  from Cons.IH [OF c'(2) this] show ?case using c'(1) by (auto simp: split_beta Let_def)
qed simp

end

end
