(* ===== verification/PtrTriggers.thy ===== *)
theory PtrTriggers
  imports Triggers Pointers
begin

text \<open>
  \<open>src/agent/triggers.c\<close> on the memory of theory \<open>Pointers\<close>: the registry as the code has it, a head in
  the context and triggers linked to it, and the proof that it is the list of theory \<open>Triggers\<close>.  The
  address that \<open>malloc\<close> returns is an argument; addresses are used again after \<open>free\<close>.
\<close>

section \<open>Operations\<close>

record ptrctx =
  px_ts :: addr
  px_next :: trig_id_t

definition trig_alloc_at ::
    "addr \<Rightarrow> u32 \<Rightarrow> int \<Rightarrow> int \<Rightarrow> bytes option \<Rightarrow> u32 \<Rightarrow> emtri memory \<Rightarrow> env
      \<Rightarrow> addr option \<times> emtri memory \<times> env" where
  "trig_alloc_at p m ty inst msg sz s w =
     (let (t, w) = trig_alloc m ty inst msg sz w
      in case t of
           None \<Rightarrow> (None, s, w)
         | Some t \<Rightarrow> (Some p, create s p t, w))"

definition trig_free_at :: "addr \<Rightarrow> emtri memory \<Rightarrow> env \<Rightarrow> (emtri memory \<times> env) option" where
  "trig_free_at = free_at trig_free"

definition trig_add_at ::
    "addr set \<Rightarrow> ptrctx \<Rightarrow> addr \<Rightarrow> emtri memory \<Rightarrow> (i32 \<times> ptrctx \<times> emtri memory) option" where
  "trig_add_at H ctx p s =
     do { t \<leftarrow> objs s p;
          s \<leftarrow> write_obj s p (t\<lparr>tr_id := px_next ctx\<rparr>);
          let ctx = ctx\<lparr>px_next := px_next ctx + 1\<rparr>;
          s \<leftarrow> link_front H s p (px_ts ctx);
          t \<leftarrow> objs s p;
          Some (tr_id t, ctx, s) }"

text \<open>The body of the two loops that delete: unlink_at and free the first hit, and leave.\<close>

definition del_body :: "addr set \<Rightarrow> (emtri \<Rightarrow> bool) \<Rightarrow> (emtri, env) loop_body" where
  "del_body H P p s w =
     do { t \<leftarrow> objs s p;
          if P t
          then do { s \<leftarrow> unlink_at H s p;
                    (s, w) \<leftarrow> trig_free_at p s w;
                    Some (True, s, w) }
          else Some (False, s, w) }"

definition trig_del_by_id_at ::
    "addr set \<Rightarrow> ptrctx \<Rightarrow> i32 \<Rightarrow> emtri memory \<Rightarrow> env \<Rightarrow> (int \<times> emtri memory \<times> env) option" where
  "trig_del_by_id_at H ctx i s w =
     do { (hit, s, w) \<leftarrow> each_safe H (del_body H (\<lambda>t. tr_id t = i)) (px_ts ctx) s w;
          Some (if hit then 0 else - 1, s, w) }"

definition trig_del_by_inst_at ::
    "addr set \<Rightarrow> ptrctx \<Rightarrow> u32 \<Rightarrow> int \<Rightarrow> int \<Rightarrow> emtri memory \<Rightarrow> env
      \<Rightarrow> (int \<times> emtri memory \<times> env) option" where
  "trig_del_by_inst_at H ctx m ty inst s w =
     do { (hit, s, w) \<leftarrow> each_safe H (del_body H (inst_key m ty inst)) (px_ts ctx) s w;
          Some (if hit then 0 else - 1, s, w) }"

definition trig_find_by_id_at ::
    "addr set \<Rightarrow> ptrctx \<Rightarrow> i32 \<Rightarrow> emtri memory \<Rightarrow> addr option option" where
  "trig_find_by_id_at H ctx i s = seek_entry H s (\<lambda>t. tr_id t = i) (px_ts ctx)"

definition trig_find_by_inst_at ::
    "addr set \<Rightarrow> ptrctx \<Rightarrow> u32 \<Rightarrow> int \<Rightarrow> int \<Rightarrow> emtri memory \<Rightarrow> addr option option" where
  "trig_find_by_inst_at H ctx m ty inst s = seek_entry H s (inst_key m ty inst) (px_ts ctx)"

definition trig_flush_at ::
    "addr set \<Rightarrow> ptrctx \<Rightarrow> emtri memory \<Rightarrow> env \<Rightarrow> (emtri memory \<times> env) option" where
  "trig_flush_at H ctx s w =
     do { (hit, s, w) \<leftarrow> each_safe H (drain_body H trig_free) (px_ts ctx) s w;
          Some (s, w) }"

section \<open>What each operation does to the lists\<close>

lemma del_loop:
  assumes f: "family H s F" and r: "F r = Some xs" and l: "linked_but {} s F"
  shows "\<exists>s' ys. each_safe H (del_body H P) r s w =
      Some (List.find P (map snd xs) \<noteq> None, s',
        case List.find P (map snd xs) of None \<Rightarrow> w | Some t \<Rightarrow> trig_free t w)
    \<and> family H s' (F(r \<mapsto> ys)) \<and> linked_but {} s' (F(r \<mapsto> ys))
    \<and> map snd ys = delete_first P (map snd xs)"
proof -
  have skip: "del_body H P p s w = Some (False, s, w)" if "(p, t) \<in> set xs" "\<not> P t" for p t
    using familyD(3) [OF f r that(1)] that(2) by (simp add: del_body_def)
  have hit: "\<exists>s'. del_body H P p s w = Some (True, s', trig_free t w)
      \<and> family H s' (F(r \<mapsto> us @ vs)) \<and> linked_but {} s' (F(r \<mapsto> us @ vs))" if "xs = us @ (p, t) # vs" "P t" for p t us vs
    using unlink_free [OF f _ l, of r us p t vs trig_free w] familyD(3) [OF f r, of p t] r that
    by (auto simp: del_body_def trig_free_at_def)
  have hit': "\<exists>s' w'. del_body H P p s w = Some (True, s', w')" if "(p, t) \<in> set xs" "P t" for p t
    using split_list [OF that(1)] hit that(2) by blast
  have e: "each_safe H (del_body H P) r s w =
      (case List.find (P \<circ> snd) xs of None \<Rightarrow> Some (False, s, w) | Some e \<Rightarrow> del_body H P (fst e) s w)"
    by (rule each_first [where P = P and body = "del_body H P", OF f r skip hit'])
  show ?thesis
  proof (cases "List.find (P \<circ> snd) xs")
    case None
    then have n: "\<forall>t \<in> set (map snd xs). \<not> P t" by (auto simp: find_None_iff_ball)
    then have "List.find P (map snd xs) = None" by (simp add: find_None_iff_ball)
    then show ?thesis using e None f r l delete_first_none [OF n]
      by (intro exI [of _ s] exI [of _ xs]) (simp add: fun_upd_idem)
  next
    case (Some x)
    obtain p t where x: "x = (p, t)" by fastforce
    obtain us vs where xs: "xs = us @ (p, t) # vs" and m: "\<forall>u \<in> set us. \<not> P (snd u)" and P: "P t"
      using find_split [OF Some] unfolding x comp_def by auto
    have "List.find P (map snd xs) = Some t" using m P unfolding xs by (induction us) auto
    moreover have "delete_first P (map snd xs) = map snd (us @ vs)"
      using delete_first_split [of "map snd us" P t "map snd vs"] m P unfolding xs by auto
    moreover obtain s' where "del_body H P p s w = Some (True, s', trig_free t w)"
        "family H s' (F(r \<mapsto> us @ vs))"
        "linked_but {} s' (F(r \<mapsto> us @ vs))"
      using hit [OF xs P] by blast
    ultimately show ?thesis using e Some x by (intro exI [of _ s'] exI [of _ "us @ vs"]) simp
  qed
qed

lemma add_loose:
  assumes f: "family H s F" and r: "F (px_ts ctx) = Some xs" and p: "objs s p = Some t" "loose F p"
    and l: "linked_but {p} s F"
  shows "\<exists>s'. trig_add_at H ctx p s = Some (px_next ctx, ctx\<lparr>px_next := px_next ctx + 1\<rparr>, s')
    \<and> family H s' (F(px_ts ctx \<mapsto> (p, t\<lparr>tr_id := px_next ctx\<rparr>) # xs))
    \<and> linked_but {} s' (F(px_ts ctx \<mapsto> (p, t\<lparr>tr_id := px_next ctx\<rparr>) # xs))"
proof -
  let ?t = "t\<lparr>tr_id := px_next ctx\<rparr>"
  obtain s1 where s1: "write_obj s p ?t = Some s1" "family H s1 F" "objs s1 = (objs s)(p \<mapsto> ?t)"
    using family_write [OF f p] by blast
  then have t: "objs s1 p = Some ?t" by simp
  obtain s2 where s2: "link_front H s1 p (px_ts ctx) = Some s2" "objs s2 = objs s1"
      "family H s2 (F(px_ts ctx \<mapsto> (p, ?t) # xs))"
    using family_link_front [OF s1(2) r t p(2)] by blast
  have "linked_but {} s2 (F(px_ts ctx \<mapsto> (p, ?t) # xs))"
    by (rule linked_but_relink [OF l r, where B = "{p}"]) (auto simp: s2(2) s1(3) split: if_splits)
  with s2 show ?thesis using s1 p by (simp add: trig_add_at_def)
qed

section \<open>Sequences of operations\<close>

datatype reg_op =
    RAdd addr u32 int int "bytes option" u32
  | RDelId i32
  | RDelInst u32 int int
  | RFindId i32
  | RFindInst u32 int int
  | RFlush

datatype reg_answer = Ident i32 | NoMemory | Status int | Found "emtri option" | Flushed

type_synonym ptrstate = "ptrctx \<times> emtri memory \<times> env"

text \<open>What a caller that finds a trigger reads there.\<close>

definition found_at :: "emtri memory \<Rightarrow> addr option \<Rightarrow> reg_answer option" where
  "found_at s q = (case q of None \<Rightarrow> Some (Found None) | Some p \<Rightarrow> do { t \<leftarrow> objs s p; Some (Found (Some t)) })"

fun reg_cstep :: "addr set \<Rightarrow> ptrstate \<Rightarrow> reg_op \<Rightarrow> (reg_answer \<times> ptrstate) option" where
  "reg_cstep H (ctx, s, w) (RAdd p m ty inst msg sz) =
     (case trig_alloc_at p m ty inst msg sz s w of
        (None, s, w) \<Rightarrow> Some (NoMemory, ctx, s, w)
      | (Some p, s, w) \<Rightarrow>
          do { (i, ctx, s) \<leftarrow> trig_add_at H ctx p s; Some (Ident i, ctx, s, w) })"
| "reg_cstep H (ctx, s, w) (RDelId i) =
     do { (r, s, w) \<leftarrow> trig_del_by_id_at H ctx i s w; Some (Status r, ctx, s, w) }"
| "reg_cstep H (ctx, s, w) (RDelInst m ty inst) =
     do { (r, s, w) \<leftarrow> trig_del_by_inst_at H ctx m ty inst s w; Some (Status r, ctx, s, w) }"
| "reg_cstep H (ctx, s, w) (RFindId i) =
     do { q \<leftarrow> trig_find_by_id_at H ctx i s; r \<leftarrow> found_at s q; Some (r, ctx, s, w) }"
| "reg_cstep H (ctx, s, w) (RFindInst m ty inst) =
     do { q \<leftarrow> trig_find_by_inst_at H ctx m ty inst s; r \<leftarrow> found_at s q; Some (r, ctx, s, w) }"
| "reg_cstep H (ctx, s, w) RFlush =
     do { (s, w) \<leftarrow> trig_flush_at H ctx s w; Some (Flushed, ctx, s, w) }"

fun reg_astep :: "trctx \<times> env \<Rightarrow> reg_op \<Rightarrow> reg_answer \<times> trctx \<times> env" where
  "reg_astep (ctx, w) (RAdd p m ty inst msg sz) =
     (case trig_alloc m ty inst msg sz w of
        (None, w) \<Rightarrow> (NoMemory, ctx, w)
      | (Some t, w) \<Rightarrow> let (i, t, ctx) = trig_add ctx t in (Ident i, ctx, w))"
| "reg_astep (ctx, w) (RDelId i) =
     (let (r, ctx, w) = trig_del_by_id ctx i w in (Status r, ctx, w))"
| "reg_astep (ctx, w) (RDelInst m ty inst) =
     (let (r, ctx, w) = trig_del_by_inst ctx m ty inst w in (Status r, ctx, w))"
| "reg_astep (ctx, w) (RFindId i) = (Found (trig_find_by_id ctx i), ctx, w)"
| "reg_astep (ctx, w) (RFindInst m ty inst) = (Found (trig_find_by_inst ctx m ty inst), ctx, w)"
| "reg_astep (ctx, w) RFlush = (let (ctx, w) = trig_flush ctx w in (Flushed, ctx, w))"

text \<open>\<open>malloc\<close> returns an address that is not in use.\<close>

fun reg_ok :: "addr set \<Rightarrow> ptrstate \<Rightarrow> reg_op \<Rightarrow> bool" where
  "reg_ok H (ctx, s, w) (RAdd p m ty inst msg sz) \<longleftrightarrow> \<not> live H s p"
| "reg_ok H (ctx, s, w) x \<longleftrightarrow> True"

lemma delete_first_miss: "List.find P xs = None \<Longrightarrow> delete_first P xs = xs"
  by (simp add: find_None_iff_ball delete_first_none)

text \<open>The other lists in memory are \<open>F\<close>, and every trigger in memory is on a list.\<close>

definition reg_rel ::
    "addr set \<Rightarrow> (addr \<Rightarrow> emtri entries option) \<Rightarrow> ptrstate \<Rightarrow> trctx \<times> env \<Rightarrow> bool" where
  "reg_rel H F c a \<longleftrightarrow> (case (c, a) of ((ctx, s, w), (actx, v)) \<Rightarrow>
     v = w \<and> tx_next actx = px_next ctx
     \<and> (\<exists>xs. family H s (F(px_ts ctx \<mapsto> xs)) \<and> linked_but {} s (F(px_ts ctx \<mapsto> xs))
           \<and> map snd xs = tx_ts actx))"

lemma seek_found:
  assumes f: "family H s F" and r: "F r = Some xs"
  shows "\<exists>q. seek_entry H s P r = Some q \<and> found_at s q = Some (Found (List.find P (map snd xs)))"
proof (cases "List.find (P \<circ> snd) xs")
  case None
  then have "List.find P (map snd xs) = None" by (auto simp: find_None_iff_ball)
  then show ?thesis using seek_entry [OF f r, of P] None by (simp add: found_at_def)
next
  case (Some e)
  obtain us vs where "xs = us @ e # vs" "\<forall>u \<in> set us. \<not> P (snd u)" "P (snd e)"
    using find_split [OF Some] by auto
  then have "List.find P (map snd xs) = Some (snd e)" by (induction us arbitrary: xs) auto
  moreover have "objs s (fst e) = Some (snd e)"
    using familyD(3) [OF f r, of "fst e" "snd e"] find_SomeD [OF Some] by simp
  ultimately show ?thesis using seek_entry [OF f r, of P] Some by (simp add: found_at_def)
qed

definition reg_list ::
    "addr set \<Rightarrow> addr \<Rightarrow> (addr \<Rightarrow> emtri entries option) \<Rightarrow> emtri memory \<Rightarrow> emtri entries \<Rightarrow> bool" where
  "reg_list H r F s xs \<longleftrightarrow> family H s (F(r \<mapsto> xs)) \<and> linked_but {} s (F(r \<mapsto> xs))"

lemma reg_listD:
  assumes "reg_list H r F s xs"
  shows "family H s (F(r \<mapsto> xs))" and "linked_but {} s (F(r \<mapsto> xs))" and "(F(r \<mapsto> xs)) r = Some xs"
  using assms by (simp_all add: reg_list_def)

lemma reg_relI:
  "reg_list H (px_ts ctx) F s xs \<Longrightarrow> map snd xs = tx_ts actx \<Longrightarrow> tx_next actx = px_next ctx \<Longrightarrow>
    reg_rel H F (ctx, s, w) (actx, w)"
  by (auto simp: reg_rel_def reg_list_def)

lemma reg_delete:
  assumes "reg_list H r F s xs"
  obtains s' ys where "each_safe H (del_body H P) r s w =
      Some (List.find P (map snd xs) \<noteq> None, s',
        case List.find P (map snd xs) of None \<Rightarrow> w | Some t \<Rightarrow> trig_free t w)"
    "reg_list H r F s' ys" "map snd ys = delete_first P (map snd xs)"
  using del_loop [OF reg_listD(1,3,2) [OF assms], of P w, unfolded fun_upd_upd]
  unfolding reg_list_def by blast

lemma reg_add:
  assumes reg: "reg_list H (px_ts ctx) F s xs" and new: "\<not> live H s p"
  shows "\<exists>s'. trig_add_at H ctx p (create s p t) = Some (px_next ctx, ctx\<lparr>px_next := px_next ctx + 1\<rparr>, s')
    \<and> reg_list H (px_ts ctx) F s' ((p, t\<lparr>tr_id := px_next ctx\<rparr>) # xs)"
proof -
  note c = family_create [OF reg_listD(1) [OF reg] new]
  have "linked_but {p} (create s p t) (F(px_ts ctx \<mapsto> xs))"
    using reg_listD(2) [OF reg] by (auto simp: linked_but_def create_def)
  from add_loose [OF c(1) reg_listD(3) [OF reg] c(3,2) this, unfolded fun_upd_upd]
  show ?thesis unfolding reg_list_def .
qed

lemma reg_sim_del:
  assumes reg: "reg_list H (px_ts ctx) F s xs" and xs: "map snd xs = tx_ts actx"
    and i: "tx_next actx = px_next ctx" and x: "(\<exists>i. x = RDelId i) \<or> (\<exists>m ty n. x = RDelInst m ty n)"
  shows "\<exists>c'. reg_cstep H (ctx, s, w) x = Some (fst (reg_astep (actx, w) x), c')
    \<and> reg_rel H F c' (snd (reg_astep (actx, w) x))"
proof -
  let ?P = "case x of RDelId i \<Rightarrow> (\<lambda>t. tr_id t = i) | RDelInst m ty n \<Rightarrow> inst_key m ty n"
  obtain s' ys where "each_safe H (del_body H ?P) (px_ts ctx) s w = Some (List.find ?P (tx_ts actx) \<noteq> None, s',
      case List.find ?P (tx_ts actx) of None \<Rightarrow> w | Some t \<Rightarrow> trig_free t w)"
    "reg_list H (px_ts ctx) F s' ys" "map snd ys = delete_first ?P (tx_ts actx)"
    by (rule reg_delete [OF reg, of ?P w, unfolded xs])
  then show ?thesis using x i
    by (cases "List.find ?P (tx_ts actx)")
      (auto simp: trig_del_by_id_at_def trig_del_by_id_def trig_del_by_inst_at_def trig_del_by_inst_def
        delete_first_miss reg_relI)
qed

lemma reg_sim:
  assumes "reg_rel H F (ctx, s, w) (actx, v)" and ok: "reg_ok H (ctx, s, w) x"
  shows "\<exists>c'. reg_cstep H (ctx, s, w) x = Some (fst (reg_astep (actx, v) x), c')
    \<and> reg_rel H F c' (snd (reg_astep (actx, v) x))"
proof -
  obtain xs where v: "v = w" and i: "tx_next actx = px_next ctx" and reg: "reg_list H (px_ts ctx) F s xs"
    and xs: "map snd xs = tx_ts actx" using assms(1) by (auto simp: reg_rel_def reg_list_def)
  note find = seek_found [OF reg_listD(1,3) [OF reg], unfolded xs]
  show ?thesis
  proof (cases x)
    case (RAdd p m ty inst msg sz)
    obtain t w' where t: "trig_alloc m ty inst msg sz w = (t, w')" by fastforce
    show ?thesis
    proof (cases t)
      case None
      then show ?thesis using RAdd t reg xs by (auto simp: trig_alloc_at_def v i reg_relI)
    next
      case (Some t')
      have "\<not> live H s p" using ok RAdd by simp
      from reg_add [OF reg this, of t'] show ?thesis using RAdd Some t xs
        by (force simp: trig_alloc_at_def trig_add_def Let_def v i intro!: reg_relI)
    qed
  next
    case (RFindId i')
    then show ?thesis using find [of "\<lambda>t. tr_id t = i'"] assms(1)
      by (auto simp: trig_find_by_id_at_def trig_find_by_id_def)
  next
    case (RFindInst m ty inst)
    then show ?thesis using find [of "inst_key m ty inst"] assms(1)
      by (auto simp: trig_find_by_inst_at_def trig_find_by_inst_def)
  next
    case RFlush
    then show ?thesis
      using drain_loop [OF reg_listD(1,3,2) [OF reg], of trig_free w, unfolded fun_upd_upd xs, folded reg_list_def]
      by (force simp: trig_flush_at_def trig_flush_def v i intro!: reg_relI)
  qed (use reg_sim_del [OF reg xs i, of x w] v in auto)
qed

interpretation ptr: simulation "reg_rel H F" "reg_cstep H" reg_astep "reg_ok H"
proof unfold_locales
  show "\<exists>c'. reg_cstep H c x = Some (fst (reg_astep a x), c') \<and> reg_rel H F c' (snd (reg_astep a x))"
    if "reg_rel H F c a" "reg_ok H c x" for c a x
    using that reg_sim [of H F "fst c" "fst (snd c)" "snd (snd c)" "fst a" "snd a" x] by simp
qed

end
