(* ===== verification/PtrSched.thy ===== *)
theory PtrSched
  imports Turns Pointers
begin

text \<open>
  \<open>src/agent/sched.c\<close> on the memory of theory \<open>Pointers\<close>: the two queues as the code has them, heads in
  the context and tasks linked to them, with the task that a pass has in its hands on neither, and
  the proof that posting and the passes are those of theories \<open>Agent\<close> and \<open>Sched\<close>.  Of the agent, the
  two lists of its record are not used here; the memory takes their place.
\<close>

section \<open>Operations\<close>

record ptrqueues =
  pq_jobs :: addr
  pq_todo :: addr

definition task_alloc_at ::
    "addr \<Rightarrow> int \<Rightarrow> int \<Rightarrow> int \<Rightarrow> i32 \<Rightarrow> bytes option \<Rightarrow> u32 \<Rightarrow> emtask memory \<Rightarrow> env
      \<Rightarrow> addr option \<times> emtask memory \<times> env" where
  "task_alloc_at p ty intv res trg msg sz s w =
     (let (t, w) = task_alloc ty intv res trg msg sz w
      in case t of
           None \<Rightarrow> (None, s, w)
         | Some t \<Rightarrow> (Some p, create s p t, w))"

definition task_free_at :: "addr \<Rightarrow> emtask memory \<Rightarrow> env \<Rightarrow> (emtask memory \<times> env) option" where
  "task_free_at = free_at task_free"

definition sched_add_task_at ::
    "addr set \<Rightarrow> ptrqueues \<Rightarrow> addr \<Rightarrow> emage \<Rightarrow> emtask memory \<Rightarrow> env
      \<Rightarrow> (int \<times> emtask memory \<times> env) option" where
  "sched_add_task_at H q p a s w =
     do { t \<leftarrow> objs s p;
          let (now, w) = clock_gettime w;
          s \<leftarrow> write_obj s p (t\<lparr>tk_issued := now\<rparr>);
          if \<not> sc_stop (sched a)
          then do { s \<leftarrow> link_back H s p (pq_jobs q); Some (0, s, w) }
          else Some (- 1, s, w) }"

text \<open>Both queues freed, the deferred tasks first: after a network error, and at the end of the thread.\<close>

definition drop_queues_at ::
    "addr set \<Rightarrow> ptrqueues \<Rightarrow> emtask memory \<Rightarrow> env \<Rightarrow> (emtask memory \<times> env) option" where
  "drop_queues_at H q s w =
     do { (hit, s, w) \<leftarrow> each_safe H (drain_body H task_free) (pq_todo q) s w;
          (hit, s, w) \<leftarrow> each_safe H (drain_body H task_free) (pq_jobs q) s w;
          Some (s, w) }"

definition sched_net_error_at ::
    "addr set \<Rightarrow> ptrqueues \<Rightarrow> emage \<Rightarrow> emtask memory \<Rightarrow> env \<Rightarrow> (emage \<times> emtask memory \<times> env) option" where
  "sched_net_error_at H q a s w =
     do { (s, w) \<leftarrow> drop_queues_at H q s w;
          let (ctx, w) = trig_flush (trig a) w;
          let a = a\<lparr>trig := ctx\<rparr>;
          let w = tell_disconnected a w;
          let (a, w) = agent_not_connected a w;
          Some (a, s, w) }"

text \<open>One turn of the \<open>while\<close>, with the task that was taken off the queue at \<open>p\<close>.\<close>

definition sched_turn_at ::
    "emproto \<Rightarrow> stack_garbage \<Rightarrow> addr set \<Rightarrow> ptrqueues \<Rightarrow> emage \<Rightarrow> addr \<Rightarrow> emtask memory \<Rightarrow> env
      \<Rightarrow> (bool \<times> emage \<times> emtask memory \<times> env) option" where
  "sched_turn_at P g H q a p s w =
     do { let (now, w) = clock_gettime w;
          t \<leftarrow> objs s p;
          let (op, a, t, w) = sched_perform_job P g a t now w;
          s \<leftarrow> write_obj s p t;
          case op of
            TASK_NOT_ELAPSED \<Rightarrow> do { s \<leftarrow> link_front H s p (pq_todo q); Some (False, a, s, w) }
          | TASK_RESCHEDULE \<Rightarrow>
              do { s \<leftarrow> write_obj s p (t\<lparr>tk_issued := now\<rparr>);
                   s \<leftarrow> link_front H s p (pq_todo q);
                   t \<leftarrow> objs s p;
                   s \<leftarrow> (if tk_resch t > 0 then write_obj s p (t\<lparr>tk_resch := tk_resch t - 1\<rparr>) else Some s);
                   Some (False, a, s, w) }
          | TASK_CONSUMED \<Rightarrow> do { (s, w) \<leftarrow> task_free_at p s w; Some (False, a, s, w) }
          | TASK_NET_ERROR \<Rightarrow>
              do { (s, w) \<leftarrow> task_free_at p s w;
                   (a, s, w) \<leftarrow> sched_net_error_at H q a s w;
                   Some (True, a, s, w) } }"

text \<open>
  \<open>list_empty\<close> compares the first node with the head, \<open>list_first_entry\<close> is it.  The loop could run
  forever on a damaged queue.
\<close>

partial_function (option) sched_consume_loop_at ::
    "emproto \<Rightarrow> stack_garbage \<Rightarrow> addr set \<Rightarrow> ptrqueues \<Rightarrow> emage \<Rightarrow> emtask memory \<Rightarrow> env
      \<Rightarrow> (bool \<times> emage \<times> emtask memory \<times> env) option" where
  "sched_consume_loop_at P g H q a s w =
     do { p \<leftarrow> read_next H s (pq_jobs q);
          if p = pq_jobs q then Some (False, a, s, w)
          else do {
            s \<leftarrow> unlink_at H s p;
            (out, a, s, w) \<leftarrow> sched_turn_at P g H q a p s w;
            if out then Some (True, a, s, w) else sched_consume_loop_at P g H q a s w } }"

definition requeue_body :: "addr set \<Rightarrow> ptrqueues \<Rightarrow> (emtask, unit) loop_body" where
  "requeue_body H q p s w =
     do { s \<leftarrow> unlink_at H s p; s \<leftarrow> link_front H s p (pq_jobs q); Some (False, s, w) }"

definition sched_consume_at ::
    "emproto \<Rightarrow> stack_garbage \<Rightarrow> addr set \<Rightarrow> ptrqueues \<Rightarrow> emage \<Rightarrow> emtask memory \<Rightarrow> env
      \<Rightarrow> (int \<times> emage \<times> emtask memory \<times> env) option" where
  "sched_consume_at P g H q a s w =
     do { (out, a, s, w) \<leftarrow> sched_consume_loop_at P g H q a s w;
          if out then Some (0, a, s, w)
          else do {
            (hit, s, u) \<leftarrow> each_safe H (requeue_body H q) (pq_todo q) s ();
            Some (0, a, s, w) } }"

section \<open>What carries out a task does not look at the queues\<close>

lemma sched_send_msg_queues:
  "sched_send_msg P (a\<lparr>sched := c\<rparr>) m sz w =
     (case sched_send_msg P a m sz w of (r, m, b, v) \<Rightarrow> (r, m, b\<lparr>sched := c\<rparr>, v))"
  by (auto simp: sched_send_msg_def Let_def split: prod.split option.split)

lemma ue_measure_calls_queues: "ue_measure_calls (a\<lparr>sched := c\<rparr>) t m n w = ue_measure_calls a t m n w"
  by (induction n arbitrary: w) simp_all

lemma other_fields:
  "has_op (a\<lparr>sched := c\<rparr>) f = has_op a f" "ops (a\<lparr>sched := c\<rparr>) = ops a"
  "enb_id (a\<lparr>sched := c\<rparr>) = enb_id a" "trig (a\<lparr>sched := c\<rparr>) = trig a"
  by (simp_all add: has_op_def)

lemma sched_dispatch_queues:
  "sched_dispatch P g (a\<lparr>sched := c\<rparr>) t w =
     (case sched_dispatch P g a t w of (r, b, u, v) \<Rightarrow> (r, b\<lparr>sched := c\<rparr>, u, v))"
proof -
  have 1: "sched_perform_enb_setup P (a\<lparr>sched := c\<rparr>) t w = sched_perform_enb_setup P a t w"
    "sched_perform_ue_report (a\<lparr>sched := c\<rparr>) t w = sched_perform_ue_report a t w"
    "sched_perform_ho P (a\<lparr>sched := c\<rparr>) t w = sched_perform_ho P a t w"
    "sched_perform_ran_setup P (a\<lparr>sched := c\<rparr>) t w = sched_perform_ran_setup P a t w"
    unfolding sched_perform_enb_setup_def sched_perform_ue_report_def sched_perform_ho_def
      sched_perform_ran_setup_def other_fields by (rule refl)+
  have 2: "sched_perform_ue_measure P g (a\<lparr>sched := c\<rparr>) t w = sched_perform_ue_measure P g a t w"
    "sched_perform_cell_meas P g (a\<lparr>sched := c\<rparr>) t w = sched_perform_cell_meas P g a t w"
    "sched_perform_ran_slice P (a\<lparr>sched := c\<rparr>) t w = sched_perform_ran_slice P a t w"
    unfolding sched_perform_ue_measure_def sched_perform_cell_meas_def sched_perform_ran_slice_def
      other_fields ue_measure_calls_queues by (rule refl)+
  have 3: "sched_perform_send P (a\<lparr>sched := c\<rparr>) t w =
      (case sched_perform_send P a t w of (r, b, u, v) \<Rightarrow> (r, b\<lparr>sched := c\<rparr>, u, v))"
    "sched_perform_hello P (a\<lparr>sched := c\<rparr>) t w =
      (case sched_perform_hello P a t w of (r, b, v) \<Rightarrow> (r, b\<lparr>sched := c\<rparr>, v))"
    by (simp_all add: sched_perform_send_def sched_perform_hello_def sched_send_msg_queues
        split: prod.split)
  show ?thesis by (simp add: sched_dispatch_def 1 2 3 Let_def split: prod.split)
qed

lemma sched_perform_job_queues:
  "sched_perform_job P g (a\<lparr>sched := c\<rparr>) t now w =
     (case sched_perform_job P g a t now w of (r, b, u, v) \<Rightarrow> (r, b\<lparr>sched := c\<rparr>, u, v))"
  by (simp add: sched_perform_job_def sched_dispatch_queues Let_def split: prod.split)

section \<open>What the queues hold\<close>

text \<open>
  The heads of \<open>q\<close> hold \<open>js\<close> and \<open>ts\<close>, the other lists in memory are \<open>F\<close>, and every task in memory is
  on a list or at an address of \<open>A\<close>.
\<close>

definition queues ::
    "addr set \<Rightarrow> addr set \<Rightarrow> ptrqueues \<Rightarrow> (addr \<Rightarrow> emtask entries option) \<Rightarrow> emtask memory
      \<Rightarrow> emtask entries \<Rightarrow> emtask entries \<Rightarrow> bool" where
  "queues A H q F s js ts \<longleftrightarrow> pq_jobs q \<noteq> pq_todo q
     \<and> family H s (F(pq_jobs q \<mapsto> js, pq_todo q \<mapsto> ts))
     \<and> linked_but A s (F(pq_jobs q \<mapsto> js, pq_todo q \<mapsto> ts))"

text \<open>In hands: on neither queue nor elsewhere.\<close>

definition in_hands ::
    "ptrqueues \<Rightarrow> (addr \<Rightarrow> emtask entries option) \<Rightarrow> emtask memory \<Rightarrow> emtask entries \<Rightarrow> emtask entries
      \<Rightarrow> addr \<Rightarrow> emtask \<Rightarrow> bool" where
  "in_hands q F s js ts p t \<longleftrightarrow> objs s p = Some t \<and> loose (F(pq_jobs q \<mapsto> js, pq_todo q \<mapsto> ts)) p"

lemma queues_heads:
  assumes "pq_jobs q \<noteq> pq_todo q"
  shows "(F(pq_jobs q \<mapsto> js, pq_todo q \<mapsto> ts)) (pq_jobs q) = Some js"
    and "(F(pq_jobs q \<mapsto> js, pq_todo q \<mapsto> ts)) (pq_todo q) = Some ts"
    and "(F(pq_jobs q \<mapsto> js, pq_todo q \<mapsto> ts))(pq_jobs q \<mapsto> js') = F(pq_jobs q \<mapsto> js', pq_todo q \<mapsto> ts)"
    and "(F(pq_jobs q \<mapsto> js, pq_todo q \<mapsto> ts))(pq_todo q \<mapsto> ts') = F(pq_jobs q \<mapsto> js, pq_todo q \<mapsto> ts')"
  using assms by (auto simp: fun_eq_iff)

lemma queues_first:
  assumes "queues A H q F s js ts"
  shows "read_next H s (pq_jobs q) = Some (case js of [] \<Rightarrow> pq_jobs q | e # _ \<Rightarrow> fst e)"
proof -
  have n: "pq_jobs q \<noteq> pq_todo q" and f: "family H s (F(pq_jobs q \<mapsto> js, pq_todo q \<mapsto> ts))"
    using assms by (simp_all add: queues_def)
  show ?thesis using family_first [OF f queues_heads(1) [OF n]] by (cases js) simp_all
qed

lemma queues_pop:
  assumes "queues A H q F s ((p, t) # js) ts"
  shows "p \<noteq> pq_jobs q" and "\<exists>s'. unlink_at H s p = Some s' \<and> queues (insert p A) H q F s' js ts
    \<and> in_hands q F s' js ts p t"
proof -
  let ?F = "F(pq_jobs q \<mapsto> (p, t) # js, pq_todo q \<mapsto> ts)"
  have n: "pq_jobs q \<noteq> pq_todo q" and f: "family H s ?F" and l: "linked_but A s ?F"
    using assms by (simp_all add: queues_def)
  have r: "?F (pq_jobs q) = Some ([] @ (p, t) # js)"
    unfolding append_Nil by (rule queues_heads(1) [OF n])
  show "p \<noteq> pq_jobs q" using family_next(2) [OF f r] by simp
  obtain s' where s': "unlink_at H s p = Some s'" "family H s' (?F(pq_jobs q \<mapsto> [] @ js))" "objs s' = objs s"
    using family_unlink [OF f r] by blast
  have "linked_but (insert p A) s' (?F(pq_jobs q \<mapsto> [] @ js))"
    by (rule linked_but_relink [OF l r, where B = "{p}"]) (auto simp: s'(3))
  then show "\<exists>s'. unlink_at H s p = Some s' \<and> queues (insert p A) H q F s' js ts \<and> in_hands q F s' js ts p t"
    using s' n loose_unlinked [OF f r, unfolded append_Nil queues_heads(3) [OF n]]
    by (simp add: queues_def in_hands_def queues_heads(3) [OF n])
qed

lemma queues_push:
  assumes "queues (insert p A) H q F s js ts" and h: "in_hands q F s js ts p t"
  shows "\<exists>s'. link_front H s p (pq_todo q) = Some s' \<and> queues A H q F s' js ((p, t) # ts) \<and> objs s' = objs s"
    and "\<exists>s'. link_front H s p (pq_jobs q) = Some s' \<and> queues A H q F s' ((p, t) # js) ts \<and> objs s' = objs s"
    and "\<exists>s'. link_back H s p (pq_jobs q) = Some s' \<and> queues A H q F s' (js @ [(p, t)]) ts \<and> objs s' = objs s"
proof -
  let ?F = "F(pq_jobs q \<mapsto> js, pq_todo q \<mapsto> ts)"
  have n: "pq_jobs q \<noteq> pq_todo q" and f: "family H s ?F" and l: "linked_but (insert p A) s ?F"
    and p: "objs s p = Some t" "loose ?F p"
    using assms by (simp_all add: queues_def in_hands_def)
  note J = queues_heads(1) [OF n, of F js ts] and T = queues_heads(2) [OF n, of F js ts]
  have lb: "linked_but A s' (?F(r \<mapsto> zs))"
    if "?F r = Some xs" "addrs zs = insert p (addrs xs)" "objs s' = objs s" for s' r xs zs
    by (rule linked_but_relink [OF l that(1), where B = "{p}"]) (use that in auto)
  obtain s1 where "link_front H s p (pq_todo q) = Some s1" "objs s1 = objs s"
      "family H s1 (?F(pq_todo q \<mapsto> (p, t) # ts))"
    using family_link_front [OF f T p] by blast
  with lb [OF T, of "(p, t) # ts" s1] show
    "\<exists>s'. link_front H s p (pq_todo q) = Some s' \<and> queues A H q F s' js ((p, t) # ts) \<and> objs s' = objs s"
    using n by (simp add: queues_def queues_heads(4) [OF n])
  obtain s2 where "link_front H s p (pq_jobs q) = Some s2" "objs s2 = objs s"
      "family H s2 (?F(pq_jobs q \<mapsto> (p, t) # js))"
    using family_link_front [OF f J p] by blast
  with lb [OF J, of "(p, t) # js" s2] show
    "\<exists>s'. link_front H s p (pq_jobs q) = Some s' \<and> queues A H q F s' ((p, t) # js) ts \<and> objs s' = objs s"
    using n by (simp add: queues_def queues_heads(3) [OF n])
  obtain s3 where "link_back H s p (pq_jobs q) = Some s3" "objs s3 = objs s"
      "family H s3 (?F(pq_jobs q \<mapsto> js @ [(p, t)]))"
    using family_link_back [OF f J p] by blast
  with lb [OF J, of "js @ [(p, t)]" s3] show
    "\<exists>s'. link_back H s p (pq_jobs q) = Some s' \<and> queues A H q F s' (js @ [(p, t)]) ts \<and> objs s' = objs s"
    using n by (simp add: queues_def queues_heads(3) [OF n])
qed

lemma queues_write:
  assumes "queues A H q F s js ts" and "in_hands q F s js ts p t"
  shows "\<exists>s'. write_obj s p u = Some s' \<and> queues A H q F s' js ts \<and> in_hands q F s' js ts p u
    \<and> objs s' = (objs s)(p \<mapsto> u)"
proof -
  let ?F = "F(pq_jobs q \<mapsto> js, pq_todo q \<mapsto> ts)"
  obtain s' where "write_obj s p u = Some s'" "family H s' ?F" "objs s' = (objs s)(p \<mapsto> u)"
    using family_write [of H s ?F p t u] assms by (auto simp: queues_def in_hands_def)
  then show ?thesis using assms by (auto simp: queues_def in_hands_def linked_but_def)
qed

lemma queues_free:
  assumes "queues (insert p A) H q F s js ts" and "in_hands q F s js ts p t"
  shows "\<exists>s'. task_free_at p s w = Some (s', task_free t w) \<and> queues A H q F s' js ts
    \<and> objs s' = (objs s)(p := None)"
proof -
  let ?F = "F(pq_jobs q \<mapsto> js, pq_todo q \<mapsto> ts)"
  obtain s' where "release s p = Some s'" "family H s' ?F" "objs s' = (objs s)(p := None)"
    using family_release [of H s ?F p t] assms by (auto simp: queues_def in_hands_def)
  then show ?thesis using assms
    by (auto simp: queues_def in_hands_def linked_but_def task_free_at_def free_at_def)
qed

lemma queues_drop:
  assumes "queues A H q F s js ts"
  shows "\<exists>s'. drop_queues_at H q s w =
      Some (s', task_free_all (map snd js) (task_free_all (map snd ts) w)) \<and> queues A H q F s' [] []"
proof -
  let ?F = "F(pq_jobs q \<mapsto> js, pq_todo q \<mapsto> ts)"
  have n: "pq_jobs q \<noteq> pq_todo q" and f: "family H s ?F" and l: "linked_but A s ?F"
    using assms by (simp_all add: queues_def)
  note h = queues_heads [OF n, of F]
  obtain s1 where s1: "each_safe H (drain_body H task_free) (pq_todo q) s w =
      Some (False, s1, fold task_free (map snd ts) w)"
      "family H s1 (F(pq_jobs q \<mapsto> js, pq_todo q \<mapsto> []))" "linked_but A s1 (F(pq_jobs q \<mapsto> js, pq_todo q \<mapsto> []))"
    using drain_loop [OF f h(2) l, of task_free w, unfolded h(4)] by blast
  obtain s2 where "each_safe H (drain_body H task_free) (pq_jobs q) s1 (fold task_free (map snd ts) w) =
      Some (False, s2, fold task_free (map snd js) (fold task_free (map snd ts) w))"
      "family H s2 (F(pq_jobs q \<mapsto> [], pq_todo q \<mapsto> []))" "linked_but A s2 (F(pq_jobs q \<mapsto> [], pq_todo q \<mapsto> []))"
    using drain_loop [OF s1(2) h(1) s1(3), of task_free "fold task_free (map snd ts) w", unfolded h(3)]
    by blast
  with s1 n show ?thesis by (simp add: drop_queues_at_def queues_def task_free_all_def)
qed

lemma queues_requeue:
  assumes "queues A H q F s js ts"
  shows "\<exists>s'. each_safe H (requeue_body H q) (pq_todo q) s () = Some (False, s', ())
    \<and> queues A H q F s' (rev ts @ js) []"
proof -
  let ?R = "\<lambda>s' u ys. \<exists>zs. queues A H q F s' zs ys \<and> rev ys @ zs = rev ts @ js"
  have "\<exists>s' u. each_safe H (requeue_body H q) (pq_todo q) s () = Some (False, s', u) \<and> ?R s' u []"
  proof (rule each_drain [where R = ?R])
    show "?R s () ts" using assms by blast
    show "\<exists>G. family H s' G \<and> G (pq_todo q) = Some ys" if R: "?R s' u ys" for s' u ys
    proof -
      obtain zs where "queues A H q F s' zs ys" using R by blast
      then show ?thesis by (intro exI [of _ "F(pq_jobs q \<mapsto> zs, pq_todo q \<mapsto> ys)"]) (simp add: queues_def)
    qed
    show "\<exists>s' u'. requeue_body H q p s1 u = Some (False, s', u') \<and> ?R s' u' ys"
      if R: "?R s1 u ((p, t) # ys)" for s1 u p t ys
    proof -
      obtain zs where z: "queues A H q F s1 zs ((p, t) # ys)" "rev ((p, t) # ys) @ zs = rev ts @ js"
        using R by blast
      let ?F = "F(pq_jobs q \<mapsto> zs, pq_todo q \<mapsto> (p, t) # ys)"
      have n: "pq_jobs q \<noteq> pq_todo q" and f: "family H s1 ?F" and l: "linked_but A s1 ?F"
        using z(1) by (simp_all add: queues_def)
      have r: "?F (pq_todo q) = Some ([] @ (p, t) # ys)" by simp
      obtain s2 where s2: "unlink_at H s1 p = Some s2" "family H s2 (?F(pq_todo q \<mapsto> [] @ ys))"
          "objs s2 = objs s1" using family_unlink [OF f r] by blast
      have "linked_but (insert p A) s2 (?F(pq_todo q \<mapsto> [] @ ys))"
        by (rule linked_but_relink [OF l r, where B = "{p}"]) (auto simp: s2(3))
      then have q2: "queues (insert p A) H q F s2 zs ys" using s2 n
        by (simp add: queues_def queues_heads(4) [OF n])
      have "in_hands q F s2 zs ys p t"
        using loose_unlinked [OF f r, unfolded queues_heads(4) [OF n]] s2(3) by (simp add: in_hands_def)
      then obtain s3 where "link_front H s2 p (pq_jobs q) = Some s3" "queues A H q F s3 ((p, t) # zs) ys"
        using queues_push(2) [OF q2] by blast
      with s2(1) z(2) show ?thesis by (auto simp: requeue_body_def)
    qed
  qed
  then show ?thesis by auto
qed

section \<open>A pass\<close>

text \<open>The agent of the earlier theories: the lists in its record are what the memory holds.\<close>

definition with_queues :: "emtask list \<Rightarrow> emtask list \<Rightarrow> emage \<Rightarrow> emage" where
  "with_queues js ts a = a\<lparr>sched := (sched a)\<lparr>sc_jobs := js, sc_todo := ts\<rparr>\<rparr>"

lemma with_queues_simps [simp]:
  "sc_jobs (sched (with_queues js ts a)) = js" "sc_todo (sched (with_queues js ts a)) = ts"
  "sc_stop (sched (with_queues js ts a)) = sc_stop (sched a)" "trig (with_queues js ts a) = trig a"
  "ops (with_queues js ts a) = ops a" "enb_id (with_queues js ts a) = enb_id a"
  "net (with_queues js ts a) = net a"
  "jobs_pop (with_queues js ts a) = with_queues (tl js) ts a"
  "todo_push t (with_queues js ts a) = with_queues js (t # ts) a"
  "sched_requeue (with_queues js ts a) = with_queues (rev ts @ js) [] a"
  "with_queues js' ts' (with_queues js ts a) = with_queues js' ts' a"
  by (simp_all add: with_queues_def jobs_pop_def todo_push_def sched_requeue_def)

lemma perform_job_with_queues:
  assumes "sched_perform_job P g a t now w = (r, b, u, v)"
  shows "sched_perform_job P g (with_queues js ts a) t now w = (r, with_queues js ts b, u, v)"
  using sched_perform_job_frame(1) [OF assms] assms
  by (simp add: with_queues_def sched_perform_job_queues)

text \<open>Once the flag to stop is set, tasks that are refused are lost; until then none is.\<close>

definition refused :: "emage \<Rightarrow> addr set" where
  "refused a = (if sc_stop (sched a) then UNIV else {})"

lemma net_error_with_queues:
  assumes "queues (refused a) H q F s js ts"
    and "sched_net_error (with_queues (map snd js) (map snd ts) a) w = (b, v)"
  shows "\<exists>a' s'. sched_net_error_at H q a s w = Some (a', s', v) \<and> queues (refused a') H q F s' [] []
    \<and> b = with_queues [] [] a' \<and> sc_stop (sched a') = sc_stop (sched a)"
proof -
  let ?w = "task_free_all (map snd js) (task_free_all (map snd ts) w)"
  obtain s' where s': "drop_queues_at H q s w = Some (s', ?w)" "queues (refused a) H q F s' [] []"
    using queues_drop [OF assms(1)] by blast
  obtain ctx u where t: "trig_flush (trig a) ?w = (ctx, u)" by fastforce
  let ?a = "a\<lparr>trig := ctx\<rparr>"
  have a: "a\<lparr>sched := sched a\<lparr>sc_todo := [], sc_jobs := []\<rparr>, trig := ctx\<rparr> = with_queues [] [] ?a"
    by (auto simp: with_queues_def intro!: emage.equality schctx.equality)
  have "sched_net_error (with_queues (map snd js) (map snd ts) a) w =
      agent_not_connected (with_queues [] [] ?a) (tell_disconnected ?a u)"
    unfolding a [symmetric]
    by (cases "ops a") (simp_all add: sched_net_error_def with_queues_def t tell_disconnected_def Let_def)
  then have b: "b = with_queues [] [] (?a\<lparr>net := fst (snd (net_not_connected (net a) (tell_disconnected ?a u)))\<rparr>)"
    "v = snd (snd (net_not_connected (net a) (tell_disconnected ?a u)))"
    using assms(2) by (auto simp: agent_not_connected_def with_queues_def split_beta)
  show ?thesis using s' b t
    by (intro exI [of _ "?a\<lparr>net := fst (snd (net_not_connected (net a) (tell_disconnected ?a u)))\<rparr>"]
        exI [of _ s'])
      (simp add: sched_net_error_at_def agent_not_connected_def split_beta refused_def Let_def)
qed

lemma link_front_write:
  assumes "link_front H s p r = Some s1" and "write_obj s p v = Some s2" and "link_front H s2 p r = Some s3"
  shows "write_obj s1 p v = Some s3"
  using assms by (auto simp: link_front_def write_obj_def split: if_splits)

text \<open>A task that is put back is stamped, linked, and loses a credit, in this order.\<close>

lemma put_again:
  assumes q: "queues (insert p A) H q F s js ts" and h: "in_hands q F s js ts p u"
  shows "\<exists>s2 s4 s5. write_obj s p (u\<lparr>tk_issued := now\<rparr>) = Some s2
    \<and> link_front H s2 p (pq_todo q) = Some s4 \<and> objs s4 p = Some (u\<lparr>tk_issued := now\<rparr>)
    \<and> (if tk_resch u > 0 then write_obj s4 p (u\<lparr>tk_issued := now, tk_resch := tk_resch u - 1\<rparr>)
        else Some s4) = Some s5
    \<and> queues A H q F s5 js ((p, task_again now u) # ts)"
proof -
  let ?u = "u\<lparr>tk_issued := now\<rparr>" and ?v = "task_again now u"
  obtain s2 where s2: "write_obj s p ?u = Some s2" "queues (insert p A) H q F s2 js ts"
      "in_hands q F s2 js ts p ?u" using queues_write [OF q h] by blast
  obtain s3 where s3: "write_obj s2 p ?v = Some s3" "queues (insert p A) H q F s3 js ts"
      "in_hands q F s3 js ts p ?v" using queues_write [OF s2(2,3)] by blast
  obtain s4 where s4: "link_front H s2 p (pq_todo q) = Some s4" "objs s4 = objs s2"
    using queues_push(1) [OF s2(2,3)] by blast
  obtain s5 where s5: "link_front H s3 p (pq_todo q) = Some s5" "queues A H q F s5 js ((p, ?v) # ts)"
    using queues_push(1) [OF s3(2,3)] by blast
  have w: "write_obj s4 p ?v = Some s5" by (rule link_front_write [OF s4(1) s3(1) s5(1)])
  have p4: "objs s4 p = Some ?u" using s4(2) s2(3) by (simp add: in_hands_def)
  have "(if tk_resch u > 0 then write_obj s4 p (?u\<lparr>tk_resch := tk_resch u - 1\<rparr>) else Some s4) = Some s5"
    using w p4 by (auto simp: task_again_def write_obj_def fun_upd_idem)
  then show ?thesis using s2(1) s4(1) s5(2) p4 by auto
qed

lemma turn_with_queues:
  assumes q: "queues (insert p (refused a)) H q F s js ts" and h: "in_hands q F s js ts p t"
    and turn: "sched_turn P g (with_queues (map snd js) (map snd ts) a) t w = (e, b, v)"
  shows "\<exists>a' s' js' ts'. sched_turn_at P g H q a p s w = Some (e, a', s', v)
    \<and> queues (refused a') H q F s' js' ts' \<and> b = with_queues (map snd js') (map snd ts') a'
    \<and> (e \<or> js' = js)"
proof -
  let ?now = "clock w (clocks w)" and ?w = "w\<lparr>clocks := Suc (clocks w)\<rparr>"
  have c: "clock_gettime w = (?now, ?w)" by (simp add: clock_gettime_def)
  obtain op a1 u w1 where j: "sched_perform_job P g a t ?now ?w = (op, a1, u, w1)"
    by (rule prod_cases4)
  have st: "sc_stop (sched a1) = sc_stop (sched a)" using sched_perform_job_frame(1) [OF j] by simp
  then have l: "refused a1 = refused a" by (simp add: refused_def)
  note jq = perform_job_with_queues [OF j, of "map snd js" "map snd ts"]
  obtain s1 where s1: "write_obj s p u = Some s1" "queues (insert p (refused a)) H q F s1 js ts"
      "in_hands q F s1 js ts p u"
    using queues_write [OF q h] by blast
  note o = h [unfolded in_hands_def, THEN conjunct1]
  show ?thesis
  proof (cases op)
    case TASK_NOT_ELAPSED
    obtain s2 where "link_front H s1 p (pq_todo q) = Some s2" "queues (refused a) H q F s2 js ((p, u) # ts)"
      using queues_push(1) [OF s1(2,3)] by blast
    then show ?thesis using turn TASK_NOT_ELAPSED c j jq o s1(1) l
      by (intro exI [of _ a1] exI [of _ s2] exI [of _ js] exI [of _ "(p, u) # ts"])
        (auto simp: sched_turn_at_def sched_turn_def)
  next
    case TASK_RESCHEDULE
    obtain s2 s4 s5 where
      "write_obj s1 p (u\<lparr>tk_issued := ?now\<rparr>) = Some s2" "link_front H s2 p (pq_todo q) = Some s4"
      "objs s4 p = Some (u\<lparr>tk_issued := ?now\<rparr>)"
      "(if tk_resch u > 0 then write_obj s4 p (u\<lparr>tk_issued := ?now, tk_resch := tk_resch u - 1\<rparr>) else Some s4) = Some s5"
      "queues (refused a) H q F s5 js ((p, task_again ?now u) # ts)"
      using put_again [OF s1(2,3), of ?now] by blast
    then show ?thesis using turn TASK_RESCHEDULE c j jq o s1(1) l
      by (intro exI [of _ a1] exI [of _ s5] exI [of _ js] exI [of _ "(p, task_again ?now u) # ts"])
        (auto simp: sched_turn_at_def sched_turn_def)
  next
    case TASK_CONSUMED
    obtain s2 where "task_free_at p s1 w1 = Some (s2, task_free u w1)" "queues (refused a) H q F s2 js ts"
      using queues_free [OF s1(2,3)] by blast
    then show ?thesis using turn TASK_CONSUMED c j jq o s1(1) l
      by (intro exI [of _ a1] exI [of _ s2] exI [of _ js] exI [of _ ts])
        (auto simp: sched_turn_at_def sched_turn_def)
  next
    case TASK_NET_ERROR
    obtain s2 where s2: "task_free_at p s1 w1 = Some (s2, task_free u w1)" "queues (refused a1) H q F s2 js ts"
      using queues_free [OF s1(2,3)] l by auto
    have e: "e" "sched_net_error (with_queues (map snd js) (map snd ts) a1) (task_free u w1) = (b, v)"
      using turn TASK_NET_ERROR c jq by (auto simp: sched_turn_def split_beta)
    obtain a' s' where "sched_net_error_at H q a1 s2 (task_free u w1) = Some (a', s', v)"
        "queues (refused a') H q F s' [] []" "b = with_queues [] [] a'"
      using net_error_with_queues [OF s2(2) e(2)] by blast
    then show ?thesis using TASK_NET_ERROR c j o s1(1) s2(1) e(1)
      by (intro exI [of _ a'] exI [of _ s'] exI [of _ "[]"] exI [of _ "[]"]) (simp add: sched_turn_at_def)
  qed
qed

lemma loop_with_queues:
  assumes "queues (refused a) H q F s js ts"
    and "sched_consume_loop P g (with_queues (map snd js) (map snd ts) a) w = (e, b, v)"
  shows "\<exists>a' s' js' ts'. sched_consume_loop_at P g H q a s w = Some (e, a', s', v)
    \<and> queues (refused a') H q F s' js' ts' \<and> b = with_queues (map snd js') (map snd ts') a'"
  using assms
proof (induction js arbitrary: a s ts w)
  case Nil
  then have "e = False" "v = w" "b = with_queues [] (map snd ts) a"
    by (simp_all add: sched_consume_loop.simps)
  then show ?case using queues_first [OF Nil(1)] Nil(1)
    by (intro exI [of _ a] exI [of _ s] exI [of _ "[]"] exI [of _ ts])
      (subst sched_consume_loop_at.simps, simp)
next
  case (Cons x js)
  obtain p t where x: "x = (p, t)" by fastforce
  note q = Cons.prems(1) [unfolded x]
  obtain s1 where s1: "unlink_at H s p = Some s1" "queues (insert p (refused a)) H q F s1 js ts"
      "in_hands q F s1 js ts p t" using queues_pop(2) [OF q] by blast
  obtain out b1 v1 where turn: "sched_turn P g (with_queues (map snd js) (map snd ts) a) t w = (out, b1, v1)"
    by (rule prod_cases3)
  obtain a2 s2 js2 ts2 where 2: "sched_turn_at P g H q a p s1 w = Some (out, a2, s2, v1)"
      "queues (refused a2) H q F s2 js2 ts2" "b1 = with_queues (map snd js2) (map snd ts2) a2" "out \<or> js2 = js"
    using turn_with_queues [OF s1(2,3) turn] by blast
  have first: "read_next H s (pq_jobs q) = Some p" "p \<noteq> pq_jobs q"
    using queues_first [OF q] queues_pop(1) [OF q] by simp_all
  show ?case
  proof (cases out)
    case True
    then have "e" "b = b1" "v = v1" using Cons.prems(2) turn x by (simp_all add: sched_consume_loop.simps)
    then show ?thesis using first s1(1) 2 True by (subst sched_consume_loop_at.simps) auto
  next
    case False
    then have "sched_consume_loop P g (with_queues (map snd js) (map snd ts2) a2) v1 = (e, b, v)"
      using Cons.prems(2) turn x 2
      by (simp add: sched_consume_loop.simps [of P g "with_queues (t # map snd js) (map snd ts) a"])
    then obtain a' s' js' ts' where
      "sched_consume_loop_at P g H q a2 s2 v1 = Some (e, a', s', v)"
      "queues (refused a') H q F s' js' ts'" "b = with_queues (map snd js') (map snd ts') a'"
      using Cons.IH [of a2 s2 ts2 v1] 2 False by auto
    then show ?thesis using first s1(1) 2 False by (subst sched_consume_loop_at.simps) auto
  qed
qed

lemma consume_with_queues:
  assumes "queues (refused a) H q F s js ts"
    and "sched_consume P g (with_queues (map snd js) (map snd ts) a) w = (r, b, v)"
  shows "\<exists>a' s' js' ts'. sched_consume_at P g H q a s w = Some (r, a', s', v)
    \<and> queues (refused a') H q F s' js' ts' \<and> b = with_queues (map snd js') (map snd ts') a'"
proof -
  obtain e b1 v1 where l: "sched_consume_loop P g (with_queues (map snd js) (map snd ts) a) w = (e, b1, v1)"
    by (rule prod_cases3)
  obtain a1 s1 js1 ts1 where 1: "sched_consume_loop_at P g H q a s w = Some (e, a1, s1, v1)"
      "queues (refused a1) H q F s1 js1 ts1" "b1 = with_queues (map snd js1) (map snd ts1) a1"
    using loop_with_queues [OF assms(1) l] by blast
  show ?thesis
  proof (cases e)
    case True
    then show ?thesis using assms(2) l 1 by (auto simp: sched_consume_def sched_consume_at_def)
  next
    case False
    obtain s2 where s2: "each_safe H (requeue_body H q) (pq_todo q) s1 () = Some (False, s2, ())"
        "queues (refused a1) H q F s2 (rev ts1 @ js1) []" using queues_requeue [OF 1(2)] by blast
    have "b = with_queues (map snd (rev ts1 @ js1)) (map snd []) a1" "r = 0" "v = v1"
      using assms(2) l 1(3) False by (auto simp: sched_consume_def rev_map)
    moreover have "sched_consume_at P g H q a s w = Some (0, a1, s2, v1)"
      using 1(1) s2(1) False by (simp add: sched_consume_at_def)
    ultimately show ?thesis using s2(2) by blast
  qed
qed

section \<open>Posting\<close>

lemma create_in_hands:
  assumes "queues A H q F s js ts" and "\<not> live H s p"
  shows "queues (insert p A) H q F (create s p t) js ts" and "in_hands q F (create s p t) js ts p t"
  using family_create [of H s "F(pq_jobs q \<mapsto> js, pq_todo q \<mapsto> ts)" p] assms
  by (auto simp: queues_def in_hands_def linked_but_def create_def)

text \<open>Another task that is in hands stays there.\<close>

lemma in_hands_out:
  assumes "pq_jobs q \<noteq> pq_todo q" and "in_hands q F s js ts p t"
  shows "p \<notin> addrs js" and "p \<notin> addrs ts"
proof -
  have l: "loose (F(pq_jobs q \<mapsto> js, pq_todo q \<mapsto> ts)) p" using assms(2) by (simp add: in_hands_def)
  show "p \<notin> addrs js" by (rule looseD [OF l queues_heads(1) [OF assms(1)]])
  show "p \<notin> addrs ts" by (rule looseD [OF l queues_heads(2) [OF assms(1)]])
qed

lemma in_hands_keep:
  assumes "in_hands q F s js ts p t" and "objs s' p = objs s p" and "p \<notin> addrs js'" and "p \<notin> addrs ts'"
  shows "in_hands q F s' js' ts' p t"
proof -
  have "loose (F(pq_jobs q \<mapsto> js', pq_todo q \<mapsto> ts')) p"
  proof (rule looseI)
    fix r xs assume r: "(F(pq_jobs q \<mapsto> js', pq_todo q \<mapsto> ts')) r = Some xs"
    show "p \<notin> addrs xs"
    proof (cases "r = pq_jobs q \<or> r = pq_todo q")
      case False
      then show ?thesis using r assms(1) by (auto simp: in_hands_def dest: looseD [of _ _ r xs])
    qed (use r assms(3,4) in \<open>auto split: if_splits\<close>)
  qed
  then show ?thesis using assms(1,2) by (simp add: in_hands_def)
qed

lemma create_keeps_hands:
  assumes "pq_jobs q \<noteq> pq_todo q" and h: "in_hands q F s js ts p2 t2" and "\<not> live H s p"
  shows "in_hands q F (create s p t) js ts p2 t2 \<and> p2 \<noteq> p"
proof
  show "p2 \<noteq> p" using h assms(3) by (auto simp: in_hands_def live_def)
  then show "in_hands q F (create s p t) js ts p2 t2"
    using in_hands_keep [OF h, of "create s p t" js ts] in_hands_out [OF assms(1) h] by (simp add: create_def)
qed

lemma add_task_with_queues:
  assumes q: "queues (insert p A) H q F s js ts" and h: "in_hands q F s js ts p t" and A: "refused a \<subseteq> A"
    and b: "b = with_queues (map snd js) (map snd ts) a"
  obtains s' js' t' where "sched_add_task_at H q p a s w =
      Some (fst (agent_add_task b t w), s', snd (snd (agent_add_task b t w)))"
    "queues A H q F s' js' ts" "fst (snd (agent_add_task b t w)) = with_queues (map snd js') (map snd ts) a"
    "sc_stop (sched a) \<Longrightarrow> in_hands q F s' js' ts p t'"
    "sc_stop (sched a) \<Longrightarrow> tk_msg_size t' = tk_msg_size t"
    "\<And>p2 t2. in_hands q F s js ts p2 t2 \<Longrightarrow> p2 \<noteq> p \<Longrightarrow> in_hands q F s' js' ts p2 t2"
proof -
  let ?t = "t\<lparr>tk_issued := clock w (clocks w)\<rparr>"
  have n: "pq_jobs q \<noteq> pq_todo q" using q by (simp add: queues_def)
  note o = h [unfolded in_hands_def, THEN conjunct1]
  obtain s1 where s1: "write_obj s p ?t = Some s1" "queues (insert p A) H q F s1 js ts"
      "in_hands q F s1 js ts p ?t" "objs s1 = (objs s)(p \<mapsto> ?t)" using queues_write [OF q h] by blast
  note defs = sched_add_task_at_def agent_add_task_def sched_add_task_def with_queues_def clock_gettime_def
  show thesis
  proof (cases "sc_stop (sched a)")
    case True
    then have "queues A H q F s1 js ts" using s1(2) A
      by (auto simp: refused_def queues_def linked_but_def)
    then show thesis using True s1 o b in_hands_out [OF n]
      by (intro that [of s1 js ?t]) (auto simp: defs intro: in_hands_keep)
  next
    case False
    obtain s2 where "link_back H s1 p (pq_jobs q) = Some s2" "queues A H q F s2 (js @ [(p, ?t)]) ts"
        "objs s2 = objs s1"
      using queues_push(3) [OF s1(2,3)] by blast
    then show thesis using False s1(1,4) o b in_hands_out [OF n]
      by (intro that [of s2 "js @ [(p, ?t)]" ?t]) (auto simp: defs intro: in_hands_keep)
  qed
qed

text \<open>A task is posted, whatever other task is in hands.\<close>

definition post_task_at ::
    "addr set \<Rightarrow> ptrqueues \<Rightarrow> addr \<Rightarrow> int \<Rightarrow> int \<Rightarrow> int \<Rightarrow> i32 \<Rightarrow> bytes option \<Rightarrow> u32 \<Rightarrow> emage
      \<Rightarrow> emtask memory \<Rightarrow> env \<Rightarrow> (int \<times> emtask memory \<times> env) option" where
  "post_task_at H q p ty intv res trg msg sz a s w =
     (case task_alloc_at p ty intv res trg msg sz s w of
        (None, s, w) \<Rightarrow> Some (- 1, s, w)
      | (Some p, s, w) \<Rightarrow> sched_add_task_at H q p a s w)"

lemma post_with_queues:
  assumes q: "queues A H q F s js ts" and new: "\<not> live H s p" and A: "refused a \<subseteq> A"
    and b: "b = with_queues (map snd js) (map snd ts) a"
  obtains s' js' where "post_task_at H q p ty intv res trg msg sz a s w =
      Some (fst (post_task ty intv res trg msg sz b w), s', snd (snd (post_task ty intv res trg msg sz b w)))"
    "queues A H q F s' js' ts"
    "fst (snd (post_task ty intv res trg msg sz b w)) = with_queues (map snd js') (map snd ts) a"
    "\<And>p2 t2. in_hands q F s js ts p2 t2 \<Longrightarrow> in_hands q F s' js' ts p2 t2"
proof -
  have n: "pq_jobs q \<noteq> pq_todo q" using q by (simp add: queues_def)
  obtain t w' where t: "task_alloc ty intv res trg msg sz w = (t, w')" by fastforce
  show thesis
  proof (cases t)
    case None
    then show thesis using q b t
      by (intro that [of s js]) (simp_all add: post_task_at_def task_alloc_at_def post_task_def)
  next
    case (Some t')
    note c = create_in_hands [OF q new, of t']
    have keep: "in_hands q F (create s p t') js ts p2 t2 \<and> p2 \<noteq> p" if "in_hands q F s js ts p2 t2" for p2 t2
      by (rule create_keeps_hands [OF n that new])
    obtain s' js' where "sched_add_task_at H q p a (create s p t') w' =
        Some (fst (agent_add_task b t' w'), s', snd (snd (agent_add_task b t' w')))"
        "queues A H q F s' js' ts"
        "fst (snd (agent_add_task b t' w')) = with_queues (map snd js') (map snd ts) a"
        "\<And>p2 t2. in_hands q F (create s p t') js ts p2 t2 \<Longrightarrow> p2 \<noteq> p \<Longrightarrow> in_hands q F s' js' ts p2 t2"
      using add_task_with_queues [OF c A b] by metis
    then show thesis using t Some keep
      by (intro that [of s' js'])
        (auto simp: post_task_at_def task_alloc_at_def post_task_def net_sched_task_def split_beta)
  qed
qed

section \<open>Sequences of operations\<close>

text \<open>
  What reaches the queues: tasks posted (by the listener or a caller), passes, the flag to stop, and the
  end of the thread.
\<close>

datatype queue_op =
    QPost addr int int int i32 "bytes option" u32
  | QPass
  | QStop
  | QExit

type_synonym queue_state = "emage \<times> emtask memory \<times> env"

definition set_stop :: "emage \<Rightarrow> emage" where
  "set_stop a = a\<lparr>sched := (sched a)\<lparr>sc_stop := True\<rparr>\<rparr>"

fun queue_cstep ::
    "emproto \<Rightarrow> stack_garbage \<Rightarrow> addr set \<Rightarrow> ptrqueues \<Rightarrow> queue_state \<Rightarrow> queue_op
      \<Rightarrow> (int \<times> queue_state) option" where
  "queue_cstep P g H q (a, s, w) (QPost p ty intv res trg msg sz) =
     do { (r, s, w) \<leftarrow> post_task_at H q p ty intv res trg msg sz a s w; Some (r, a, s, w) }"
| "queue_cstep P g H q (a, s, w) QPass = sched_consume_at P g H q a s w"
| "queue_cstep P g H q (a, s, w) QStop = Some (0, set_stop a, s, w)"
| "queue_cstep P g H q (a, s, w) QExit =
     do { (s, w) \<leftarrow> drop_queues_at H q s w; Some (0, a, s, w) }"

fun queue_astep ::
    "emproto \<Rightarrow> stack_garbage \<Rightarrow> emage \<times> env \<Rightarrow> queue_op \<Rightarrow> int \<times> emage \<times> env" where
  "queue_astep P g (a, w) (QPost p ty intv res trg msg sz) = post_task ty intv res trg msg sz a w"
| "queue_astep P g (a, w) QPass = sched_consume P g a w"
| "queue_astep P g (a, w) QStop = (0, set_stop a, w)"
| "queue_astep P g (a, w) QExit =
     (let (c, w) = sched_loop_exit (sched a) w in (0, a\<lparr>sched := c\<rparr>, w))"

fun queue_ok :: "addr set \<Rightarrow> queue_state \<Rightarrow> queue_op \<Rightarrow> bool" where
  "queue_ok H (a, s, w) (QPost p ty intv res trg msg sz) \<longleftrightarrow> \<not> live H s p"
| "queue_ok H (a, s, w) x \<longleftrightarrow> True"

text \<open>Both agents agree but for the lists, which are in memory on the one side.\<close>

definition queue_rel ::
    "addr set \<Rightarrow> ptrqueues \<Rightarrow> (addr \<Rightarrow> emtask entries option) \<Rightarrow> queue_state \<Rightarrow> emage \<times> env \<Rightarrow> bool" where
  "queue_rel H q F c b \<longleftrightarrow> (case (c, b) of ((a, s, w), (b, v)) \<Rightarrow>
     v = w \<and> (\<exists>js ts. queues (refused a) H q F s js ts
       \<and> b = with_queues (map snd js) (map snd ts) a))"

lemma queue_sim:
  assumes rel: "queue_rel H q F (a, s, w) (b, v)" and ok: "queue_ok H (a, s, w) x"
  shows "\<exists>c'. queue_cstep P g H q (a, s, w) x = Some (fst (queue_astep P g (b, v) x), c')
    \<and> queue_rel H q F c' (snd (queue_astep P g (b, v) x))"
proof -
  obtain js ts where v: "v = w" and q: "queues (refused a) H q F s js ts"
    and b: "b = with_queues (map snd js) (map snd ts) a" using rel by (auto simp: queue_rel_def)
  show ?thesis
  proof (cases x)
    case (QPost p ty intv res trg msg sz)
    have new: "\<not> live H s p" using ok QPost by simp
    show ?thesis
      by (rule post_with_queues [OF q new order_refl b, where w = w and ty = ty and intv = intv and res = res
            and trg = trg and msg = msg and sz = sz])
        (use v QPost in \<open>auto simp: queue_rel_def split_beta\<close>)
  next
    case QPass
    obtain r b' v' where c: "sched_consume P g (with_queues (map snd js) (map snd ts) a) w = (r, b', v')"
      by (rule prod_cases3)
    show ?thesis using consume_with_queues [OF q c] c QPass v b by (auto simp: queue_rel_def)
  next
    case QStop
    have "queues (refused (set_stop a)) H q F s js ts"
      using q by (auto simp: queues_def linked_but_def refused_def set_stop_def)
    moreover have "set_stop b = with_queues (map snd js) (map snd ts) (set_stop a)"
      by (auto simp: b set_stop_def with_queues_def intro!: emage.equality schctx.equality)
    ultimately show ?thesis using QStop v by (auto simp: queue_rel_def)
  next
    case QExit
    obtain s' where s': "drop_queues_at H q s w =
        Some (s', task_free_all (map snd js) (task_free_all (map snd ts) w))"
        "queues (refused a) H q F s' [] []" using queues_drop [OF q] by blast
    have "b\<lparr>sched := fst (sched_loop_exit (sched b) w)\<rparr> = with_queues [] [] a"
      "snd (sched_loop_exit (sched b) w) = task_free_all (map snd js) (task_free_all (map snd ts) w)"
      by (auto simp: b sched_loop_exit_def with_queues_def Let_def intro!: emage.equality schctx.equality)
    with s' show ?thesis using QExit v
      by (auto simp: queue_rel_def split_beta intro!: exI [of _ "[]"])
  qed
qed

interpretation ptq: simulation "queue_rel H q F" "queue_cstep P g H q" "queue_astep P g" "queue_ok H"
proof unfold_locales
  show "\<exists>c'. queue_cstep P g H q c x = Some (fst (queue_astep P g a x), c')
      \<and> queue_rel H q F c' (snd (queue_astep P g a x))"
    if "queue_rel H q F c a" "queue_ok H c x" for c a x
    using that queue_sim [of H q F "fst c" "fst (snd c)" "snd (snd c)" "fst a" "snd a" x P g] by simp
qed

end
