(* ===== verification/PtrTurns.thy ===== *)
theory PtrTurns
  imports PtrSched
begin

text \<open>
  The pass of the scheduler in memory at the grain of its lock: theory \<open>Turns\<close> with the queues of
  theory \<open>PtrSched\<close>.  The thread holds the address of the task in its hands while the listener and
  callers post tasks, change the triggers or lose the connection.
\<close>

section \<open>Steps\<close>

datatype place_at =
    PopAt
  | PerformAt addr
  | SettleAt task_res timespec addr
  | FlushAt
  | TellAt
  | CloseAt
  | RequeueAt
  | OverAt

definition settle_at ::
    "addr set \<Rightarrow> ptrqueues \<Rightarrow> task_res \<Rightarrow> timespec \<Rightarrow> addr \<Rightarrow> emtask memory \<Rightarrow> env
      \<Rightarrow> (place_at \<times> emtask memory \<times> env) option" where
  "settle_at H q op now p s w =
     (case op of
        TASK_NOT_ELAPSED \<Rightarrow> do { s \<leftarrow> link_front H s p (pq_todo q); Some (PopAt, s, w) }
      | TASK_RESCHEDULE \<Rightarrow>
          do { t \<leftarrow> objs s p;
               s \<leftarrow> write_obj s p (t\<lparr>tk_issued := now\<rparr>);
               s \<leftarrow> link_front H s p (pq_todo q);
               t \<leftarrow> objs s p;
               s \<leftarrow> (if tk_resch t > 0 then write_obj s p (t\<lparr>tk_resch := tk_resch t - 1\<rparr>) else Some s);
               Some (PopAt, s, w) }
      | TASK_CONSUMED \<Rightarrow> do { (s, w) \<leftarrow> task_free_at p s w; Some (PopAt, s, w) }
      | TASK_NET_ERROR \<Rightarrow>
          do { (s, w) \<leftarrow> task_free_at p s w;
               (s, w) \<leftarrow> drop_queues_at H q s w;
               Some (FlushAt, s, w) })"

type_synonym mix_state = "place_at \<times> emage \<times> emtask memory \<times> env"

fun pass_step_at ::
    "emproto \<Rightarrow> stack_garbage \<Rightarrow> addr set \<Rightarrow> ptrqueues \<Rightarrow> mix_state \<Rightarrow> mix_state option" where
  "pass_step_at P g H q (PopAt, a, s, w) =
     do { p \<leftarrow> read_next H s (pq_jobs q);
          if p = pq_jobs q then Some (RequeueAt, a, s, w)
          else do { s \<leftarrow> unlink_at H s p; Some (PerformAt p, a, s, w) } }"
| "pass_step_at P g H q (PerformAt p, a, s, w) =
     do { let (now, w) = clock_gettime w;
          t \<leftarrow> objs s p;
          let (op, a, t, w) = sched_perform_job P g a t now w;
          s \<leftarrow> write_obj s p t;
          Some (SettleAt op now p, a, s, w) }"
| "pass_step_at P g H q (SettleAt op now p, a, s, w) =
     do { (x, s, w) \<leftarrow> settle_at H q op now p s w; Some (x, a, s, w) }"
| "pass_step_at P g H q (FlushAt, a, s, w) =
     (let (ctx, w) = trig_flush (trig a) w in Some (TellAt, a\<lparr>trig := ctx\<rparr>, s, w))"
| "pass_step_at P g H q (TellAt, a, s, w) = Some (CloseAt, a, s, tell_disconnected a w)"
| "pass_step_at P g H q (CloseAt, a, s, w) =
     (let (a, w) = agent_not_connected a w in Some (OverAt, a, s, w))"
| "pass_step_at P g H q (RequeueAt, a, s, w) =
     do { (hit, s, u) \<leftarrow> each_safe H (requeue_body H q) (pq_todo q) s (); Some (OverAt, a, s, w) }"
| "pass_step_at P g H q (OverAt, a, s, w) = Some (OverAt, a, s, w)"

text \<open>\<open>net_connected\<close> posts the Hello, or frees it when it is refused.\<close>

definition net_connected_at ::
    "addr set \<Rightarrow> ptrqueues \<Rightarrow> addr \<Rightarrow> emage \<Rightarrow> emtask memory \<Rightarrow> env
      \<Rightarrow> (int \<times> emage \<times> emtask memory \<times> env) option" where
  "net_connected_at H q p a s w =
     (case task_alloc_at p TASK_TYPE_HELLO 2000 (- 1) 0 None 0 s w of
        (None, s, w) \<Rightarrow> Some (- 1, a, s, w)
      | (Some p, s, w) \<Rightarrow>
          do { (r, s, w) \<leftarrow> sched_add_task_at H q p a s w;
               if r \<noteq> 0
               then do { (s, w) \<leftarrow> task_free_at p s w; Some (- 1, a, s, w) }
               else Some (0, a\<lparr>net := (net a)\<lparr>nt_status := NET_STATUS_CONNECTED\<rparr>\<rparr>, s, w) })"

text \<open>
  The steps of the pass, and what comes between: the moves that make a task get the address of
  \<open>malloc\<close>, the others do not touch the queues.
\<close>

datatype mix_op =
    TurnAt
  | PostAt addr int int int i32 "bytes option" u32
  | UpAt addr int
  | MoveAt move

fun mix_cstep ::
    "emproto \<Rightarrow> stack_garbage \<Rightarrow> addr set \<Rightarrow> ptrqueues \<Rightarrow> mix_state \<Rightarrow> mix_op \<Rightarrow> (unit \<times> mix_state) option" where
  "mix_cstep P g H q x TurnAt = do { x \<leftarrow> pass_step_at P g H q x; Some ((), x) }"
| "mix_cstep P g H q (z, a, s, w) (PostAt p ty intv res trg msg sz) =
     do { (r, s, w) \<leftarrow> post_task_at H q p ty intv res trg msg sz a s w; Some ((), z, a, s, w) }"
| "mix_cstep P g H q (z, a, s, w) (UpAt p fd) =
     do { (r, a, s, w) \<leftarrow> net_connected_at H q p (a\<lparr>net := (net a)\<lparr>nt_sockfd := fd\<rparr>\<rparr>) s w;
          Some ((), z, a, s, w) }"
| "mix_cstep P g H q (z, a, s, w) (MoveAt m) = (let (a, w) = move_step m a w in Some ((), z, a, s, w))"

fun choice_of :: "mix_op \<Rightarrow> choice" where
  "choice_of TurnAt = Turn"
| "choice_of (PostAt p ty intv res trg msg sz) = Other (Post ty intv res trg msg sz)"
| "choice_of (UpAt p fd) = Other (Up fd)"
| "choice_of (MoveAt m) = Other m"

definition mix_astep ::
    "emproto \<Rightarrow> stack_garbage \<Rightarrow> place \<times> emage \<times> env \<Rightarrow> mix_op \<Rightarrow> unit \<times> place \<times> emage \<times> env" where
  "mix_astep P g x y = ((), mix P g [choice_of y] x)"

fun mix_ok :: "addr set \<Rightarrow> mix_state \<Rightarrow> mix_op \<Rightarrow> bool" where
  "mix_ok H (z, a, s, w) (PostAt p ty intv res trg msg sz) \<longleftrightarrow> \<not> live H s p"
| "mix_ok H (z, a, s, w) (UpAt p fd) \<longleftrightarrow> \<not> live H s p"
| "mix_ok H x (MoveAt m) \<longleftrightarrow> (case m of Post ty intv res trg msg sz \<Rightarrow> False | Up fd \<Rightarrow> False | _ \<Rightarrow> True)"
| "mix_ok H x TurnAt \<longleftrightarrow> True"

section \<open>What the memory holds during a pass\<close>

fun held :: "place_at \<Rightarrow> addr set" where
  "held (PerformAt p) = {p}"
| "held (SettleAt op now p) = {p}"
| "held z = {}"

text \<open>The place of the model: the address stands for the task that is there.\<close>

fun place_of :: "emtask memory \<Rightarrow> place_at \<Rightarrow> place" where
  "place_of s PopAt = Pop"
| "place_of s (PerformAt p) = Perform (the (objs s p))"
| "place_of s (SettleAt op now p) = Settle op now (the (objs s p))"
| "place_of s FlushAt = Flush"
| "place_of s TellAt = Tell"
| "place_of s CloseAt = Close"
| "place_of s RequeueAt = Requeue"
| "place_of s OverAt = Over"

definition place_rel ::
    "addr set \<Rightarrow> ptrqueues \<Rightarrow> (addr \<Rightarrow> emtask entries option) \<Rightarrow> mix_state \<Rightarrow> place \<times> emage \<times> env \<Rightarrow> bool" where
  "place_rel H q F x y \<longleftrightarrow> (case (x, y) of ((z, a, s, w), (p, b, v)) \<Rightarrow>
     v = w \<and> p = place_of s z
     \<and> (\<exists>js ts. queues (held z \<union> refused a) H q F s js ts \<and> b = with_queues (map snd js) (map snd ts) a
         \<and> (\<forall>p \<in> held z. in_hands q F s js ts p (the (objs s p)))))"

lemma place_relI:
  assumes "queues (held z \<union> refused a) H q F s js ts" and "\<And>p. p \<in> held z \<Longrightarrow> \<exists>t. in_hands q F s js ts p t"
  shows "place_rel H q F (z, a, s, w) (place_of s z, with_queues (map snd js) (map snd ts) a, w)"
  using assms by (fastforce simp: place_rel_def in_hands_def)

lemma place_relE:
  assumes "place_rel H q F (z, a, s, w) (p, b, v)"
  obtains js ts where "v = w" "p = place_of s z" "queues (held z \<union> refused a) H q F s js ts"
    "b = with_queues (map snd js) (map snd ts) a" "\<And>p. p \<in> held z \<Longrightarrow> in_hands q F s js ts p (the (objs s p))"
  using assms by (auto simp: place_rel_def)

section \<open>A step of the pass\<close>

lemma with_queues_other [simp]:
  "(with_queues js ts a)\<lparr>trig := c\<rparr> = with_queues js ts (a\<lparr>trig := c\<rparr>)"
  "(with_queues js ts a)\<lparr>net := n\<rparr> = with_queues js ts (a\<lparr>net := n\<rparr>)"
  by (simp_all add: with_queues_def)

lemma refused_other [simp]: "refused (a\<lparr>trig := c\<rparr>) = refused a" "refused (a\<lparr>net := n\<rparr>) = refused a"
  by (simp_all add: refused_def)

lemma drop_queues_with_queues:
  "drop_queues (with_queues js ts a) w = (with_queues [] [] a, task_free_all js (task_free_all ts w))"
  by (auto simp: drop_queues_def with_queues_def Let_def intro!: emage.equality schctx.equality)

lemma step_pop:
  assumes q: "queues (refused a) H q F s js ts"
  shows "\<exists>x. pass_step_at P g H q (PopAt, a, s, w) = Some x
    \<and> place_rel H q F x (pass_step P g Pop (with_queues (map snd js) (map snd ts) a) w)"
proof (cases js)
  case Nil
  then have "place_rel H q F (RequeueAt, a, s, w) (place_of s RequeueAt, with_queues (map snd js) (map snd ts) a, w)"
    using q by (intro place_relI) simp_all
  then show ?thesis using queues_first [OF q] Nil by simp
next
  case (Cons x js')
  obtain p t where x: "x = (p, t)" by fastforce
  note q' = q [unfolded Cons x]
  obtain s' where s': "unlink_at H s p = Some s'" "queues (insert p (refused a)) H q F s' js' ts"
      "in_hands q F s' js' ts p t" using queues_pop(2) [OF q'] by blast
  then have "place_rel H q F (PerformAt p, a, s', w) (place_of s' (PerformAt p), with_queues (map snd js') (map snd ts) a, w)"
    by (intro place_relI) auto
  then show ?thesis using queues_first [OF q'] queues_pop(1) [OF q'] s'(1,3) Cons x
    by (simp add: in_hands_def)
qed

lemma step_perform:
  assumes q: "queues (insert p (refused a)) H q F s js ts" and h: "in_hands q F s js ts p t"
  shows "\<exists>x. pass_step_at P g H q (PerformAt p, a, s, w) = Some x
    \<and> place_rel H q F x (pass_step P g (Perform t) (with_queues (map snd js) (map snd ts) a) w)"
proof -
  let ?now = "clock w (clocks w)" and ?w = "w\<lparr>clocks := Suc (clocks w)\<rparr>"
  obtain op b u v where j: "sched_perform_job P g a t ?now ?w = (op, b, u, v)" by (rule prod_cases4)
  have r: "refused b = refused a" using sched_perform_job_frame(1) [OF j] by (simp add: refused_def)
  obtain s' where s': "write_obj s p u = Some s'" "queues (insert p (refused a)) H q F s' js ts"
      "in_hands q F s' js ts p u" using queues_write [OF q h] by blast
  have "place_rel H q F (SettleAt op ?now p, b, s', v)
      (place_of s' (SettleAt op ?now p), with_queues (map snd js) (map snd ts) b, v)"
    using s' r by (intro place_relI) auto
  then show ?thesis
    using h s'(1,3) j perform_job_with_queues [OF j, of "map snd js" "map snd ts"]
    by (simp add: in_hands_def clock_gettime_def)
qed

lemma step_settle:
  assumes q: "queues (insert p (refused a)) H q F s js ts" and h: "in_hands q F s js ts p t"
  shows "\<exists>x. pass_step_at P g H q (SettleAt op now p, a, s, w) = Some x
    \<and> place_rel H q F x (pass_step P g (Settle op now t) (with_queues (map snd js) (map snd ts) a) w)"
proof -
  have o: "objs s p = Some t" using h by (simp add: in_hands_def)
  have rel: "place_rel H q F (z, a, s', w') (place_of s' z, with_queues (map snd js') (map snd ts') a, w')"
    if "queues (refused a) H q F s' js' ts'" "held z = {}" for z s' js' ts' w'
    using that by (intro place_relI) simp_all
  show ?thesis
  proof (cases op)
    case TASK_NOT_ELAPSED
    obtain s' where "link_front H s p (pq_todo q) = Some s'" "queues (refused a) H q F s' js ((p, t) # ts)"
      using queues_push(1) [OF q h] by blast
    then show ?thesis using TASK_NOT_ELAPSED rel [of s' js "(p, t) # ts" PopAt w]
      by (simp add: settle_at_def settle_def)
  next
    case TASK_RESCHEDULE
    obtain s2 s4 s5 where
      "write_obj s p (t\<lparr>tk_issued := now\<rparr>) = Some s2" "link_front H s2 p (pq_todo q) = Some s4"
      "objs s4 p = Some (t\<lparr>tk_issued := now\<rparr>)"
      "(if tk_resch t > 0 then write_obj s4 p (t\<lparr>tk_issued := now, tk_resch := tk_resch t - 1\<rparr>) else Some s4) = Some s5"
      "queues (refused a) H q F s5 js ((p, task_again now t) # ts)"
      using put_again [OF q h, of now] by blast
    then show ?thesis using TASK_RESCHEDULE o rel [of s5 js "(p, task_again now t) # ts" PopAt w]
      by (cases "tk_resch t > 0") (simp_all add: settle_at_def settle_def)
  next
    case TASK_CONSUMED
    obtain s' where "task_free_at p s w = Some (s', task_free t w)" "queues (refused a) H q F s' js ts"
      using queues_free [OF q h] by blast
    then show ?thesis using TASK_CONSUMED rel [of s' js ts PopAt "task_free t w"]
      by (simp add: settle_at_def settle_def)
  next
    case TASK_NET_ERROR
    obtain s1 where s1: "task_free_at p s w = Some (s1, task_free t w)" "queues (refused a) H q F s1 js ts"
      using queues_free [OF q h] by blast
    obtain s2 where "drop_queues_at H q s1 (task_free t w) =
        Some (s2, task_free_all (map snd js) (task_free_all (map snd ts) (task_free t w)))"
        "queues (refused a) H q F s2 [] []" using queues_drop [OF s1(2)] by blast
    then show ?thesis using TASK_NET_ERROR s1(1)
        rel [of s2 "[]" "[]" FlushAt "task_free_all (map snd js) (task_free_all (map snd ts) (task_free t w))"]
      by (simp add: settle_at_def settle_def drop_queues_with_queues)
  qed
qed

lemma step_rest:
  assumes q: "queues (refused a) H q F s js ts" and z: "held z = {}" "z \<noteq> PopAt"
  shows "\<exists>x. pass_step_at P g H q (z, a, s, w) = Some x
    \<and> place_rel H q F x (pass_step P g (place_of s z) (with_queues (map snd js) (map snd ts) a) w)"
proof -
  have rel: "place_rel H q F (z, b, s, w') (place_of s z, with_queues (map snd js) (map snd ts) b, w')"
    if "refused b = refused a" "held z = {}" for z b w'
    using that q by (intro place_relI) simp_all
  show ?thesis
  proof (cases z)
    case FlushAt
    then show ?thesis using rel [of "a\<lparr>trig := fst (trig_flush (trig a) w)\<rparr>" TellAt "snd (trig_flush (trig a) w)"]
      by (simp add: split_beta)
  next
    case TellAt
    then show ?thesis using rel [of a CloseAt "tell_disconnected a w"]
      by (simp add: tell_disconnected_def with_queues_simps(5,6) cong: option.case_cong if_cong)
  next
    case CloseAt
    then show ?thesis
      using rel [of "a\<lparr>net := fst (snd (net_not_connected (net a) w))\<rparr>" OverAt "snd (snd (net_not_connected (net a) w))"]
      by (simp add: agent_not_connected_def split_beta)
  next
    case RequeueAt
    obtain s' where s': "each_safe H (requeue_body H q) (pq_todo q) s () = Some (False, s', ())"
        "queues (refused a) H q F s' (rev ts @ js) []" using queues_requeue [OF q] by blast
    have "place_rel H q F (OverAt, a, s', w) (place_of s' OverAt, with_queues (map snd (rev ts @ js)) (map snd ([] :: emtask entries)) a, w)"
      using s'(2) by (intro place_relI) simp_all
    then show ?thesis using RequeueAt s'(1) by (simp add: rev_map)
  next
    case OverAt
    then show ?thesis using rel [of a OverAt w] by simp
  qed (use z in simp_all)
qed

lemma turn_sim:
  assumes "place_rel H q F (z, a, s, w) (p, b, v)"
  shows "\<exists>x. pass_step_at P g H q (z, a, s, w) = Some x \<and> place_rel H q F x (pass_step P g p b v)"
proof -
  obtain js ts where r: "v = w" "p = place_of s z" "queues (held z \<union> refused a) H q F s js ts"
    "b = with_queues (map snd js) (map snd ts) a" "\<And>p. p \<in> held z \<Longrightarrow> in_hands q F s js ts p (the (objs s p))"
    using assms by (rule place_relE) blast
  show ?thesis
  proof (cases z)
    case PopAt
    then show ?thesis using step_pop [of a H q F s js ts P g w] r by simp
  next
    case (PerformAt p')
    then show ?thesis using step_perform [of p' a H q F s js ts "the (objs s p')" P g w] r by simp
  next
    case (SettleAt op now p')
    then show ?thesis using step_settle [of p' a H q F s js ts "the (objs s p')" P g op now w] r by simp
  qed (use step_rest [of a H q F s js ts z P g w] r in simp_all)
qed

section \<open>What comes between\<close>

lemma connected_with_queues:
  assumes q: "queues A H q F s js ts" and new: "\<not> live H s p" and A: "refused a \<subseteq> A"
    and b: "b = with_queues (map snd js) (map snd ts) a"
  obtains a' s' js' where "net_connected_at H q p a s w =
      Some (fst (net_connected b w), a', s', snd (snd (net_connected b w)))"
    "fst (snd (net_connected b w)) = with_queues (map snd js') (map snd ts) a'"
    "queues A H q F s' js' ts" "refused a' = refused a"
    "\<And>p2 t2. in_hands q F s js ts p2 t2 \<Longrightarrow> in_hands q F s' js' ts p2 t2"
proof -
  have n: "pq_jobs q \<noteq> pq_todo q" using q by (simp add: queues_def)
  obtain t w' where t: "task_alloc TASK_TYPE_HELLO 2000 (- 1) 0 None 0 w = (t, w')" by fastforce
  note defs = net_connected_at_def net_connected_def task_alloc_at_def t
  show thesis
  proof (cases t)
    case None
    then show thesis using q b by (intro that [of a s js]) (simp_all add: defs)
  next
    case (Some h)
    note c = create_in_hands [OF q new, of h]
    have keep: "in_hands q F (create s p h) js ts p2 t2 \<and> p2 \<noteq> p" if "in_hands q F s js ts p2 t2" for p2 t2
      using create_keeps_hands [OF n that new] .
    obtain s1 js1 h1 where s1: "sched_add_task_at H q p a (create s p h) w' =
        Some (fst (agent_add_task b h w'), s1, snd (snd (agent_add_task b h w')))"
        "queues A H q F s1 js1 ts" "fst (snd (agent_add_task b h w')) = with_queues (map snd js1) (map snd ts) a"
        "sc_stop (sched a) \<Longrightarrow> in_hands q F s1 js1 ts p h1"
        "sc_stop (sched a) \<Longrightarrow> tk_msg_size h1 = tk_msg_size h"
        "\<And>p2 t2. in_hands q F (create s p h) js ts p2 t2 \<Longrightarrow> p2 \<noteq> p \<Longrightarrow> in_hands q F s1 js1 ts p2 t2"
      by (rule add_task_with_queues [OF c A b]) blast
    show thesis
    proof (cases "sc_stop (sched a)")
      case False
      then show thesis using Some s1(1,2,3,6) keep b
        by (intro that [of "a\<lparr>net := (net a)\<lparr>nt_status := NET_STATUS_CONNECTED\<rparr>\<rparr>" s1 js1])
          (simp_all add: defs split_beta)
    next
      case True
      then have "A = UNIV" using A by (auto simp: refused_def)
      then obtain s2 where s2: "task_free_at p s1 (snd (snd (agent_add_task b h w'))) =
          Some (s2, task_free h1 (snd (snd (agent_add_task b h w'))))" "queues A H q F s2 js1 ts"
          "objs s2 = (objs s1)(p := None)"
        using queues_free [of p A H q F s1 js1 ts h1] s1(2,4) True by auto
      have fr: "task_free h1 v = task_free h v" for v using s1(5) True by (simp add: task_free_def)
      have "in_hands q F s2 js1 ts p2 t2" if "in_hands q F s js ts p2 t2" for p2 t2
        using keep [OF that] s1(6) [of p2 t2] in_hands_out [OF n] s2(3)
        by (auto intro: in_hands_keep)
      then show thesis using Some True s1(1,3) s2(1,2) b fr
        by (intro that [of a s2 js1]) (simp_all add: defs split_beta)
    qed
  qed
qed

text \<open>A move that makes no task does not look at the queues.\<close>

lemma move_with_queues:
  assumes "case m of Post ty intv res trg msg sz \<Rightarrow> False | Up fd \<Rightarrow> False | _ \<Rightarrow> True"
    and "move_step m a w = (a', w')"
  shows "move_step m (with_queues js ts a) w = (with_queues js ts a', w')" and "refused a' = refused a"
  using assms
  by (cases m; auto simp: enter_trig_def drop_inst_def agent_not_connected_def split_beta refused_def
      split: option.splits)+

section \<open>Sequences of steps\<close>

lemma place_rel_kept:
  assumes "queues (held z \<union> refused a') H q F s' js' ts" and "b = with_queues (map snd js') (map snd ts) a'"
    and "\<And>p. p \<in> held z \<Longrightarrow> in_hands q F s' js' ts p (the (objs s p))"
  shows "place_rel H q F (z, a', s', w) (place_of s z, b, w)"
proof -
  have "place_of s' z = place_of s z" using assms(3) by (cases z) (auto simp: in_hands_def)
  then show ?thesis using place_relI [of z a' H q F s' js' ts w] assms by (metis (full_types))
qed

lemma place_rel_kept_pair:
  assumes "queues (held z \<union> refused a') H q F s' js' ts" and "fst x = with_queues (map snd js') (map snd ts) a'"
    and "\<And>p. p \<in> held z \<Longrightarrow> in_hands q F s' js' ts p (the (objs s p))"
  shows "place_rel H q F (z, a', s', snd x) (place_of s z, x)"
  using place_rel_kept [OF assms, of "snd x"] by simp

lemma mix_sim:
  assumes rel: "place_rel H q F (z, a, s, w) (p, b, v)" and ok: "mix_ok H (z, a, s, w) y"
  shows "\<exists>c'. mix_cstep P g H q (z, a, s, w) y = Some (fst (mix_astep P g (p, b, v) y), c')
    \<and> place_rel H q F c' (snd (mix_astep P g (p, b, v) y))"
proof -
  obtain js ts where v: "v = w" and p: "p = place_of s z" and q: "queues (held z \<union> refused a) H q F s js ts"
    and b: "b = with_queues (map snd js) (map snd ts) a"
    and h: "\<And>p. p \<in> held z \<Longrightarrow> in_hands q F s js ts p (the (objs s p))"
    using rel by (rule place_relE) blast
  have A: "refused a \<subseteq> held z \<union> refused a" by simp
  show ?thesis
  proof (cases y)
    case TurnAt
    then show ?thesis using turn_sim [OF rel, of P g] by (auto simp: mix_astep_def)
  next
    case (PostAt p' ty intv res trg msg sz)
    have new: "\<not> live H s p'" using ok PostAt by simp
    obtain s' js' where "post_task_at H q p' ty intv res trg msg sz a s w =
        Some (fst (post_task ty intv res trg msg sz b w), s', snd (snd (post_task ty intv res trg msg sz b w)))"
      "queues (held z \<union> refused a) H q F s' js' ts"
      "fst (snd (post_task ty intv res trg msg sz b w)) = with_queues (map snd js') (map snd ts) a"
      "\<And>p2 t2. in_hands q F s js ts p2 t2 \<Longrightarrow> in_hands q F s' js' ts p2 t2"
      by (rule post_with_queues [OF q new A b]) blast
    then show ?thesis using PostAt v p h
      by (auto simp: mix_astep_def split_beta intro!: place_rel_kept_pair)
  next
    case (UpAt p' fd)
    let ?a = "a\<lparr>net := (net a)\<lparr>nt_sockfd := fd\<rparr>\<rparr>" and ?b = "b\<lparr>net := (net b)\<lparr>nt_sockfd := fd\<rparr>\<rparr>"
    have new: "\<not> live H s p'" using ok UpAt by simp
    have A': "refused ?a \<subseteq> held z \<union> refused a" by simp
    have b': "?b = with_queues (map snd js) (map snd ts) ?a" by (simp add: b)
    obtain a' s' js' where "net_connected_at H q p' ?a s w =
        Some (fst (net_connected ?b w), a', s', snd (snd (net_connected ?b w)))"
      "fst (snd (net_connected ?b w)) = with_queues (map snd js') (map snd ts) a'"
      "queues (held z \<union> refused a) H q F s' js' ts" "refused a' = refused ?a"
      "\<And>p2 t2. in_hands q F s js ts p2 t2 \<Longrightarrow> in_hands q F s' js' ts p2 t2"
      by (rule connected_with_queues [OF q new A' b']) blast
    then show ?thesis using UpAt v p h
      by (auto simp: mix_astep_def split_beta intro!: place_rel_kept_pair)
  next
    case (MoveAt m)
    obtain a' w' where m: "move_step m a w = (a', w')" by fastforce
    have ok': "case m of Post ty intv res trg msg sz \<Rightarrow> False | Up fd \<Rightarrow> False | _ \<Rightarrow> True"
      using ok MoveAt by simp
    note mv = move_with_queues [OF ok' m]
    show ?thesis using MoveAt v p h q m mv(1) [of "map snd js" "map snd ts"] mv(2) b
      by (auto simp: mix_astep_def intro!: place_rel_kept)
  qed
qed

interpretation ptm: simulation "place_rel H q F" "mix_cstep P g H q" "mix_astep P g" "mix_ok H"
proof unfold_locales
  show "\<exists>c'. mix_cstep P g H q c x = Some (fst (mix_astep P g a x), c')
      \<and> place_rel H q F c' (snd (mix_astep P g a x))"
    if "place_rel H q F c a" "mix_ok H c x" for c a x
    using that mix_sim [of H q F "fst c" "fst (snd c)" "fst (snd (snd c))" "snd (snd (snd c))"
      "fst a" "fst (snd a)" "snd (snd a)" x P g] by simp
qed

text \<open>The run of the model is the interleaving of theory \<open>Turns\<close>.\<close>

lemma arun_mix: "snd (arun (mix_astep P g) x ys) = mix P g (map choice_of ys) x"
proof (induction ys arbitrary: x)
  case (Cons y ys)
  then show ?case using mix_append [of P g "[choice_of y]" "map choice_of ys" x]
    by (simp add: mix_astep_def split_beta)
qed simp

end
