(* ===== verification/PtrCore.thy ===== *)
theory PtrCore
  imports Core Pointers
begin

text \<open>
  \<open>src/agent/core.c\<close> on the memory of theory \<open>Pointers\<close>: the list of agents as the code has it, the
  searches of the public calls on it, and the proof that the calls are those of theory \<open>Core\<close>.  The
  agents in the record of the core are not used here; the memory takes their place.
\<close>

section \<open>Operations\<close>

text \<open>\<open>core_release_agent\<close> ends with \<open>free(agent)\<close>.\<close>

definition core_release_agent_at :: "addr \<Rightarrow> emage memory \<Rightarrow> env \<Rightarrow> (emage memory \<times> env) option" where
  "core_release_agent_at p s w =
     do { a \<leftarrow> objs s p;
          let (r, w) = core_release_agent a w;
          s \<leftarrow> release s p;
          Some (s, w) }"

definition em_has_trigger_at ::
    "addr set \<Rightarrow> addr \<Rightarrow> u64 \<Rightarrow> i32 \<Rightarrow> emage memory \<Rightarrow> int option" where
  "em_has_trigger_at H r e tid s =
     do { q \<leftarrow> seek_entry H s (\<lambda>a. enb_id a = e) r;
          case q of
            None \<Rightarrow> Some 0
          | Some p \<Rightarrow>
              do { a \<leftarrow> objs s p;
                   Some (case trig_find_by_id (trig a) tid of None \<Rightarrow> 0 | Some _ \<Rightarrow> 1) } }"

definition em_del_trigger_at ::
    "addr set \<Rightarrow> addr \<Rightarrow> u64 \<Rightarrow> i32 \<Rightarrow> emage memory \<Rightarrow> env \<Rightarrow> (int \<times> emage memory \<times> env) option" where
  "em_del_trigger_at H r e tid s w =
     do { q \<leftarrow> seek_entry H s (\<lambda>a. enb_id a = e) r;
          case q of
            None \<Rightarrow> Some (0, s, w)
          | Some p \<Rightarrow>
              do { a \<leftarrow> objs s p;
                   let (d, ctx, w) = trig_del_by_id (trig a) tid w;
                   s \<leftarrow> write_obj s p (a\<lparr>trig := ctx\<rparr>);
                   Some (0, s, w) } }"

definition em_is_connected_at :: "addr set \<Rightarrow> addr \<Rightarrow> u64 \<Rightarrow> emage memory \<Rightarrow> int option" where
  "em_is_connected_at H r e s =
     do { q \<leftarrow> seek_entry H s (\<lambda>a. enb_id a = e) r;
          case q of
            None \<Rightarrow> Some 0
          | Some p \<Rightarrow>
              do { a \<leftarrow> objs s p;
                   Some (if nt_status (net a) = NET_STATUS_CONNECTED then 1 else 0) } }"

definition em_send_at ::
    "addr set \<Rightarrow> addr \<Rightarrow> u64 \<Rightarrow> bytes option \<Rightarrow> u32 \<Rightarrow> emage memory \<Rightarrow> env
      \<Rightarrow> (int \<times> emage memory \<times> env) option" where
  "em_send_at H r e msg sz s w =
     (case msg of
        None \<Rightarrow> Some (- 1, s, w)
      | Some m \<Rightarrow>
          if sz = 0 then Some (- 1, s, w)
          else do {
            q \<leftarrow> seek_entry H s (\<lambda>a. enb_id a = e) r;
            case q of
              None \<Rightarrow> Some (- 1, s, w)
            | Some p \<Rightarrow>
                do { a \<leftarrow> objs s p;
                     let (x, a, w) = core_send a m sz w;
                     s \<leftarrow> write_obj s p a;
                     Some (x, s, w) } })"

text \<open>The loop unlinks the agent and leaves; the agent is told and freed outside the lock.\<close>

definition term_body :: "addr set \<Rightarrow> u64 \<Rightarrow> (emage, addr option) loop_body" where
  "term_body H e p s w =
     do { a \<leftarrow> objs s p;
          if enb_id a = e then do { s \<leftarrow> unlink_at H s p; Some (True, s, Some p) }
          else Some (False, s, w) }"

definition em_terminate_agent_at ::
    "addr set \<Rightarrow> addr \<Rightarrow> u64 \<Rightarrow> emage memory \<Rightarrow> env \<Rightarrow> (int \<times> emage memory \<times> env) option" where
  "em_terminate_agent_at H r e s w =
     do { (f, s, q) \<leftarrow> each_safe H (term_body H e) r s None;
          case q of
            None \<Rightarrow> Some (0, s, w)
          | Some p \<Rightarrow>
              do { a \<leftarrow> objs s p;
                   let w = tell_release a w;
                   (s, w) \<leftarrow> core_release_agent_at p s w;
                   Some (0, s, w) } }"

text \<open>\<open>p\<close> is the address that \<open>malloc\<close> gives the new agent; each member is set where the agent is.\<close>

definition em_start_at ::
    "addr set \<Rightarrow> addr \<Rightarrow> addr \<Rightarrow> u64 \<Rightarrow> em_agent_ops option \<Rightarrow> bytes \<Rightarrow> u16 \<Rightarrow> core \<Rightarrow> emage memory \<Rightarrow> env
      \<Rightarrow> (int \<times> core \<times> emage memory \<times> env) option" where
  "em_start_at H r p e ops' addr port c s w =
     (case ops' of
        None \<Rightarrow> Some (- 1, c, s, w)
      | Some t \<Rightarrow>
          let (x, c, w) = core_initialize c w in
          do { q \<leftarrow> seek_entry H s (\<lambda>a. enb_id a = e) r;
          if q \<noteq> None
          then Some (- 1, c, s, EMLOG None ''em_start'' ''Agent eNB %d is already running...'' w)
          else
            let (ok, w) = malloc w in
            if \<not> ok then Some (- 1, c, s, w)
            else
              let (a, w) = new_agent e t addr port w;
                  s = create s p a;
                  (x, k, w) = sched_start e (sched a) w;
                  a = a\<lparr>sched := k\<rparr>
              in do { s \<leftarrow> write_obj s p a;
                 if x \<noteq> 0
                 then let w = EMLOG (Some e) ''em_start'' ''Failed to start the scheduler context'' w
                      in do { (s, w) \<leftarrow> core_release_agent_at p s w; Some (- 1, c, s, w) }
                 else
                   let (x, n, w) = net_start e (net a) w;
                       a = a\<lparr>net := n\<rparr>
                   in do { s \<leftarrow> write_obj s p a;
                      if x \<noteq> 0
                      then let w = EMLOG (Some e) ''em_start'' ''Failed to start the network context'' w
                           in do { (s, w) \<leftarrow> core_release_agent_at p s w; Some (- 1, c, s, w) }
                      else
                        case op_init t of
                          None \<Rightarrow> do { s \<leftarrow> link_front H s p r; Some (0, c, s, w) }
                        | Some i \<Rightarrow>
                            let w = call e CbInit w
                            in if i < 0
                               then do { (s, w) \<leftarrow> core_release_agent_at p s w; Some (i, c, s, w) }
                               else do { s \<leftarrow> link_front H s p r; Some (0, c, s, w) } } } })"

text \<open>The loop of \<open>em_stop\<close>: the first agent is unlinked, told and freed until the list is empty.\<close>

partial_function (option) release_all_at ::
    "addr set \<Rightarrow> addr \<Rightarrow> emage memory \<Rightarrow> env \<Rightarrow> (emage memory \<times> env) option" where
  "release_all_at H r s w =
     do { p \<leftarrow> read_next H s r;
          if p = r then Some (s, w)
          else do {
            s \<leftarrow> unlink_at H s p;
            a \<leftarrow> objs s p;
            (s, w) \<leftarrow> core_release_agent_at p s (tell_release a w);
            release_all_at H r s w } }"

definition em_stop_at :: "addr set \<Rightarrow> addr \<Rightarrow> emage memory \<Rightarrow> env \<Rightarrow> (int \<times> emage memory \<times> env) option" where
  "em_stop_at H r s w =
     do { (s, w) \<leftarrow> release_all_at H r s w;
          let w = EMLOG None ''em_stop'' ''Core shut down'' w;
          Some (0, s, log_release w) }"

section \<open>Calls one after the other\<close>

datatype api_op =
    ApiHasTrigger u64 i32
  | ApiDelTrigger u64 i32
  | ApiIsConnected u64
  | ApiSend u64 "bytes option" u32
  | ApiTerminate u64
  | ApiStart addr u64 "em_agent_ops option" bytes u16
  | ApiStop

type_synonym api_state = "core \<times> emage memory \<times> env"

fun api_cstep :: "addr set \<Rightarrow> addr \<Rightarrow> api_state \<Rightarrow> api_op \<Rightarrow> (int \<times> api_state) option" where
  "api_cstep H r (c, s, w) (ApiHasTrigger e i) =
     do { x \<leftarrow> em_has_trigger_at H r e i s; Some (x, c, s, w) }"
| "api_cstep H r (c, s, w) (ApiDelTrigger e i) =
     do { (x, s, w) \<leftarrow> em_del_trigger_at H r e i s w; Some (x, c, s, w) }"
| "api_cstep H r (c, s, w) (ApiIsConnected e) =
     do { x \<leftarrow> em_is_connected_at H r e s; Some (x, c, s, w) }"
| "api_cstep H r (c, s, w) (ApiSend e msg sz) =
     do { (x, s, w) \<leftarrow> em_send_at H r e msg sz s w; Some (x, c, s, w) }"
| "api_cstep H r (c, s, w) (ApiTerminate e) =
     do { (x, s, w) \<leftarrow> em_terminate_agent_at H r e s w; Some (x, c, s, w) }"
| "api_cstep H r (c, s, w) (ApiStart p e ops' addr port) = em_start_at H r p e ops' addr port c s w"
| "api_cstep H r (c, s, w) ApiStop =
     do { (x, s, w) \<leftarrow> em_stop_at H r s w; Some (x, c, s, w) }"

fun api_astep :: "core \<times> env \<Rightarrow> api_op \<Rightarrow> int \<times> core \<times> env" where
  "api_astep (c, w) (ApiHasTrigger e i) = (em_has_trigger e i c, c, w)"
| "api_astep (c, w) (ApiDelTrigger e i) = em_del_trigger e i c w"
| "api_astep (c, w) (ApiIsConnected e) = (em_is_connected e c, c, w)"
| "api_astep (c, w) (ApiSend e msg sz) = em_send e msg sz c w"
| "api_astep (c, w) (ApiTerminate e) = em_terminate_agent e c w"
| "api_astep (c, w) (ApiStart p e ops' addr port) = em_start e ops' addr port c w"
| "api_astep (c, w) ApiStop = em_stop c w"

fun api_ok :: "addr set \<Rightarrow> api_state \<Rightarrow> api_op \<Rightarrow> bool" where
  "api_ok H (c, s, w) (ApiStart p e ops' addr port) \<longleftrightarrow> \<not> live H s p"
| "api_ok H (c, s, w) x \<longleftrightarrow> True"

text \<open>The list at \<open>r\<close> holds the agents, the other lists are \<open>F\<close>, and every agent in memory is on a list.\<close>

definition agents ::
    "addr set \<Rightarrow> addr \<Rightarrow> (addr \<Rightarrow> emage entries option) \<Rightarrow> emage memory \<Rightarrow> emage entries \<Rightarrow> bool" where
  "agents H r F s xs \<longleftrightarrow> family H s (F(r \<mapsto> xs)) \<and> linked_but {} s (F(r \<mapsto> xs))"

definition api_rel ::
    "addr set \<Rightarrow> addr \<Rightarrow> (addr \<Rightarrow> emage entries option) \<Rightarrow> api_state \<Rightarrow> core \<times> env \<Rightarrow> bool" where
  "api_rel H r F x y \<longleftrightarrow> (case (x, y) of ((c, s, w), (b, v)) \<Rightarrow>
     v = w \<and> (\<exists>xs. agents H r F s xs \<and> b = c\<lparr>core_agents := map snd xs\<rparr>))"

section \<open>Each call\<close>

lemma put_agent_split:
  "\<forall>u \<in> set us. enb_id u \<noteq> e \<Longrightarrow> enb_id a = e \<Longrightarrow> put_agent e b (us @ a # vs) = us @ b # vs"
  by (induction us) auto

lemma find_append_miss: "\<forall>u \<in> set us. \<not> P u \<Longrightarrow> List.find P (us @ vs) = List.find P vs"
  by (induction us) auto

lemma agents_seek:
  assumes "agents H r F s xs"
  obtains (miss) "seek_entry H s (\<lambda>a. enb_id a = e) r = Some None" "find_agent e (map snd xs) = None"
  | (hit) us p a vs where "xs = us @ (p, a) # vs" "seek_entry H s (\<lambda>a. enb_id a = e) r = Some (Some p)"
      "find_agent e (map snd xs) = Some a" "objs s p = Some a"
      "\<And>b. put_agent e b (map snd xs) = map snd us @ b # map snd vs"
      "delete_first (\<lambda>a. enb_id a = e) (map snd xs) = map snd us @ map snd vs"
      "List.find (\<lambda>x. enb_id (snd x) = e) xs = Some (p, a)"
proof -
  have f: "family H s (F(r \<mapsto> xs))" and r: "(F(r \<mapsto> xs)) r = Some xs"
    using assms by (simp_all add: agents_def)
  show thesis
  proof (cases rule: seek_cases [OF f r, of "\<lambda>a. enb_id a = e", case_names miss' hit'])
    case miss'
    then show ?thesis by (intro miss) (simp_all add: find_agent_def)
  next
    case (hit' us p a vs)
    then show ?thesis
      by (intro hit [of us p a vs])
        (simp_all add: find_agent_def put_agent_split delete_first_split find_append_miss)
  qed
qed

lemma agents_write:
  assumes "agents H r F s (xs @ (p, a) # ys)"
  shows "\<exists>s'. write_obj s p b = Some s' \<and> agents H r F s' (xs @ (p, b) # ys)"
  using family_write_linked [of H s "F(r \<mapsto> xs @ (p, a) # ys)" r xs p a ys "{}" b] assms
  by (simp add: agents_def)

text \<open>An agent that is on no list yet, or no longer.\<close>

definition apart_agent ::
    "addr set \<Rightarrow> addr \<Rightarrow> (addr \<Rightarrow> emage entries option) \<Rightarrow> emage memory \<Rightarrow> emage entries \<Rightarrow> addr \<Rightarrow> emage
      \<Rightarrow> bool" where
  "apart_agent H r F s xs p a \<longleftrightarrow> family H s (F(r \<mapsto> xs)) \<and> linked_but {p} s (F(r \<mapsto> xs))
     \<and> loose (F(r \<mapsto> xs)) p \<and> objs s p = Some a"

lemma agents_unlink:
  assumes "agents H r F s (xs @ (p, a) # ys)"
  shows "\<exists>s'. unlink_at H s p = Some s' \<and> apart_agent H r F s' (xs @ ys) p a"
proof -
  let ?F = "F(r \<mapsto> xs @ (p, a) # ys)"
  have f: "family H s ?F" and l: "linked_but {} s ?F" and r: "?F r = Some (xs @ (p, a) # ys)"
    using assms by (simp_all add: agents_def)
  obtain s' where s': "unlink_at H s p = Some s'" "family H s' (?F(r \<mapsto> xs @ ys))" "objs s' = objs s"
    using family_unlink [OF f r] by blast
  have "linked_but {p} s' (?F(r \<mapsto> xs @ ys))"
    by (rule linked_but_relink [OF l r, where B = "{p}"]) (auto simp: s'(3))
  then show ?thesis using s' loose_unlinked [OF f r, unfolded fun_upd_upd] by (simp add: apart_agent_def)
qed

lemma agents_create:
  assumes "agents H r F s xs" and "\<not> live H s p"
  shows "apart_agent H r F (create s p a) xs p a"
  using family_create [of H s "F(r \<mapsto> xs)" p] assms
  by (auto simp: agents_def apart_agent_def linked_but_def create_def)

lemma apart_write:
  assumes "apart_agent H r F s xs p a"
  shows "\<exists>s'. write_obj s p b = Some s' \<and> apart_agent H r F s' xs p b"
proof -
  obtain s' where "write_obj s p b = Some s'" "family H s' (F(r \<mapsto> xs))" "objs s' = (objs s)(p \<mapsto> b)"
    using family_write [of H s "F(r \<mapsto> xs)" p a b] assms by (auto simp: apart_agent_def)
  then show ?thesis using assms by (auto simp: apart_agent_def linked_but_def)
qed

lemma apart_release:
  assumes "apart_agent H r F s xs p a"
  shows "\<exists>s'. core_release_agent_at p s w = Some (s', snd (core_release_agent a w)) \<and> agents H r F s' xs"
proof -
  obtain s' where "release s p = Some s'" "family H s' (F(r \<mapsto> xs))" "objs s' = (objs s)(p := None)"
    using family_release [of H s "F(r \<mapsto> xs)" p a] assms by (auto simp: apart_agent_def)
  then show ?thesis using assms
    by (auto simp: apart_agent_def agents_def linked_but_def core_release_agent_at_def split_beta)
qed

lemma apart_link:
  assumes "apart_agent H r F s xs p a"
  shows "\<exists>s'. link_front H s p r = Some s' \<and> agents H r F s' ((p, a) # xs)"
proof -
  let ?F = "F(r \<mapsto> xs)"
  have l: "linked_but {p} s ?F" and r: "?F r = Some xs" using assms by (simp_all add: apart_agent_def)
  obtain s' where s': "link_front H s p r = Some s'" "family H s' (?F(r \<mapsto> (p, a) # xs))" "objs s' = objs s"
    using family_link_front [of H s ?F r xs p a] assms by (auto simp: apart_agent_def)
  have "linked_but {} s' (?F(r \<mapsto> (p, a) # xs))"
    by (rule linked_but_relink [OF l r, where B = "{p}"]) (auto simp: s'(3))
  then show ?thesis using s' by (simp add: agents_def)
qed

lemma term_loop:
  assumes a: "agents H r F s xs"
  shows "find_agent e (map snd xs) = None \<Longrightarrow> each_safe H (term_body H e) r s None = Some (False, s, None)"
    and "xs = us @ (p, b) # vs \<Longrightarrow> find_agent e (map snd xs) = Some b \<Longrightarrow>
      List.find (\<lambda>x. enb_id (snd x) = e) xs = Some (p, b) \<Longrightarrow>
      \<exists>s'. each_safe H (term_body H e) r s None = Some (True, s', Some p) \<and> apart_agent H r F s' (us @ vs) p b"
proof -
  have f: "family H s (F(r \<mapsto> xs))" and r: "(F(r \<mapsto> xs)) r = Some xs" using a by (simp_all add: agents_def)
  have skip: "term_body H e p s None = Some (False, s, None)" if "(p, b) \<in> set xs" "\<not> enb_id b = e" for p b
    using familyD(3) [OF f r that(1)] that(2) by (simp add: term_body_def)
  have hit: "\<exists>s' w'. term_body H e p s None = Some (True, s', w')" if "(p, b) \<in> set xs" "enb_id b = e" for p b
  proof -
    from split_list [OF that(1)] obtain us vs where "xs = us @ (p, b) # vs" by blast
    then show ?thesis using agents_unlink [of H r F s us p b vs] a familyD(3) [OF f r that(1)] that(2)
      by (auto simp: term_body_def)
  qed
  have e: "each_safe H (term_body H e) r s None =
      (case List.find ((\<lambda>a. enb_id a = e) \<circ> snd) xs of None \<Rightarrow> Some (False, s, None)
       | Some x \<Rightarrow> term_body H e (fst x) s None)"
    by (rule each_first [where P = "\<lambda>a. enb_id a = e" and body = "term_body H e", OF f r skip hit])
  show "each_safe H (term_body H e) r s None = Some (False, s, None)" if "find_agent e (map snd xs) = None"
  proof -
    have "List.find ((\<lambda>a. enb_id a = e) \<circ> snd) xs = None"
      using that by (auto simp: find_agent_def find_None_iff_ball)
    then show ?thesis using e by simp
  qed
  show "\<exists>s'. each_safe H (term_body H e) r s None = Some (True, s', Some p) \<and> apart_agent H r F s' (us @ vs) p b"
    if "xs = us @ (p, b) # vs" "find_agent e (map snd xs) = Some b"
      "List.find (\<lambda>x. enb_id (snd x) = e) xs = Some (p, b)"
    using e agents_unlink [of H r F s us p b vs] a familyD(3) [OF f r, of p b] that
      find_SomeD [OF that(3)]
    by (auto simp: term_body_def comp_def)
qed

lemma release_loop:
  assumes "agents H r F s xs"
  shows "\<exists>s'. release_all_at H r s w = Some (s', release_all (map snd xs) w) \<and> agents H r F s' []"
  using assms
proof (induction xs arbitrary: s w)
  case Nil
  then have "read_next H s r = Some r"
    using family_first [of H s "F(r \<mapsto> [])" r "[]"] by (simp add: agents_def)
  then show ?case using Nil by (subst release_all_at.simps) simp
next
  case (Cons x xs)
  obtain p a where x: "x = (p, a)" by fastforce
  have f: "family H s (F(r \<mapsto> x # xs))" using Cons.prems by (simp add: agents_def)
  have n: "read_next H s r = Some p" using family_first [OF f, of r "x # xs"] x by simp
  have "p \<noteq> r" using family_next(2) [OF f, of r "[]" x xs] x by simp
  obtain s1 where s1: "unlink_at H s p = Some s1" "apart_agent H r F s1 xs p a"
    using agents_unlink [of H r F s "[]" p a xs] Cons.prems x by auto
  then have o: "objs s1 p = Some a" by (simp add: apart_agent_def)
  obtain s2 where s2: "core_release_agent_at p s1 (tell_release a w) =
      Some (s2, snd (core_release_agent a (tell_release a w)))" "agents H r F s2 xs"
    using apart_release [OF s1(2)] by blast
  from Cons.IH [OF s2(2)] show ?case using n \<open>p \<noteq> r\<close> s1(1) s2(1) o x
    by (subst release_all_at.simps) (auto simp: split_beta)
qed

text \<open>The part of \<open>em_start\<close> behind the search that finds no agent with the id.\<close>

lemma start_fresh:
  assumes a: "agents H r F s xs" and new: "\<not> live H s p"
    and i: "core_initialize c w = (x0, c0, w0)"
      "core_initialize (c\<lparr>core_agents := map snd xs\<rparr>) w = (x0, c0\<lparr>core_agents := map snd xs\<rparr>, w0)"
    and 1: "seek_entry H s (\<lambda>a. enb_id a = e) r = Some None" "find_agent e (map snd xs) = None"
  shows "\<exists>c' s' ys. em_start_at H r p e (Some t) addr port c s w =
      Some (fst (em_start e (Some t) addr port (c\<lparr>core_agents := map snd xs\<rparr>) w), c', s',
        snd (snd (em_start e (Some t) addr port (c\<lparr>core_agents := map snd xs\<rparr>) w)))
    \<and> agents H r F s' ys
    \<and> fst (snd (em_start e (Some t) addr port (c\<lparr>core_agents := map snd xs\<rparr>) w)) = c'\<lparr>core_agents := map snd ys\<rparr>"
proof -
  obtain ok w1 where m: "malloc w0 = (ok, w1)" by fastforce
  obtain a0 w2 where n: "new_agent e t addr port w1 = (a0, w2)" by fastforce
  obtain x1 k w3 where ss: "sched_start e (sched a0) w2 = (x1, k, w3)" by (rule prod_cases3)
  let ?a1 = "a0\<lparr>sched := k\<rparr>"
  obtain x2 l w4 where ns: "net_start e (net a0) w3 = (x2, l, w4)" by (rule prod_cases3)
  let ?a2 = "?a1\<lparr>net := l\<rparr>"
  obtain s1 where s1: "write_obj (create s p a0) p ?a1 = Some s1" "apart_agent H r F s1 xs p ?a1"
    using apart_write [OF agents_create [OF a new]] by blast
  obtain s2 where s2: "write_obj s1 p ?a2 = Some s2" "apart_agent H r F s2 xs p ?a2"
    using apart_write [OF s1(2)] by blast
  have rel1: "\<exists>s'. core_release_agent_at p s1 v = Some (s', snd (core_release_agent ?a1 v)) \<and> agents H r F s' xs" for v
    by (rule apart_release [OF s1(2)])
  have rel2: "\<exists>s'. core_release_agent_at p s2 v = Some (s', snd (core_release_agent ?a2 v)) \<and> agents H r F s' xs" for v
    by (rule apart_release [OF s2(2)])
  obtain s3 where s3: "link_front H s2 p r = Some s3" "agents H r F s3 ((p, ?a2) # xs)"
    using apart_link [OF s2(2)] by blast
  note defs = em_start_at_def em_start_def i 1 m n ss ns s1(1) s2(1) s3(1) Let_def split_beta
  show ?thesis
  proof (cases "ok \<and> x1 = 0 \<and> x2 = 0")
    case False
    then show ?thesis using a rel1 [of "EMLOG (Some e) ''em_start'' ''Failed to start the scheduler context'' w3"]
        rel2 [of "EMLOG (Some e) ''em_start'' ''Failed to start the network context'' w4"]
      by (cases ok; cases "x1 = 0") (auto simp: defs)
  next
    case True
    show ?thesis
    proof (cases "\<exists>j. op_init t = Some j \<and> j < 0")
      case True
      then show ?thesis using rel2 [of "call e CbInit w4"] \<open>ok \<and> x1 = 0 \<and> x2 = 0\<close> by (auto simp: defs)
    next
      case False
      then show ?thesis using s3(2) \<open>ok \<and> x1 = 0 \<and> x2 = 0\<close>
        by (intro exI [of _ c0] exI [of _ s3] exI [of _ "(p, ?a2) # xs"])
          (cases "op_init t"; simp add: defs)
    qed
  qed
qed

lemma start_at:
  assumes a: "agents H r F s xs" and new: "\<not> live H s p"
  shows "\<exists>c' s' ys. em_start_at H r p e ops' addr port c s w =
      Some (fst (em_start e ops' addr port (c\<lparr>core_agents := map snd xs\<rparr>) w), c', s',
        snd (snd (em_start e ops' addr port (c\<lparr>core_agents := map snd xs\<rparr>) w)))
    \<and> agents H r F s' ys
    \<and> fst (snd (em_start e ops' addr port (c\<lparr>core_agents := map snd xs\<rparr>) w)) = c'\<lparr>core_agents := map snd ys\<rparr>"
proof (cases ops')
  case None
  then show ?thesis using a by (auto simp: em_start_at_def em_start_def)
next
  case (Some t)
  obtain x0 c0 w0 where i: "core_initialize c w = (x0, c0, w0)" by (rule prod_cases3)
  then have i': "core_initialize (c\<lparr>core_agents := map snd xs\<rparr>) w = (x0, c0\<lparr>core_agents := map snd xs\<rparr>, w0)"
    by (auto simp: core_initialize_def split: if_splits prod.splits)
  show ?thesis
  proof (cases rule: agents_seek [OF a, of e])
    case 2
    then show ?thesis using Some i i' a by (auto simp: em_start_at_def em_start_def)
  next
    case 1
    show ?thesis unfolding Some by (rule start_fresh [OF a new i i' 1])
  qed
qed

text \<open>The simulation, call by call; \<open>ends\<close> says that an outcome in memory is that of the model.\<close>

definition ends ::
    "addr set \<Rightarrow> addr \<Rightarrow> (addr \<Rightarrow> emage entries option) \<Rightarrow> (int \<times> api_state) option \<Rightarrow> int \<times> core \<times> env
      \<Rightarrow> bool" where
  "ends H r F x y \<longleftrightarrow> (\<exists>c'. x = Some (fst y, c') \<and> api_rel H r F c' (snd y))"

lemma endsI:
  assumes "agents H r F s ys"
  shows "ends H r F (Some (x, c, s, w)) (x, c\<lparr>core_agents := map snd ys\<rparr>, w)"
  unfolding ends_def api_rel_def using assms by auto

lemma api_del_trigger:
  assumes a: "agents H r F s xs"
  shows "ends H r F (api_cstep H r (c, s, w) (ApiDelTrigger e i))
    (em_del_trigger e i (c\<lparr>core_agents := map snd xs\<rparr>) w)"
proof (cases rule: agents_seek [OF a, of e])
  case 1
  then show ?thesis using endsI [OF a] by (simp add: em_del_trigger_at_def em_del_trigger_def)
next
  case (2 us p t vs)
  obtain d ctx w' where d: "trig_del_by_id (trig t) i w = (d, ctx, w')" by (rule prod_cases3)
  obtain s' where "write_obj s p (t\<lparr>trig := ctx\<rparr>) = Some s'" "agents H r F s' (us @ (p, t\<lparr>trig := ctx\<rparr>) # vs)"
    using agents_write [of H r F s us p t vs] a 2(1) by blast
  then show ?thesis using 2 d endsI [of H r F s' "us @ (p, t\<lparr>trig := ctx\<rparr>) # vs" 0 c w']
    by (simp add: em_del_trigger_at_def em_del_trigger_def)
qed

lemma api_send:
  assumes a: "agents H r F s xs"
  shows "ends H r F (api_cstep H r (c, s, w) (ApiSend e msg sz))
    (em_send e msg sz (c\<lparr>core_agents := map snd xs\<rparr>) w)"
proof (cases "msg = None \<or> sz = 0")
  case True
  then show ?thesis using endsI [OF a] by (cases msg) (auto simp: em_send_at_def em_send_def)
next
  case False
  then obtain m where m: "msg = Some m" "sz \<noteq> 0" by auto
  show ?thesis
  proof (cases rule: agents_seek [OF a, of e])
    case 1
    then show ?thesis using endsI [OF a] m by (simp add: em_send_at_def em_send_def)
  next
    case (2 us p t vs)
    obtain d t' w' where d: "core_send t m sz w = (d, t', w')" by (rule prod_cases3)
    obtain s' where "write_obj s p t' = Some s'" "agents H r F s' (us @ (p, t') # vs)"
      using agents_write [of H r F s us p t vs] a 2(1) by blast
    then show ?thesis using 2 d m endsI [of H r F s' "us @ (p, t') # vs" d c w']
      by (simp add: em_send_at_def em_send_def)
  qed
qed

lemma api_terminate:
  assumes a: "agents H r F s xs"
  shows "ends H r F (api_cstep H r (c, s, w) (ApiTerminate e))
    (em_terminate_agent e (c\<lparr>core_agents := map snd xs\<rparr>) w)"
proof (cases rule: agents_seek [OF a, of e])
  case 1
  then show ?thesis using term_loop(1) [OF a 1(2)] endsI [OF a]
    by (simp add: em_terminate_agent_at_def em_terminate_agent_def)
next
  case (2 us p t vs)
  obtain s1 where s1: "each_safe H (term_body H e) r s None = Some (True, s1, Some p)"
      "apart_agent H r F s1 (us @ vs) p t"
    using term_loop(2) [OF a 2(1,3,7)] by blast
  obtain s2 where "core_release_agent_at p s1 (tell_release t w) =
      Some (s2, snd (core_release_agent t (tell_release t w)))" "agents H r F s2 (us @ vs)"
    using apart_release [OF s1(2)] by blast
  moreover have "objs s1 p = Some t" using s1(2) by (simp add: apart_agent_def)
  ultimately show ?thesis
    using 2 s1(1) endsI [of H r F s2 "us @ vs" 0 c "snd (core_release_agent t (tell_release t w))"]
    by (simp add: em_terminate_agent_at_def em_terminate_agent_def split_beta)
qed

lemma api_start:
  assumes a: "agents H r F s xs" and new: "\<not> live H s p"
  shows "ends H r F (api_cstep H r (c, s, w) (ApiStart p e ops' addr port))
    (em_start e ops' addr port (c\<lparr>core_agents := map snd xs\<rparr>) w)"
proof -
  let ?y = "em_start e ops' addr port (c\<lparr>core_agents := map snd xs\<rparr>) w"
  obtain c' s' ys where "em_start_at H r p e ops' addr port c s w = Some (fst ?y, c', s', snd (snd ?y))"
      "agents H r F s' ys" "fst (snd ?y) = c'\<lparr>core_agents := map snd ys\<rparr>"
    using start_at [OF a new] by blast
  then show ?thesis using endsI [of H r F s' ys "fst ?y" c' "snd (snd ?y)"] by (metis api_cstep.simps(6) prod.collapse)
qed

lemma api_stop:
  assumes a: "agents H r F s xs"
  shows "ends H r F (api_cstep H r (c, s, w) ApiStop) (em_stop (c\<lparr>core_agents := map snd xs\<rparr>) w)"
proof -
  obtain s' where "release_all_at H r s w = Some (s', release_all (map snd xs) w)" "agents H r F s' []"
    using release_loop [OF a] by blast
  then show ?thesis using endsI [of H r F s' "[]" 0 c]
    by (simp add: em_stop_at_def em_stop_def Let_def)
qed

lemma api_look:
  assumes a: "agents H r F s xs"
  shows "em_has_trigger_at H r e i s = Some (em_has_trigger e i (c\<lparr>core_agents := map snd xs\<rparr>))"
    and "em_is_connected_at H r e s = Some (em_is_connected e (c\<lparr>core_agents := map snd xs\<rparr>))"
  by (cases rule: agents_seek [OF a, of e];
      simp add: em_has_trigger_at_def em_has_trigger_def em_is_connected_at_def em_is_connected_def)+

lemma api_sim:
  assumes rel: "api_rel H r F (c, s, w) (b, v)" and ok: "api_ok H (c, s, w) x"
  shows "ends H r F (api_cstep H r (c, s, w) x) (api_astep (b, v) x)"
proof -
  obtain xs where v: "v = w" and a: "agents H r F s xs" and b: "b = c\<lparr>core_agents := map snd xs\<rparr>"
    using rel by (auto simp: api_rel_def)
  note look = api_look [OF a, where c = c] endsI [OF a]
  note calls = api_del_trigger [OF a] api_send [OF a] api_terminate [OF a] api_start [OF a] api_stop [OF a]
  show ?thesis
    using ok by (cases x) (simp_all add: v b look calls del: api_cstep.simps(2,4-7))
qed

interpretation ptc: simulation "api_rel H r F" "api_cstep H r" api_astep "api_ok H"
proof unfold_locales
  show "\<exists>c'. api_cstep H r c x = Some (fst (api_astep a x), c') \<and> api_rel H r F c' (snd (api_astep a x))"
    if "api_rel H r F c a" "api_ok H c x" for c a x
    using that api_sim [of H r F "fst c" "fst (snd c)" "snd (snd c)" "fst a" "snd a" x] by (simp add: ends_def)
qed

end
