(* ===== verification/PtrProps.thy ===== *)
theory PtrProps
  imports PtrTriggers PtrTurns PtrCore Demo
begin

text \<open>
  The registry of triggers, the queues of the scheduler and the list of agents in memory: what their operations compute,
  that they touch allocated memory only, and that they lose nothing.
\<close>

section \<open>Memory to start with\<close>

text \<open>\<open>INIT_LIST_HEAD\<close> on a head that is not in use.\<close>

definition init_head :: "'v memory \<Rightarrow> addr \<Rightarrow> 'v memory" where
  "init_head s r = s\<lparr>nodes := INIT_LIST_HEAD (nodes s) r\<rparr>"

lemma family_init_head:
  assumes f: "family H s F" and r: "r \<in> H" "F r = None"
  shows "family H (init_head s r) (F(r \<mapsto> []))"
proof -
  have out: "r \<notin> addrs xs" if "F q = Some xs" for q xs
  proof
    assume "r \<in> addrs xs"
    then obtain v where "(r, v) \<in> set xs" using addrs_in by blast
    then show False using familyD(3,5) [OF f that] r(1) by fastforce
  qed
  have d: "dlist (INIT_LIST_HEAD (nodes s) r) q (map fst xs)" if "F q = Some xs" for q xs
    using familyD(2) [OF f that] out [OF that] r(2) that by (intro dlist_INIT_other) auto
  have ap: "apart r [] q (map fst xs)" if "F q = Some xs" for q xs
    using out [OF that] r(2) that by (auto simp: apart_def)
  show ?thesis
    unfolding family_def
  proof (intro conjI allI impI)
    show "dom (F(r \<mapsto> [])) \<subseteq> H" and "\<forall>p \<in> H. objs (init_head s r) p = None"
      using f r(1) by (auto simp: family_def init_head_def)
    fix q xs assume q: "(F(r \<mapsto> [])) q = Some xs"
    show "dlist (nodes (init_head s r)) q (map fst xs)"
      using q d by (auto simp: init_head_def dlist_INIT split: if_splits)
    show "\<forall>(p, v) \<in> set xs. objs (init_head s r) p = Some v"
      using q familyD(3) [OF f] by (fastforce simp: init_head_def split: if_splits)
    fix q' xs' assume "(F(r \<mapsto> [])) q' = Some xs'" and "q \<noteq> q'"
    then show "apart q (map fst xs) q' (map fst xs')"
      using q ap familyD(6) [OF f] by (auto split: if_splits simp: apart_sym [of _ _ r])
  qed
qed

lemma linked_but_init_head:
  assumes "linked_but A s F" and "F r = None"
  shows "linked_but A (init_head s r) (F(r \<mapsto> []))"
  unfolding linked_but_def
proof (intro allI impI)
  fix p assume p: "objs (init_head s r) p \<noteq> None" "loose (F(r \<mapsto> [])) p"
  have "loose F p"
  proof (rule looseI)
    show "p \<notin> addrs xs" if "F q = Some xs" for q xs
      using looseD [OF p(2), of q xs] that assms(2) by (cases "q = r") auto
  qed
  then show "p \<in> A" using assms(1) p(1) by (auto simp: linked_but_def init_head_def)
qed

definition empty_memory :: "'v memory" where
  "empty_memory = \<lparr>nodes = (\<lambda>_. \<lparr>lnext = 0, lprev = 0\<rparr>), objs = (\<lambda>_. None)\<rparr>"

lemma empty_memory: "family H empty_memory (\<lambda>_. None)" "linked_but {} empty_memory (\<lambda>_. None)"
  by (simp_all add: family_def linked_but_def empty_memory_def)

lemma empty_registry:
  "reg_rel {r} (\<lambda>_. None) (\<lparr>px_ts = r, px_next = 1\<rparr>, init_head empty_memory r, w) (trig_ctx_init, w)"
  using family_init_head [OF empty_memory(1), of r "{r}"] linked_but_init_head [OF empty_memory(2), of r]
  by (auto simp: reg_rel_def trig_ctx_init_def intro!: exI [of _ "[]"])

lemma empty_queues:
  assumes "j \<noteq> t"
  shows "queue_rel {j, t} \<lparr>pq_jobs = j, pq_todo = t\<rparr> (\<lambda>_. None)
    (with_queues [] [] a, init_head (init_head empty_memory j) t, w) (with_queues [] [] a, w)"
proof -
  let ?F = "[j \<mapsto> []] :: addr \<Rightarrow> emtask entries option"
  have f: "family {j, t} (init_head empty_memory j) ?F" "linked_but {} (init_head empty_memory j) ?F"
    using family_init_head [OF empty_memory(1), of j "{j, t}"] linked_but_init_head [OF empty_memory(2), of j]
    by auto
  have "family {j, t} (init_head (init_head empty_memory j) t) (?F(t \<mapsto> []))"
    "linked_but {} (init_head (init_head empty_memory j) t) (?F(t \<mapsto> []))"
    using family_init_head [OF f(1), of t] linked_but_init_head [OF f(2), of t] assms by auto
  then show ?thesis using assms
    by (auto simp: queue_rel_def queues_def refused_def linked_but_def intro!: exI [of _ "[]"])
qed

lemma empty_agents:
  "api_rel {r} r (\<lambda>_. None) (c\<lparr>core_agents := []\<rparr>, init_head empty_memory r, w) (c\<lparr>core_agents := []\<rparr>, w)"
  using family_init_head [OF empty_memory(1), of r "{r}"] linked_but_init_head [OF empty_memory(2), of r]
  by (auto simp: api_rel_def agents_def intro!: exI [of _ "[]"])

section \<open>Properties\<close>

text \<open>
  (C11) The registry of triggers in memory is the list of the model.  Whatever triggers are added,
  removed by identifier or by key, looked up and flushed, in any order and with the addresses that
  \<open>malloc\<close> likes, as long as they are not in use: every loop ends, no operation reads or
  writes memory that is not allocated or frees twice, the answers, the counter and the accounts are
  those of the model's operations, every trigger still allocated is on a list, and the other lists
  in memory are as they were.
\<close>

theorem registry_in_memory:
  assumes "reg_rel H F c a" and "allowed (reg_cstep H) (reg_ok H) c xs"
  shows "\<exists>c'. crun (reg_cstep H) c xs = Some (fst (arun reg_astep a xs), c')
    \<and> reg_rel H F c' (snd (arun reg_astep a xs))"
  by (rule ptr.run [OF assms])

text \<open>At address 200 a trigger is made, found, removed, and made again.\<close>

lemma registry_in_memory_witness:
  "\<exists>c'. crun (reg_cstep {100}) (\<lparr>px_ts = 100, px_next = 1\<rparr>, init_head empty_memory 100, demo_env)
      [RAdd 200 7 TR_TYPE_UE_REP 0 (Some [1]) 1, RFindId 1, RDelId 1, RFindId 1, RDelId 1] =
    Some ([Ident 1, Found (Some ((trig_init 7 TR_TYPE_UE_REP 0 (Some [1]) 1)\<lparr>tr_id := 1\<rparr>)), Status 0,
      Found None, Status (- 1)], c')"
proof -
  let ?c = "(\<lparr>px_ts = 100, px_next = 1\<rparr>, init_head empty_memory 100, demo_env) :: ptrstate"
  let ?a = "RAdd 200 7 TR_TYPE_UE_REP 0 (Some [1]) 1"
  have "allowed (reg_cstep {100}) (reg_ok {100}) ?c [?a, RFindId 1, RDelId 1, RFindId 1, RDelId 1]"
    by (auto simp: live_def init_head_def empty_memory_def split: option.split prod.split)
  from registry_in_memory [OF empty_registry this] obtain c' where
    c': "crun (reg_cstep {100}) ?c [?a, RFindId 1, RDelId 1, RFindId 1, RDelId 1] =
      Some (fst (arun reg_astep (trig_ctx_init, demo_env) [?a, RFindId 1, RDelId 1, RFindId 1, RDelId 1]), c')"
    by blast
  obtain w where w: "trig_alloc 7 TR_TYPE_UE_REP 0 (Some [1]) 1 demo_env =
      (Some (trig_init 7 TR_TYPE_UE_REP 0 (Some [1]) 1), w)"
    using fst_trig_alloc [of 7 TR_TYPE_UE_REP 0 "Some [1]" 1 demo_env] by (cases "trig_alloc 7 TR_TYPE_UE_REP 0 (Some [1]) 1 demo_env") simp
  have "fst (arun reg_astep (trig_ctx_init, demo_env) [?a, RFindId 1, RDelId 1, RFindId 1, RDelId 1]) =
      [Ident 1, Found (Some ((trig_init 7 TR_TYPE_UE_REP 0 (Some [1]) 1)\<lparr>tr_id := 1\<rparr>)), Status 0,
      Found None, Status (- 1)]"
    by (simp add: w trig_add_def trig_find_by_id_def trig_del_by_id_def trig_ctx_init_def Let_def)
  with c' show ?thesis by (intro exI [of _ c']) (simp only:)
qed

text \<open>
  (C9) The queues of the scheduler in memory are the lists of the model.  Whatever tasks are posted
  and whatever passes are made, before and after the order to stop and at the end of the
  thread, on any message library, clock and network: every loop ends, no operation touches a
  task that was freed or frees one twice, results, agent, accounts and trace are those of the
  model, as long as the scheduler is not stopped every task allocated is on a queue, and the other
  lists in memory are as they were.
\<close>

theorem queues_in_memory:
  assumes "queue_rel H q F c a" and "allowed (queue_cstep P g H q) (queue_ok H) c xs"
  shows "\<exists>c'. crun (queue_cstep P g H q) c xs = Some (fst (arun (queue_astep P g) a xs), c')
    \<and> queue_rel H q F c' (snd (arun (queue_astep P g) a xs))"
  by (rule ptq.run [OF assms])

text \<open>A task at address 300 is posted, kept by a pass, and freed at the end.\<close>

lemma queues_in_memory_witness:
  "\<exists>c'. crun (queue_cstep demo_proto demo_garbage {100, 200} \<lparr>pq_jobs = 100, pq_todo = 200\<rparr>)
      (with_queues [] [] (demo_agent []), init_head (init_head empty_memory 100) 200, demo_env)
      [QPost 300 TASK_TYPE_HELLO 5000 (- 1) 0 None 0, QPass, QExit, QStop] = Some ([0, 0, 0, 0], c')"
proof -
  let ?q = "\<lparr>pq_jobs = 100, pq_todo = 200\<rparr> :: ptrqueues" and ?H = "{100, 200} :: addr set"
  let ?c = "(with_queues [] [] (demo_agent []), init_head (init_head empty_memory 100) 200, demo_env)"
  let ?b = "(with_queues [] [] (demo_agent []), demo_env)"
  let ?xs = "[QPost 300 TASK_TYPE_HELLO 5000 (- 1) 0 None 0, QPass, QExit, QStop]"
  have a: "allowed (queue_cstep demo_proto demo_garbage ?H ?q) (queue_ok ?H) ?c ?xs"
    by (auto simp: live_def init_head_def empty_memory_def split: option.split prod.split)
  have rel: "queue_rel ?H ?q (\<lambda>_. None) ?c ?b" by (rule empty_queues) simp
  obtain c' where c': "crun (queue_cstep demo_proto demo_garbage ?H ?q) ?c ?xs =
      Some (fst (arun (queue_astep demo_proto demo_garbage) ?b ?xs), c')"
    using queues_in_memory [OF rel a] by blast
  obtain w where w: "task_alloc TASK_TYPE_HELLO 5000 (- 1) 0 None 0 demo_env =
      (Some (task_init TASK_TYPE_HELLO 5000 (- 1) 0 None 0), w)"
    using fst_task_alloc [of TASK_TYPE_HELLO 5000 "- 1" 0 None 0 demo_env]
    by (cases "task_alloc TASK_TYPE_HELLO 5000 (- 1) 0 None 0 demo_env") simp
  have p: "fst (queue_astep demo_proto demo_garbage x QPass) = 0"
    "fst (queue_astep demo_proto demo_garbage x QExit) = 0"
    "fst (queue_astep demo_proto demo_garbage x QStop) = 0" for x
    by (cases x; simp add: sched_consume_def Let_def split: prod.split bool.split)+
  have "fst (arun (queue_astep demo_proto demo_garbage) ?b ?xs) = [0, 0, 0, 0]"
    by (simp add: post_task_def w net_sched_task_def p split_beta Let_def)
  with c' show ?thesis by (intro exI [of _ c']) (simp only:)
qed

text \<open>
  (C10) The pass of the scheduler in memory, interrupted.  Between any two of its critical sections others
  may post tasks, open or lose the connection and change the triggers, any number of times: no step touches a
  task that was freed or frees one twice, every loop ends, the task in the hands of the thread is on no
  list, the memory holds what the interleaving of the model holds, and as long as the scheduler is not
  stopped every task allocated is on a queue or in the hands of the thread.
\<close>

theorem interrupted_pass_in_memory:
  assumes "place_rel H q F c a" and "allowed (mix_cstep P g H q) (mix_ok H) c ys"
  shows "\<exists>rs c'. crun (mix_cstep P g H q) c ys = Some (rs, c')
    \<and> place_rel H q F c' (mix P g (map choice_of ys) a)"
  using ptm.run [OF assms] by (auto simp: arun_mix)

lemma empty_pass:
  assumes "j \<noteq> t"
  shows "place_rel {j, t} \<lparr>pq_jobs = j, pq_todo = t\<rparr> (\<lambda>_. None)
    (PopAt, with_queues [] [] a, init_head (init_head empty_memory j) t, w) (Pop, with_queues [] [] a, w)"
  using empty_queues [OF assms, of a w] by (auto simp: queue_rel_def place_rel_def)

text \<open>A task is posted; while the thread has it in its hands, the triggers are changed; the task is put back.\<close>

lemma interrupted_pass_in_memory_witness:
  "\<exists>rs z a s w. crun (mix_cstep demo_proto demo_garbage {100, 200} \<lparr>pq_jobs = 100, pq_todo = 200\<rparr>)
      (PopAt, with_queues [] [] (demo_agent []), init_head (init_head empty_memory 100) 200, demo_env)
      [PostAt 300 TASK_TYPE_HELLO 5000 (- 1) 0 None 0, TurnAt, MoveAt (DropId 1), TurnAt, TurnAt, TurnAt, TurnAt] =
        Some (rs, OverAt, a, s, w)"
proof -
  let ?q = "\<lparr>pq_jobs = 100, pq_todo = 200\<rparr> :: ptrqueues" and ?H = "{100, 200} :: addr set"
  let ?s = "init_head (init_head empty_memory 100) 200 :: emtask memory"
  let ?b = "(Pop, with_queues [] [] (demo_agent []), demo_env)"
  let ?ys = "[PostAt 300 TASK_TYPE_HELLO 5000 (- 1) 0 None 0, TurnAt, MoveAt (DropId 1), TurnAt, TurnAt, TurnAt, TurnAt]"
  have a: "allowed (mix_cstep demo_proto demo_garbage ?H ?q) (mix_ok ?H)
      (PopAt, with_queues [] [] (demo_agent []), ?s, demo_env) ?ys"
    by (auto simp: live_def init_head_def empty_memory_def split: option.split prod.split)
  have rel: "place_rel ?H ?q (\<lambda>_. None) (PopAt, with_queues [] [] (demo_agent []), ?s, demo_env) ?b"
    by (rule empty_pass) simp
  obtain rs c' where c': "crun (mix_cstep demo_proto demo_garbage ?H ?q)
      (PopAt, with_queues [] [] (demo_agent []), ?s, demo_env) ?ys = Some (rs, c')"
    "place_rel ?H ?q (\<lambda>_. None) c' (mix demo_proto demo_garbage (map choice_of ?ys) ?b)"
    using interrupted_pass_in_memory [OF rel a] by blast
  have "fst (mix demo_proto demo_garbage (map choice_of ?ys) ?b) = Over"
  proof -
    obtain w where w: "task_alloc TASK_TYPE_HELLO 5000 (- 1) 0 None 0 demo_env =
        (Some (task_init TASK_TYPE_HELLO 5000 (- 1) 0 None 0), w)"
      using fst_task_alloc [of TASK_TYPE_HELLO 5000 "- 1" 0 None 0 demo_env]
      by (cases "task_alloc TASK_TYPE_HELLO 5000 (- 1) 0 None 0 demo_env") simp
    have "same_but_mem demo_env w" using task_alloc_env(1) [of demo_env TASK_TYPE_HELLO 5000 "- 1" 0 None 0] w by simp
    then have c: "clock w n = Timespec (int n) 0" "clocks w = 0" for n by (simp_all add: same_but_mem_def)
    show ?thesis
      by (simp add: post_task_def w net_sched_task_def agent_add_task_def sched_add_task_def clock_gettime_def c
          with_queues_def jobs_pop_def trig_del_by_id_def trig_ctx_init_def sched_perform_job_def
          ts_diff_to_ms_def settle_def todo_push_def Let_def)
  qed
  then have "fst c' = OverAt" using c'(2) by (cases c'; cases "fst c'") (auto simp: place_rel_def split_beta)
  then show ?thesis using c'(1) by (cases c') auto
qed

text \<open>
  (C12) The list of agents in memory is the list of the model.  Whatever public calls are made, one
  after the other: every search and loop ends, no call touches an agent that was freed or frees one
  twice, results and effects are those of the model's calls, every agent allocated is on the list
  (one whose start fails is freed), and the other lists in memory are as they were.
\<close>

theorem agents_in_memory:
  assumes "api_rel H r F c a" and "allowed (api_cstep H r) (api_ok H) c xs"
  shows "\<exists>c'. crun (api_cstep H r) c xs = Some (fst (arun api_astep a xs), c')
    \<and> api_rel H r F c' (snd (arun api_astep a xs))"
  by (rule ptc.run [OF assms])

text \<open>An agent is started at address 300 and found, one that does not exist is not.\<close>

lemma agents_in_memory_witness:
  "\<exists>c'. crun (api_cstep {100} 100) (\<lparr>core_init = True, core_agents = []\<rparr>, init_head empty_memory 100, demo_env)
      [ApiStart 300 5 (Some all_ops) [49] 80, ApiHasTrigger 5 1, ApiSend 9 (Some [1]) 1, ApiTerminate 5,
       ApiSend 5 (Some [1]) 1, ApiStop] = Some ([0, 0, - 1, 0, - 1, 0], c')"
proof -
  let ?c = "(\<lparr>core_init = True, core_agents = []\<rparr>, init_head empty_memory 100, demo_env)"
  let ?b = "(\<lparr>core_init = True, core_agents = []\<rparr>, demo_env)"
  let ?xs = "[ApiStart 300 5 (Some all_ops) [49] 80, ApiHasTrigger 5 1, ApiSend 9 (Some [1]) 1, ApiTerminate 5,
       ApiSend 5 (Some [1]) 1, ApiStop]"
  have a: "allowed (api_cstep {100} 100) (api_ok {100}) ?c ?xs"
    by (auto simp: live_def init_head_def empty_memory_def split: option.split prod.split)
  have rel: "api_rel {100} 100 (\<lambda>_. None) ?c ?b"
    using empty_agents [of 100 "\<lparr>core_init = True, core_agents = []\<rparr>"] by simp
  obtain c' where c': "crun (api_cstep {100} 100) ?c ?xs = Some (fst (arun api_astep ?b ?xs), c')"
    using agents_in_memory [OF rel a] by blast
  obtain x a1 w where st: "em_start 5 (Some all_ops) [49] 80 \<lparr>core_init = True, core_agents = []\<rparr> demo_env =
      (0, \<lparr>core_init = True, core_agents = [a1]\<rparr>, w)" "enb_id a1 = 5" "tx_ts (trig a1) = []"
  proof -
    have ok: "thread_ok demo_env n" for n by (simp add: demo_env_def)
    show thesis
      by (rule that, simp add: em_start_def core_initialize_def find_agent_def malloc_def new_agent_def
          zero_agent_def copy_addr_def sched_start_def net_start_def pthread_create_def ok all_ops_def
          trig_ctx_init_def Let_def) simp_all
  qed
  have "fst (arun api_astep ?b ?xs) = [0, 0, - 1, 0, - 1, 0]"
    by (simp add: st em_has_trigger_def em_send_def em_terminate_agent_def em_stop_def find_agent_def
        trig_find_by_id_def Let_def split_beta)
  with c' show ?thesis by (intro exI [of _ c']) (simp only:)
qed

end
