(* ===== verification/Spec2Isabelle.thy ===== *)
theory Spec2Isabelle
  imports Emloops TaskProps TrigProps SchedProps NetProps NetMeasure NetLoopProps CoreApi CallsProps Hlist TurnProps TurnTypes BorrowProps WholeProps PtrProps
begin

text \<open>
  A model of the 5G-EmPOWER eNodeB agent (\<open>src/agent\<close>, \<open>src/include/emage.h\<close>): a C library that
  connects a base station to a controller.  For each agent it runs two threads.  The network
  listener (\<open>net.c\<close>) keeps a TCP connection, cuts the byte stream into messages and turns each into
  tasks and triggers.  The scheduler (\<open>sched.c\<close>) keeps a queue of tasks (\<open>task.c\<close>), carries out
  those that are due, by calling the wrapper of the base station or sending a message, and puts
  back those to repeat.  Triggers (\<open>triggers.c\<close>) are requests of the controller that stay.  The core
  (\<open>core.c\<close>) holds the list of agents and the public calls.  All lists are the intrusive lists of
  \<open>emlist.h\<close>; the log file (\<open>log.c\<close>) is shared by all agents.

  What is modelled where.
  \<^item> \<^bold>\<open>Prelude\<close>: names of the machine types, \<open>delete_first\<close>, lemmas on lists and words.
  \<^item> \<^bold>\<open>Emlist\<close>, \<^bold>\<open>Emloops\<close>: \<open>emlist.h\<close> on a heap of nodes, every inline function and loop, with the abstraction \<open>dlist\<close> (a head whose ring holds a list of entries).  The
    properties say that each operation is the list function it stands for and touches nothing
    outside its ring; the theories of the components use HOL lists for the lists of the agent, and
    the \<open>Ptr\<close> theories below show that the pointers in memory compute the same.
    The locale \<open>intrusive_list\<close> has the reading direction as parameter and is interpreted twice.
    \<^bold>\<open>Hlist\<close> does the same for the single-headed lists of the second half of the header.
  \<^item> \<^bold>\<open>Emage\<close>, \<^bold>\<open>Env\<close>, \<^bold>\<open>Log\<close>, \<^bold>\<open>Proto\<close>: the public structures and callbacks; the process (outcomes of
    system calls as functions of how often they were made, and a trace of what the agent did to the
    outside, undefined behaviour being an event \<open>EvFault\<close>); the log; and the record of what the
    external library \<open>libemproto\<close> provides, about which nothing is assumed.
  \<^item> \<^bold>\<open>Accounting\<close>, \<^bold>\<open>Task\<close>, \<^bold>\<open>Triggers\<close>: allocation with the memory counters of \<open>EBUG_MEMORY\<close> builds,
    tasks, and the trigger registry.  The locale \<open>pool\<close> (a counter that releasing an element
    refunds) is interpreted for both; the locale \<open>registry\<close> (fresh keys, lookups after entering
    and dropping) for the triggers.
  \<^item> \<^bold>\<open>Agent\<close>: the records \<open>schctx\<close>, \<open>netctx\<close>, \<open>emage\<close> and the calls between the subsystems.
  \<^item> \<^bold>\<open>Sched\<close>, \<^bold>\<open>SchedLoop\<close>: the tasks (\<open>sched_perform_*\<close>), the decision about a task
    (\<open>sched_perform_job\<close>), the pass over the queue (\<open>sched_consume\<close>), the thread around it.
    \<^bold>\<open>SchedFacts\<close> has its invariants: \<open>books\<close> (the counters agree with what is held), \<open>survive\<close> (what
    a pass does to the order and credit of tasks); \<^bold>\<open>SchedProps\<close> the properties.
  \<^item> \<^bold>\<open>Net\<close>, \<^bold>\<open>NetLoop\<close>: the message handlers and their dispatch; the listener thread as a machine whose
    step \<open>net_step\<close> goes from one look at shared state to the next, with the answers of the kernel
    as input.  \<^bold>\<open>NetFacts\<close> reduces the handlers to three moves (post a task, enter a trigger,
    remove a trigger); \<^bold>\<open>NetBooks\<close>, \<^bold>\<open>NetProps\<close>, \<^bold>\<open>NetTrigProps\<close>, \<^bold>\<open>NetMeasure\<close> have accounts and behaviour
    of the handlers, \<^bold>\<open>NetFraming\<close> the framing of the stream, \<^bold>\<open>NetLoopFacts\<close> and \<^bold>\<open>NetLoopProps\<close> the
    other properties of the loop.
  \<^item> \<^bold>\<open>Core\<close>: the public calls.  \<^bold>\<open>CoreFacts\<close> puts them together with the steps of the threads
    (\<open>core_step\<close>) under the invariant \<open>core_inv\<close>; \<^bold>\<open>CoreStart\<close>, \<^bold>\<open>CoreProps\<close> and \<^bold>\<open>CoreApi\<close> prove it and
    the behaviour of each call.  The locale \<open>directory\<close> is the list of agents as the calls use it.
  \<^item> \<^bold>\<open>Calls\<close>: the public calls again, cut into critical sections that any number of callers and the
    threads of the agents interleave; agents have addresses there and can be freed.  \<^bold>\<open>CallsFacts\<close>
    has the invariant of every interleaving (each agent has one owner), \<^bold>\<open>CallsAlone\<close> relates an
    uninterrupted call to the function of \<open>Core\<close>, and \<^bold>\<open>CallsRoles\<close> shows, with the locales
    \<open>single_role\<close> and \<open>safe_role\<close>, what holds when one caller at most removes, or starts, agents.
    \<^bold>\<open>CallsProps\<close> has the properties, and the two races that break these rules.
  \<^item> \<^bold>\<open>Turns\<close>: the pass of the scheduler (\<open>sched_consume\<close>) cut at its lock, with moves of the listener
    and of callers between any two steps (\<open>mix\<close>).  \<^bold>\<open>TurnFacts\<close> has accounts, order of tasks and number of
    steps in every interleaving, \<^bold>\<open>TurnMoves\<close> shows that handling a message is a sequence of moves,
    \<^bold>\<open>TurnTypes\<close> that tasks keep the shape that the function behind their type relies on, and
    \<^bold>\<open>TurnProps\<close> has the other properties and two races of the error branch.
  \<^item> \<^bold>\<open>Borrow\<close>: the registry of triggers with addresses, for the reads that the code makes after it has
    given the lock back (\<open>trig_find_by_id\<close>, \<open>trig_add\<close>).  Its steps are \<open>user_step\<close> (the measurements of
    \<open>sched.c\<close>), \<open>watch_step\<close> (the requests of \<open>net.c\<close>) and \<open>remove_step\<close> (\<open>triggers.c\<close>).  \<^bold>\<open>BorrowFacts\<close> has who
    owns a trigger in every interleaving, with the locale \<open>contract\<close> (what each step keeps, every
    interleaving keeps) interpreted for the owners, and in \<^bold>\<open>BorrowApart\<close> for users that remove and free
    triggers, but none that another uses (\<open>apart\<close>); \<^bold>\<open>BorrowAlone\<close> relates an
    uninterrupted user to the functions of \<open>Sched\<close> and \<open>Triggers\<close>; \<^bold>\<open>BorrowProps\<close> has the properties
    and the reads of freed memory that remain.
  \<^item> \<^bold>\<open>Whole\<close>: an agent at work, both threads to their end (\<open>thread_step\<close> is \<open>sched_loop\<close>, \<open>net_step\<close> the
    listener) and calls in any interleaving.  The locale \<open>agent_contract\<close> (what each allowed act keeps, every
    run keeps) is interpreted in \<^bold>\<open>WholeFacts\<close> for the accounts and for the absence of the faults that the
    trace records; freed triggers are the matter of \<open>Borrow\<close>;
    \<^bold>\<open>WholeProps\<close> has these properties and that the agent stops.
  \<^item> \<^bold>\<open>Pointers\<close>: objects in allocated memory that carry their list node, where an access to memory
    that is not allocated, a double free and an endless loop are \<open>None\<close>; \<open>family\<close> is what lists the memory
    holds, \<open>linked_but\<close> that nothing allocated is off the lists but what is in hands.  The locale
    \<open>simulation\<close> (operations of memory against operations of the model, step by step) is interpreted for the
    registry (\<^bold>\<open>PtrTriggers\<close>: \<open>trig_add_at\<close> is \<open>trig_add\<close> of \<open>triggers.c\<close>, and so on), the queues and the
    pass of the scheduler (\<^bold>\<open>PtrSched\<close>), the list of agents under the public calls (\<^bold>\<open>PtrCore\<close>),
    and for the pass of the scheduler cut at its lock, with others between its steps (\<^bold>\<open>PtrTurns\<close>).
    \<^bold>\<open>PtrProps\<close> has the four refinements.  In each the lists of one kind are in memory and the other
    lists of the agent are those of the record, which the other refinements cover.
  \<^item> \<^bold>\<open>Demo\<close>: a concrete library, process and agent, for witnesses only.

  Conventions.  A pointer and a length passed together are the bytes they delimit; a null pointer
  is \<open>None\<close>.  \<open>container_of\<close> becomes passing the whole agent.  Counters that wrap are words; a C
  \<open>int\<close> that is only copied and compared is an \<open>int\<close>.  Variables that are read uninitialised get
  their value from the parameter \<open>stack_garbage\<close>.  \<open>EMDBG\<close> is empty, as in the default build.

  Loops and bounds.  Loops over lists are structural or have a measure (a pass takes one task off the
  queue per turn).  The pointer loops are \<open>partial_function (option)\<close> and proved to return on a
  well-formed list.  The listener never ends by itself, so it has no fuel: statements about it
  quantify over lists of inputs, and those that promise progress give the number of steps that is
  enough (\<open>length m + 3\<close> for a message \<open>m\<close>, 4 for the end of the listener after a stop,
  nine and four for each task for that of the scheduler).  Identifier properties
  assume fewer than \<open>2 ^ 31 - 1\<close> triggers, where \<open>next++\<close> would overflow.

  Addresses of the controller.  \<open>em_start\<close> copies its argument into an array of 16 without a look at its
  length.  A longer one is the event \<open>BufferOverflow\<close>, and \<open>copy_addr\<close> follows it into the members behind the
  array, as they lie in memory; what is behind \<open>buf\<close> is not followed.  The statements about \<open>em_start\<close> that
  need the agent it makes, and the invariant of all calls, are for addresses of at most 16 characters
  (\<open>op_fits\<close>), and \<open>long_address_stops_listener\<close> shows that they need to be.  A null log and joins of threads that
  were never created are events too, not crashes: what \<open>Calls\<close> shows is about agents that are freed or
  taken from an empty list.

  Not modelled: the contents of messages, which are \<open>libemproto\<close>'s; the expansion of log formats; the
  kernel's side of sockets; preemption inside a critical section or, in \<open>Turns\<close>, while a single task is
  carried out (spin locks and mutexes are assumed to do what they are documented to do); races on
  single variables, such as the memory counters and the status of the connection; the reuse of
  addresses by \<open>malloc\<close> while others hold the old ones (the \<open>Ptr\<close> theories have it for what is
  freed under the lock that the lists are used under); the blocks of the messages inside tasks and triggers, which are freed with
  them; \<open>visibility.h\<close> and the Makefiles, which hold linker attributes and build
  settings.
\<close>

end
